(* ===== verification/Bfc_Prelude.thy ===== *)
theory Bfc_Prelude
  imports Main "HOL-Library.Word"
begin

text \<open>
  Shared vocabulary of the development.

  \<^item> The types that stand for the C++ types of the library: \<open>size_t\<close> is a natural number whose
    arithmetic is written out modulo \<open>2 ^ 64\<close> wherever the source adds two of them, file descriptors
    are 32-bit words (so \<open>-1\<close> is the all-ones word), generations and timer counters are 64-bit
    words, \<open>int64_t\<close> values are integers with an explicit range check.
  \<^item> Exceptions and undefined behaviour as values: an operation of a component returns either
    \<open>Ok\<close> with its value and the new state or \<open>Throw\<close> with the state at the point of the throw.
  \<^item> Facts about lists, ring indices and swap-removal used by several components.
  \<^item> The locale of invariants of transition systems, interpreted by every component that is
    modelled as an interleaving of atomic steps.
\<close>

named_theorems bfc_simps \<open>computation rules of the modelled operations\<close>
named_theorems wf_intros \<open>an operation keeps the well-formedness of its component\<close>

type_synonym size_t = nat
type_synonym u64 = "64 word"
type_synonym fd_t = "32 word"
type_synonym short = "16 word"

section \<open>Outcomes\<close>

datatype fault =
    Length_error           \<comment> \<open>\<open>std::length_error\<close>: a vector longer than its \<open>max_size()\<close>\<close>
  | Bad_alloc              \<comment> \<open>\<open>std::bad_alloc\<close>\<close>
  | Bad_function_call      \<comment> \<open>\<open>std::bad_function_call\<close>\<close>
  | Out_of_range           \<comment> \<open>\<open>std::out_of_range\<close>\<close>
  | Runtime_error int      \<comment> \<open>\<open>std::runtime_error(strerror(errno))\<close>\<close>
  | Dangling_pointer       \<comment> \<open>a pointer to an object that is gone is dereferenced\<close>
  | Stack_overflow         \<comment> \<open>calls nested deeper than the stack\<close>
  | Undefined_behaviour    \<comment> \<open>the C++ abstract machine gives no meaning to the execution\<close>

datatype ('s, 'a) result = Ok (the_value: 'a) (the_state: 's) | Throw fault (the_state: 's)

definition rbind :: "('s, 'a) result \<Rightarrow> ('a \<Rightarrow> 's \<Rightarrow> ('s, 'b) result) \<Rightarrow> ('s, 'b) result" where
  "rbind r f = (case r of Ok a s \<Rightarrow> f a s | Throw e s \<Rightarrow> Throw e s)"

lemma rbind_simps [simp]:
  "rbind (Ok a s) f = f a s"
  "rbind (Throw e s) f = Throw e s"
  by (simp_all add: rbind_def)

lemma rbind_assoc: "rbind (rbind r f) g = rbind r (\<lambda>a s. rbind (f a s) g)"
  by (cases r) simp_all

lemma rbind_eq_Ok:
  "rbind r f = Ok b t \<longleftrightarrow> (\<exists>a s. r = Ok a s \<and> f a s = Ok b t)"
  by (cases r) auto

text \<open>Running a fallible step over a list of items, stopping at the first throw.\<close>

primrec rfold :: "('a \<Rightarrow> 's \<Rightarrow> ('s, unit) result) \<Rightarrow> 'a list \<Rightarrow> 's \<Rightarrow> ('s, unit) result" where
  "rfold f [] s = Ok () s"
| "rfold f (x # xs) s = rbind (f x s) (\<lambda>_. rfold f xs)"

lemma rfold_inv:
  assumes step: "\<And>x s. I s \<Longrightarrow> I (the_state (f x s))"
  shows "I s \<Longrightarrow> I (the_state (rfold f xs s))"
proof (induction xs arbitrary: s)
  case (Cons x xs)
  have "I (the_state (f x s))" using Cons.prems by (rule step)
  then show ?case by (cases "f x s") (auto intro: Cons.IH)
qed simp

lemma fold_inv:
  assumes "\<And>x s. I s \<Longrightarrow> I (f x s)"
  shows "I s \<Longrightarrow> I (fold f xs s)"
  using assms by (induction xs arbitrary: s) auto

section \<open>Machine integers\<close>

definition size_max :: nat where
  "size_max = 2 ^ 64 - 1"

definition size_add :: "size_t \<Rightarrow> size_t \<Rightarrow> size_t" where
  "size_add a b = (a + b) mod 2 ^ 64"

lemma size_add_exact: "a + b < 2 ^ 64 \<Longrightarrow> size_add a b = a + b"
  by (simp add: size_add_def)

text \<open>\<open>PTRDIFF_MAX\<close> bounds the \<open>max_size()\<close> of every \<open>std::vector\<close>.\<close>

definition vector_max_size :: nat where
  "vector_max_size = 2 ^ 63 - 1"

lemma vector_max_size_add: "a \<le> vector_max_size \<Longrightarrow> b \<le> vector_max_size \<Longrightarrow> size_add a b = a + b"
  by (simp add: size_add_def vector_max_size_def)

definition int64_ok :: "int \<Rightarrow> bool" where
  "int64_ok x \<longleftrightarrow> - (2 ^ 63) \<le> x \<and> x < 2 ^ 63"

lemma unat_plus1:
  fixes w :: "'a::len word"
  assumes "Suc (unat w) < 2 ^ LENGTH('a)"
  shows "unat (w + 1) = Suc (unat w)"
proof -
  have "unat (1 :: 'a word) = 1" by simp
  with assms have "unat w + unat (1 :: 'a word) < 2 ^ LENGTH('a)" by simp
  then have "unat (w + 1) = unat w + unat (1 :: 'a word)" by (simp add: unat_word_ariths)
  then show ?thesis by simp
qed

section \<open>Ring indices\<close>

lemma ring_index_inj:
  fixes h i j n :: nat
  assumes "i < n" "j < n" "(h + i) mod n = (h + j) mod n"
  shows "i = j"
proof -
  have "(int h + int i) mod int n = (int h + int j) mod int n"
    using assms(3) by (metis of_nat_add of_nat_mod)
  then have "int i mod int n = int j mod int n"
    by (metis mod_diff_cong add_diff_cancel_left')
  with assms(1,2) show ?thesis by simp
qed

lemma ring_index_eq_iff:
  fixes h i j n :: nat
  shows "i < n \<Longrightarrow> j < n \<Longrightarrow> (h + i) mod n = (h + j) mod n \<longleftrightarrow> i = j"
  using ring_index_inj by blast

lemma ring_index_eq_head:
  fixes h i n :: nat
  shows "i < n \<Longrightarrow> h < n \<Longrightarrow> (h + i) mod n = h \<longleftrightarrow> i = 0"
  using ring_index_eq_iff [of i n 0 h] by auto

lemma ring_index_step: "((h + 1) mod n + i) mod n = (h + Suc i) mod (n::nat)"
  by (simp add: mod_add_left_eq)

lemma ring_index_surj:
  fixes h j n :: nat
  assumes "h < n" "j < n"
  shows "\<exists>i < n. (h + i) mod n = j"
proof (cases "h \<le> j")
  case True
  with assms show ?thesis by (intro exI [of _ "j - h"]) auto
next
  case False
  with assms show ?thesis by (intro exI [of _ "n + j - h"]) auto
qed

section \<open>Swap-removal\<close>

text \<open>Removing position \<open>i\<close> of a vector by moving its last element there and popping the back.\<close>

definition swap_remove :: "nat \<Rightarrow> 'a list \<Rightarrow> 'a list" where
  "swap_remove i xs = butlast (xs[i := last xs])"

lemma length_swap_remove [simp]: "length (swap_remove i xs) = length xs - 1"
  by (simp add: swap_remove_def)

lemma nth_swap_remove:
  assumes "i < length xs" "j < length xs - 1"
  shows "swap_remove i xs ! j = (if j = i then last xs else xs ! j)"
  using assms by (auto simp: swap_remove_def nth_butlast)

lemma swap_remove_last: "i = length xs - 1 \<Longrightarrow> xs \<noteq> [] \<Longrightarrow> swap_remove i xs = butlast xs"
  by (simp add: swap_remove_def butlast_list_update)

section \<open>Vectors that are indexed by a key\<close>

text \<open>
  A vector whose elements carry a key, and a table that maps each key to the position of its element:
  the table of indices agrees with the vector.
\<close>

definition indexed :: "('a \<Rightarrow> 'k) \<Rightarrow> 'a list \<Rightarrow> ('k \<Rightarrow> nat option) \<Rightarrow> bool" where
  "indexed key xs f \<longleftrightarrow> (\<forall>k i. f k = Some i \<longleftrightarrow> i < length xs \<and> key (xs ! i) = k)"

lemma indexed_at: "indexed key xs f \<Longrightarrow> f k = Some i \<Longrightarrow> i < length xs \<and> key (xs ! i) = k"
  by (simp add: indexed_def)

lemma indexed_nth: "indexed key xs f \<Longrightarrow> i < length xs \<Longrightarrow> f (key (xs ! i)) = Some i"
  by (simp add: indexed_def)

lemma indexed_distinct:
  assumes "indexed key xs f"
  shows "distinct (map key xs)"
  unfolding distinct_conv_nth
proof (intro allI impI)
  fix i j assume "i < length (map key xs)" "j < length (map key xs)" "i \<noteq> j"
  then show "map key xs ! i \<noteq> map key xs ! j"
    using indexed_nth [OF assms, of i] indexed_nth [OF assms, of j] by auto
qed

lemma indexed_length:
  fixes key :: "'a \<Rightarrow> 'k :: finite"
  assumes "indexed key xs f"
  shows "length xs \<le> card (UNIV :: 'k set)"
proof -
  have "length xs = card (set (map key xs))"
    using indexed_distinct [OF assms] by (metis distinct_card length_map)
  also have "\<dots> \<le> card (UNIV :: 'k set)" by (rule card_mono) auto
  finally show ?thesis .
qed

lemma indexed_append:
  assumes "indexed key xs f" "f (key x) = None"
  shows "indexed key (xs @ [x]) (f(key x \<mapsto> length xs))"
  unfolding indexed_def
proof (intro allI iffI)
  fix k i
  show "i < length (xs @ [x]) \<and> key ((xs @ [x]) ! i) = k" if "(f(key x \<mapsto> length xs)) k = Some i"
    using that indexed_at [OF assms(1), of k i] by (auto simp: nth_append split: if_splits)
  show "(f(key x \<mapsto> length xs)) k = Some i" if "i < length (xs @ [x]) \<and> key ((xs @ [x]) ! i) = k"
    using that indexed_nth [OF assms(1), of i] assms(2) by (auto simp: nth_append split: if_splits)
qed

lemma indexed_update:
  assumes "indexed key xs f" "i < length xs \<Longrightarrow> key x = key (xs ! i)"
  shows "indexed key (xs[i := x]) f"
proof -
  have "key (xs[i := x] ! j) = key (xs ! j)" if "j < length xs" for j
    using that assms(2) by (cases "i = j") auto
  with assms(1) show ?thesis by (auto simp: indexed_def)
qed

text \<open>Removing an element by moving the last one into its place, with the index of that one updated.\<close>

lemma indexed_swap_remove:
  assumes ix: "indexed key xs f" and i: "f k = Some i"
  shows "indexed key (swap_remove i xs)
    (\<lambda>k'. if k' = k then None else if f k' = Some (length xs - 1) then Some i else f k')"
proof -
  have lt: "i < length xs" and ki: "key (xs ! i) = k" using indexed_at [OF ix i] by auto
  then have ne: "xs \<noteq> []" by auto
  then have last: "last xs = xs ! (length xs - 1)" by (rule last_conv_nth)
  have iff: "f k' = Some j \<longleftrightarrow> j < length xs \<and> key (xs ! j) = k'" for k' j
    using ix by (simp add: indexed_def)
  show ?thesis
    unfolding indexed_def
  proof (intro allI)
    fix k' j
    consider (rem) "k' = k" | (last) "k' \<noteq> k" "f k' = Some (length xs - 1)"
      | (other) "k' \<noteq> k" "f k' \<noteq> Some (length xs - 1)" by blast
    then show "((if k' = k then None else if f k' = Some (length xs - 1) then Some i else f k') = Some j) =
        (j < length (swap_remove i xs) \<and> key (swap_remove i xs ! j) = k')"
    proof cases
      case rem
      then show ?thesis using lt ki i iff [of k j] iff [of k "length xs - 1"]
        by (auto simp: nth_swap_remove last split: if_splits)
    next
      case last
      then have "i \<noteq> length xs - 1" using i ki iff by auto
      then show ?thesis using last lt ki iff [of k' j] iff [of k' "length xs - 1"]
        by (auto simp: nth_swap_remove \<open>last xs = _\<close> split: if_splits)
    next
      case other
      then show ?thesis using lt ki iff [of k' j] iff [of k' "length xs - 1"] ne
        by (auto simp: nth_swap_remove \<open>last xs = _\<close> less_Suc_eq_0_disj split: if_splits
            dest: less_antisym)
    qed
  qed
qed

section \<open>Invariants of transition systems\<close>

text \<open>
  The states an interleaving of atomic steps can reach. A component that runs on several threads is
  an initial-state predicate and a step relation; its safety properties are instances of the
  lemmas of this locale.
\<close>

inductive reachable :: "('s \<Rightarrow> bool) \<Rightarrow> ('s \<Rightarrow> 's \<Rightarrow> bool) \<Rightarrow> 's \<Rightarrow> bool"
  for initial :: "'s \<Rightarrow> bool" and step :: "'s \<Rightarrow> 's \<Rightarrow> bool" where
  reachable_init: "initial s \<Longrightarrow> reachable initial step s"
| reachable_step: "reachable initial step s \<Longrightarrow> step s t \<Longrightarrow> reachable initial step t"

locale transition_invariant =
  fixes initial :: "'s \<Rightarrow> bool"
    and step :: "'s \<Rightarrow> 's \<Rightarrow> bool"
    and inv :: "'s \<Rightarrow> bool"
  assumes inv_initial: "initial s \<Longrightarrow> inv s"
    and inv_step: "step s t \<Longrightarrow> inv s \<Longrightarrow> inv t"
begin

lemma inv_reachable: "reachable initial step s \<Longrightarrow> inv s"
  by (induction rule: reachable.induct) (auto intro: inv_initial inv_step)

end

end
