(* ===== verification/Bfc_Event_Queue.thy ===== *)
theory Bfc_Event_Queue
  imports Bfc_Prelude "HOL-Library.Multiset"
begin

text \<open>
  The queues of \<open>src/src/bfc/event_queue.hpp\<close>.

  \<^item> \<open>reactive_base\<close>: the base class \<open>reactive_event_queue_base\<close>, which holds the wake-up binding;
  \<^item> \<open>'a reactive_event_queue\<close>: the unbounded queue a reactor drains as a whole;
  \<^item> \<open>'a circular_queue\<close>: \<open>reactive_circular_lossy_queue\<close>, the fixed-capacity ring that overwrites its
    oldest element;
  \<^item> \<open>'a event_queue\<close>: the blocking queue with its condition variable.

  A lock guards each operation, so an operation is one function on the state of its queue. What an
  operation does after it released its lock (waking the bound reactor, destroying a dropped element)
  is part of the value it returns. The ring is shown to implement a list that keeps the newest
  \<open>capacity\<close> elements; the interface a reactor relies on is the locale \<open>reactive_queue\<close>.
\<close>

section \<open>The base class: binding a reactor\<close>

text \<open>
  A wake callback is the reactor it captures; an empty \<open>light_function\<close> is \<open>None\<close>. Reactors and
  callbacks are named by natural numbers.
\<close>

type_synonym reactor_id = nat
type_synonym cb_id = nat

record reactive_base =
  m_wake_callback :: "reactor_id option"

text \<open>\<open>replace_wake_callback\<close> returns the binding it retires, which is released outside the mutex.\<close>

definition replace_wake_callback ::
    "reactor_id option \<Rightarrow> 'z reactive_base_scheme \<Rightarrow> reactor_id option \<times> 'z reactive_base_scheme" where
  "replace_wake_callback wake_callback q =
     (m_wake_callback q, q\<lparr>m_wake_callback := wake_callback\<rparr>)"

definition set_reactor ::
    "reactor_id option \<Rightarrow> 'z reactive_base_scheme \<Rightarrow> reactor_id option \<times> 'z reactive_base_scheme" where
  "set_reactor reactor q =
     (case reactor of
        Some r \<Rightarrow> replace_wake_callback (Some r) q
      | None \<Rightarrow> replace_wake_callback None q)"

definition set_reactor_null ::
    "'z reactive_base_scheme \<Rightarrow> reactor_id option \<times> 'z reactive_base_scheme" where
  "set_reactor_null q = replace_wake_callback None q"

text \<open>\<open>notify_push\<close> wakes the reactor it copied under the binding mutex, if there is one.\<close>

definition notify_push :: "'z reactive_base_scheme \<Rightarrow> reactor_id option" where
  "notify_push q = (let wake_callback = m_wake_callback q in
     (case wake_callback of Some r \<Rightarrow> Some r | None \<Rightarrow> None))"

section \<open>The unbounded reactive queue\<close>

record 'a reactive_event_queue = reactive_base +
  re_queue :: "'a list"
  re_cb :: "cb_id option"

definition reactive_event_queue_new :: "'a reactive_event_queue" where
  "reactive_event_queue_new = \<lparr>m_wake_callback = None, re_queue = [], re_cb = None\<rparr>"

text \<open>The value is the size after the push and the reactor that is woken.\<close>

definition re_push ::
    "'a \<Rightarrow> 'a reactive_event_queue \<Rightarrow> (size_t \<times> reactor_id option) \<times> 'a reactive_event_queue" where
  "re_push u q =
     (let q = q\<lparr>re_queue := re_queue q @ [u]\<rparr>;
          size_after = length (re_queue q)
      in ((size_after, notify_push q), q))"

definition re_pop :: "'a reactive_event_queue \<Rightarrow> 'a list \<times> 'a reactive_event_queue" where
  "re_pop q = (re_queue q, q\<lparr>re_queue := []\<rparr>)"

definition re_size :: "'a reactive_event_queue \<Rightarrow> size_t" where
  "re_size q = length (re_queue q)"

definition re_set_callback :: "cb_id option \<Rightarrow> 'a reactive_event_queue \<Rightarrow> 'a reactive_event_queue" where
  "re_set_callback cb q = q\<lparr>re_cb := cb\<rparr>"

definition re_has_data :: "'a reactive_event_queue \<Rightarrow> bool" where
  "re_has_data q \<longleftrightarrow> re_queue q \<noteq> []"

text \<open>The callback that \<open>notify_callback\<close> invokes, with \<open>cb_mtx\<close> held.\<close>

definition re_notify_callback :: "'a reactive_event_queue \<Rightarrow> cb_id option" where
  "re_notify_callback q = (case re_cb q of Some cb \<Rightarrow> Some cb | None \<Rightarrow> None)"

section \<open>The circular lossy queue\<close>

record 'a circular_queue = reactive_base +
  m_cb :: "cb_id option"
  m_capacity :: size_t
  m_head :: size_t
  m_count :: size_t
  m_slots :: "'a option list"

definition circular_queue_new :: "'a circular_queue" where
  "circular_queue_new =
     \<lparr>m_wake_callback = None, m_cb = None, m_capacity = 0, m_head = 0, m_count = 0, m_slots = []\<rparr>"

text \<open>
  The copy loop of \<open>set_capacity\<close>: \<open>keep\<close> iterations from \<open>i\<close>, moving slot \<open>idx\<close> of the old ring
  into slot \<open>i\<close> of the new one. Dereferencing an empty slot is undefined behaviour.
\<close>

function move_slots ::
    "size_t \<Rightarrow> 'a option list \<Rightarrow> size_t \<Rightarrow> size_t \<Rightarrow> size_t \<Rightarrow> 'a option list \<Rightarrow> 'a option list option"
where
  "move_slots capacity slots i keep idx new_slots =
     (if i < keep then
        (case slots ! idx of
           None \<Rightarrow> None
         | Some x \<Rightarrow>
             move_slots capacity slots (i + 1) keep (size_add idx 1 mod capacity)
               (new_slots[i := Some x]))
      else Some new_slots)"
  by pat_completeness auto
termination
  by (relation "measure (\<lambda>(capacity, slots, i, keep, idx, new_slots). keep - i)") auto

declare move_slots.simps [simp del]

text \<open>
  \<open>sz\<close> is the size of a slot, \<open>sizeof(std::optional<T>)\<close>, which bounds the length of a vector of them; \<open>alloc_ok\<close>
  tells whether the allocation of a vector of that many slots succeeds; the result of \<open>set_capacity\<close> is the
  vector of retired slots, destroyed after the mutex is released.
\<close>

definition slots_max :: "nat \<Rightarrow> size_t" where
  "slots_max sz = vector_max_size div sz"

lemma slots_max_le: "capacity \<le> slots_max sz \<Longrightarrow> capacity \<le> vector_max_size"
  using div_le_dividend le_trans unfolding slots_max_def by blast

definition set_capacity ::
    "nat \<Rightarrow> (size_t \<Rightarrow> bool) \<Rightarrow> size_t \<Rightarrow> 'a circular_queue \<Rightarrow> ('a circular_queue, 'a option list) result" where
  "set_capacity sz alloc_ok capacity q =
     (if capacity = m_capacity q then Ok [] q
      else if capacity > slots_max sz then Throw Length_error q
      else if \<not> alloc_ok capacity then Throw Bad_alloc q
      else
        (let new_slots = replicate capacity None;
             keep = (if m_capacity q = 0 then 0 else min (m_count q) capacity);
             drop_n = m_count q - keep;
             moved = (if keep \<noteq> 0
                      then move_slots (m_capacity q) (m_slots q) 0 keep
                             (size_add (m_head q) drop_n mod m_capacity q) new_slots
                      else Some new_slots)
         in (case moved of
               None \<Rightarrow> Throw Undefined_behaviour q
             | Some slots \<Rightarrow>
                 Ok (m_slots q)
                   (q\<lparr>m_slots := slots, m_capacity := capacity, m_head := 0, m_count := keep\<rparr>))))"

record 'a push_result =
  size_before :: size_t
  dropped :: "'a option"
  woken :: "reactor_id option"

definition circular_push ::
    "'a \<Rightarrow> 'a circular_queue \<Rightarrow> ('a circular_queue, 'a push_result) result" where
  "circular_push u q =
     (if m_capacity q = 0 then
        Ok \<lparr>size_before = m_count q, dropped = Some u, woken = None\<rparr> q
      else if m_count q < m_capacity q then
        (let tail = size_add (m_head q) (m_count q) mod m_capacity q;
             q' = q\<lparr>m_slots := (m_slots q)[tail := Some u], m_count := m_count q + 1\<rparr>
         in Ok \<lparr>size_before = m_count q, dropped = None, woken = notify_push q'\<rparr> q')
      else
        (case m_slots q ! m_head q of
           None \<Rightarrow> Throw Undefined_behaviour q
         | Some oldest \<Rightarrow>
             (let q' = q\<lparr>m_slots := (m_slots q)[m_head q := Some u],
                         m_head := size_add (m_head q) 1 mod m_capacity q\<rparr>
              in Ok \<lparr>size_before = m_count q, dropped = Some oldest, woken = notify_push q'\<rparr> q')))"

definition circular_pop :: "'a circular_queue \<Rightarrow> ('a circular_queue, 'a option) result" where
  "circular_pop q =
     (if m_count q = 0 then Ok None q
      else
        (case m_slots q ! m_head q of
           None \<Rightarrow> Throw Undefined_behaviour q
         | Some x \<Rightarrow>
             Ok (Some x)
               (q\<lparr>m_slots := (m_slots q)[m_head q := None],
                  m_head := size_add (m_head q) 1 mod m_capacity q,
                  m_count := m_count q - 1\<rparr>)))"

definition circular_size :: "'a circular_queue \<Rightarrow> size_t" where
  "circular_size q = m_count q"

definition circular_capacity :: "'a circular_queue \<Rightarrow> size_t" where
  "circular_capacity q = m_capacity q"

definition circular_set_callback :: "cb_id option \<Rightarrow> 'a circular_queue \<Rightarrow> 'a circular_queue" where
  "circular_set_callback cb q = q\<lparr>m_cb := cb\<rparr>"

definition circular_has_data :: "'a circular_queue \<Rightarrow> bool" where
  "circular_has_data q \<longleftrightarrow> m_count q \<noteq> 0"

text \<open>The callback that \<open>notify_callback\<close> invokes after it released \<open>cb_mtx\<close>.\<close>

definition circular_notify_callback :: "'a circular_queue \<Rightarrow> cb_id option" where
  "circular_notify_callback q = (let cb = m_cb q in (case cb of Some c \<Rightarrow> Some c | None \<Rightarrow> None))"

section \<open>The blocking queue\<close>

text \<open>
  \<open>event_queue\<close> is a monitor: every operation runs under \<open>m_queue_mtx\<close>, and \<open>pop\<close> may give the
  mutex up inside \<open>cv.wait\<close>. The threads blocked there are counted by \<open>eq_waiting\<close>; those that were
  notified (or woke spuriously) and still have to take the mutex again by \<open>eq_woken\<close>.
\<close>

record 'a event_queue =
  eq_blocking :: bool
  eq_queue :: "'a list"
  eq_waiting :: nat
  eq_woken :: nat

definition event_queue_new :: "bool \<Rightarrow> 'a event_queue" where
  "event_queue_new blocking =
     \<lparr>eq_blocking = blocking, eq_queue = [], eq_waiting = 0, eq_woken = 0\<rparr>"

text \<open>\<open>cv.notify_one()\<close> releases one waiting thread, if there is one.\<close>

definition eq_notify_one :: "'a event_queue \<Rightarrow> 'a event_queue" where
  "eq_notify_one q =
     (if eq_waiting q = 0 then q
      else q\<lparr>eq_waiting := eq_waiting q - 1, eq_woken := eq_woken q + 1\<rparr>)"

definition eq_wake_up :: "'a event_queue \<Rightarrow> 'a event_queue" where
  "eq_wake_up q = (if \<not> eq_blocking q then q else eq_notify_one q)"

definition eq_push :: "'a \<Rightarrow> 'a event_queue \<Rightarrow> size_t \<times> 'a event_queue" where
  "eq_push u q =
     (let q = q\<lparr>eq_queue := eq_queue q @ [u]\<rparr>;
          q = eq_wake_up q
      in (length (eq_queue q), q))"

text \<open>
  \<open>pop\<close> up to its return or to \<open>cv.wait\<close> (\<open>None\<close>: the thread is blocked), and the rest of it when
  the wait returns. The wait has no predicate, so the second part returns what it finds.
\<close>

definition eq_pop :: "'a event_queue \<Rightarrow> 'a list option \<times> 'a event_queue" where
  "eq_pop q =
     (if eq_blocking q \<and> eq_queue q = [] then (None, q\<lparr>eq_waiting := eq_waiting q + 1\<rparr>)
      else (Some (eq_queue q), q\<lparr>eq_queue := []\<rparr>))"

definition eq_pop_resume :: "'a event_queue \<Rightarrow> 'a list \<times> 'a event_queue" where
  "eq_pop_resume q = (eq_queue q, q\<lparr>eq_queue := [], eq_woken := eq_woken q - 1\<rparr>)"

definition eq_size :: "'a event_queue \<Rightarrow> size_t" where
  "eq_size q = length (eq_queue q)"

inductive eq_step :: "'a event_queue \<Rightarrow> 'a event_queue \<Rightarrow> bool" where
  eq_step_push: "eq_step q (snd (eq_push u q))"
| eq_step_pop: "eq_step q (snd (eq_pop q))"
| eq_step_resume: "0 < eq_woken q \<Longrightarrow> eq_step q (snd (eq_pop_resume q))"
| eq_step_wake: "eq_step q (eq_wake_up q)"
| eq_step_spurious: "0 < eq_waiting q \<Longrightarrow> eq_step q (eq_notify_one q)"

section \<open>The ring implements a bounded list\<close>

definition ring_slot :: "'a circular_queue \<Rightarrow> nat \<Rightarrow> 'a option" where
  "ring_slot q i = m_slots q ! ((m_head q + i) mod m_capacity q)"

definition contents :: "'a circular_queue \<Rightarrow> 'a list" where
  "contents q = map (\<lambda>i. the (ring_slot q i)) [0..<m_count q]"

text \<open>
  Well-formed rings: the vector has the recorded capacity, the head is an index, and exactly the
  \<open>m_count\<close> slots from the head on hold an element.
\<close>

definition circular_wf :: "'a circular_queue \<Rightarrow> bool" where
  "circular_wf q \<longleftrightarrow>
     m_capacity q \<le> vector_max_size \<and> length (m_slots q) = m_capacity q \<and>
     m_count q \<le> m_capacity q \<and> (if m_capacity q = 0 then m_head q = 0 else m_head q < m_capacity q) \<and>
     (\<forall>i < m_capacity q. ring_slot q i \<noteq> None \<longleftrightarrow> i < m_count q)"

text \<open>The bounded list: a push keeps the newest \<open>capacity\<close> elements.\<close>

definition keep_newest :: "nat \<Rightarrow> 'a list \<Rightarrow> 'a list" where
  "keep_newest capacity xs = drop (length xs - capacity) xs"

lemma length_contents [simp]: "length (contents q) = m_count q"
  by (simp add: contents_def)

lemma nth_contents: "i < m_count q \<Longrightarrow> contents q ! i = the (ring_slot q i)"
  by (simp add: contents_def)

lemma contents_eq_Nil: "contents q = [] \<longleftrightarrow> m_count q = 0"
  by (simp add: contents_def)

lemma hd_contents: "0 < m_count q \<Longrightarrow> hd (contents q) = the (ring_slot q 0)"
  by (subst hd_conv_nth) (auto simp: contents_eq_Nil nth_contents)

lemma contents_eqI:
  "m_count q = length xs \<Longrightarrow> (\<And>i. i < length xs \<Longrightarrow> ring_slot q i = Some (xs ! i)) \<Longrightarrow> contents q = xs"
  by (rule nth_equalityI) (auto simp: nth_contents)

lemma circular_wf_slot:
  "circular_wf q \<Longrightarrow> i < m_count q \<Longrightarrow> ring_slot q i = Some (contents q ! i)"
  by (auto simp: circular_wf_def nth_contents)

lemma circular_wf_head: "circular_wf q \<Longrightarrow> m_capacity q \<noteq> 0 \<Longrightarrow> m_head q < m_capacity q"
  by (auto simp: circular_wf_def)

lemma circular_wf_slot_0:
  "circular_wf q \<Longrightarrow> m_capacity q \<noteq> 0 \<Longrightarrow> ring_slot q 0 = m_slots q ! m_head q"
  by (auto simp: circular_wf_def ring_slot_def)

lemma circular_wf_no_overflow:
  "circular_wf q \<Longrightarrow> n \<le> m_capacity q \<Longrightarrow> size_add (m_head q) n = m_head q + n"
  by (rule vector_max_size_add) (auto simp: circular_wf_def split: if_splits)

lemma circular_wf_no_overflow_1:
  "circular_wf q \<Longrightarrow> m_capacity q \<noteq> 0 \<Longrightarrow> size_add (m_head q) 1 = m_head q + 1"
  by (rule circular_wf_no_overflow) auto

text \<open>
  How a slot of the ring changes when one slot of the vector is written and when the head moves on.
\<close>

lemma ring_slot_write:
  assumes "circular_wf q" "i < m_capacity q" "j < m_capacity q"
    and "m_slots p = (m_slots q)[(m_head q + j) mod m_capacity q := v]"
    and "m_head p = m_head q" "m_capacity p = m_capacity q"
  shows "ring_slot p i = (if i = j then v else ring_slot q i)"
  using assms by (auto simp: ring_slot_def circular_wf_def nth_list_update ring_index_eq_iff)

lemma ring_slot_advance:
  assumes wf: "circular_wf q" and i: "i < m_capacity q"
    and slots: "m_slots p = (m_slots q)[m_head q := v]"
    and head: "m_head p = Suc (m_head q) mod m_capacity q"
    and capacity: "m_capacity p = m_capacity q"
  shows "ring_slot p i = (if Suc i = m_capacity q then v else ring_slot q (Suc i))"
proof -
  have idx: "(m_head p + i) mod m_capacity q = (m_head q + Suc i) mod m_capacity q"
    using ring_index_step [of "m_head q"] by (simp add: head)
  have h: "m_head q < m_capacity q" and len: "length (m_slots q) = m_capacity q"
    using wf i by (auto simp: circular_wf_def split: if_splits)
  show ?thesis
  proof (cases "Suc i = m_capacity q")
    case True
    with h len show ?thesis unfolding ring_slot_def capacity idx by (simp add: slots)
  next
    case False
    with i have "Suc i < m_capacity q" by simp
    then have "(m_head q + Suc i) mod m_capacity q \<noteq> m_head q"
      using ring_index_eq_head [of "Suc i" "m_capacity q" "m_head q"] h by simp
    with False show ?thesis unfolding ring_slot_def capacity idx by (simp add: slots)
  qed
qed

section \<open>Push\<close>

lemma circular_push_cases [consumes 1, case_names unbuffered append overwrite]:
  assumes "circular_wf q"
  obtains (unbuffered) "m_capacity q = 0"
      "circular_push u q = Ok \<lparr>size_before = 0, dropped = Some u, woken = None\<rparr> q"
    | (append) "m_count q < m_capacity q"
      "circular_push u q =
         Ok \<lparr>size_before = m_count q, dropped = None, woken = m_wake_callback q\<rparr>
           (q\<lparr>m_slots := (m_slots q)[(m_head q + m_count q) mod m_capacity q := Some u],
              m_count := m_count q + 1\<rparr>)"
    | (overwrite) "m_capacity q \<noteq> 0" "m_count q = m_capacity q"
      "circular_push u q =
         Ok \<lparr>size_before = m_count q, dropped = Some (hd (contents q)), woken = m_wake_callback q\<rparr>
           (q\<lparr>m_slots := (m_slots q)[m_head q := Some u],
              m_head := (m_head q + 1) mod m_capacity q\<rparr>)"
proof -
  have wake: "notify_push (p :: 'a circular_queue) = m_wake_callback p" for p
    by (simp add: notify_push_def split: option.splits)
  consider "m_capacity q = 0" | "m_count q < m_capacity q"
    | "m_capacity q \<noteq> 0" "m_count q = m_capacity q"
    using assms by (fastforce simp: circular_wf_def)
  then show thesis
  proof cases
    case 1
    with assms have "m_count q = 0" by (simp add: circular_wf_def)
    with 1 show ?thesis by (intro unbuffered) (simp_all add: circular_push_def)
  next
    case 2
    with assms show ?thesis
      by (intro append) (simp_all add: circular_push_def Let_def wake circular_wf_no_overflow)
  next
    case 3
    then have "m_slots q ! m_head q = Some (hd (contents q))"
      using circular_wf_slot [OF assms, of 0] circular_wf_slot_0 [OF assms] hd_contents [of q] by simp
    with 3 assms show ?thesis
      by (intro overwrite)
        (simp_all add: circular_push_def Let_def wake circular_wf_no_overflow_1 [simplified])
  qed
qed

lemma circular_push_wf [wf_intros]:
  assumes "circular_wf q"
  shows "circular_wf (the_state (circular_push u q))"
  using assms
proof (cases rule: circular_push_cases [where u = u])
  case unbuffered
  with assms show ?thesis by simp
next
  case append
  let ?p = "the_state (circular_push u q)"
  have "ring_slot ?p i = (if i = m_count q then Some u else ring_slot q i)" if "i < m_capacity q" for i
    by (rule ring_slot_write [OF assms that append(1)]) (simp_all add: append)
  then have "\<forall>i < m_capacity q. ring_slot ?p i \<noteq> None \<longleftrightarrow> i < Suc (m_count q)"
    using assms by (auto simp: circular_wf_def)
  with append assms show ?thesis by (auto simp: circular_wf_def)
next
  case overwrite
  let ?p = "the_state (circular_push u q)"
  have "ring_slot ?p i = (if Suc i = m_capacity q then Some u else ring_slot q (Suc i))"
    if "i < m_capacity q" for i
    by (rule ring_slot_advance [OF assms that]) (simp_all add: overwrite)
  then have "\<forall>i < m_capacity q. ring_slot ?p i \<noteq> None"
    using assms overwrite(2) by (auto simp: circular_wf_def)
  with overwrite assms show ?thesis by (auto simp: circular_wf_def)
qed

lemma circular_push_contents:
  assumes "circular_wf q"
  shows "contents (the_state (circular_push u q)) = keep_newest (m_capacity q) (contents q @ [u])"
  using assms
proof (cases rule: circular_push_cases [where u = u])
  case unbuffered
  then have "m_count q = 0" using assms by (simp add: circular_wf_def)
  with unbuffered show ?thesis by (simp add: keep_newest_def contents_eq_Nil)
next
  case append
  let ?p = "the_state (circular_push u q)"
  have "ring_slot ?p i = (if i = m_count q then Some u else ring_slot q i)" if "i \<le> m_count q" for i
    by (rule ring_slot_write [OF assms le_less_trans [OF that append(1)] append(1)])
      (simp_all add: append(2))
  note slots = this
  have "contents ?p = contents q @ [u]"
  proof (rule contents_eqI)
    fix i assume "i < length (contents q @ [u])"
    then have "i \<le> m_count q" by simp
    then show "ring_slot ?p i = Some ((contents q @ [u]) ! i)"
      by (simp only: slots) (auto simp: nth_append circular_wf_slot [OF assms])
  qed (simp add: append(2))
  with append(1) show ?thesis by (simp add: keep_newest_def)
next
  case overwrite
  let ?p = "the_state (circular_push u q)"
  have "ring_slot ?p i = (if Suc i = m_capacity q then Some u else ring_slot q (Suc i))"
    if "i < m_capacity q" for i
    by (rule ring_slot_advance [OF assms that]) (simp_all add: overwrite)
  note slots = this
  have "contents ?p = tl (contents q) @ [u]"
  proof (rule contents_eqI)
    fix i assume "i < length (tl (contents q) @ [u])"
    then have "i < m_capacity q" using overwrite(1,2) by simp
    then show "ring_slot ?p i = Some ((tl (contents q) @ [u]) ! i)"
      using overwrite(2) by (simp only: slots) (auto simp: nth_append nth_tl circular_wf_slot [OF assms])
  qed (use overwrite(1,2) in \<open>simp add: overwrite(3)\<close>)
  with overwrite(1,2) show ?thesis by (simp add: keep_newest_def drop_Suc)
qed

section \<open>Pop\<close>

lemma circular_pop_cases [consumes 1, case_names empty pop]:
  assumes "circular_wf q"
  obtains (empty) "m_count q = 0" "circular_pop q = Ok None q"
    | (pop) "0 < m_count q" "0 < m_capacity q"
      "circular_pop q =
         Ok (Some (hd (contents q)))
           (q\<lparr>m_slots := (m_slots q)[m_head q := None],
              m_head := Suc (m_head q) mod m_capacity q, m_count := m_count q - 1\<rparr>)"
proof (cases "m_count q = 0")
  case True
  then show thesis by (intro empty) (simp_all add: circular_pop_def)
next
  case False
  with assms have "m_capacity q \<noteq> 0" by (auto simp: circular_wf_def)
  moreover have "m_slots q ! m_head q = Some (hd (contents q))"
    using False circular_wf_slot [OF assms, of 0] circular_wf_slot_0 [OF assms] hd_contents [of q]
      \<open>m_capacity q \<noteq> 0\<close> by simp
  ultimately show thesis using False assms
    by (intro pop) (simp_all add: circular_pop_def circular_wf_no_overflow_1 [simplified])
qed

lemma ring_slot_pop:
  assumes "circular_wf q" "0 < m_count q" "i < m_capacity q"
  shows "ring_slot (the_state (circular_pop q)) i =
    (if Suc i = m_capacity q then None else ring_slot q (Suc i))"
  using assms(1)
proof (cases rule: circular_pop_cases)
  case pop
  show ?thesis by (rule ring_slot_advance [OF assms(1,3)]) (simp_all add: pop)
qed (use assms(2) in simp)

lemma circular_pop_fields:
  assumes "circular_wf q" "0 < m_count q"
  shows "m_count (the_state (circular_pop q)) = m_count q - 1"
    and "m_capacity (the_state (circular_pop q)) = m_capacity q"
    and "m_head (the_state (circular_pop q)) < m_capacity q"
    and "length (m_slots (the_state (circular_pop q))) = length (m_slots q)"
  using assms by (cases rule: circular_pop_cases; simp)+

lemma circular_pop_wf [wf_intros]:
  assumes "circular_wf q"
  shows "circular_wf (the_state (circular_pop q))"
proof (cases "m_count q = 0")
  case True
  with assms show ?thesis by (simp add: circular_pop_def)
next
  case False
  then have "0 < m_count q" by simp
  note fields = circular_pop_fields [OF assms this] and slots = ring_slot_pop [OF assms this]
  have "m_capacity q \<noteq> 0" using fields(3) by linarith
  with assms show ?thesis unfolding circular_wf_def fields by (auto simp: slots fields(3))
qed

lemma circular_pop_contents:
  assumes "circular_wf q"
  shows "contents (the_state (circular_pop q)) = tl (contents q)"
proof (cases "m_count q = 0")
  case True
  then have "contents q = []" by (simp add: contents_eq_Nil)
  with True show ?thesis by (simp add: circular_pop_def)
next
  case False
  then have "0 < m_count q" by simp
  note fields = circular_pop_fields [OF assms this] and slots = ring_slot_pop [OF assms this]
  have "m_count q \<le> m_capacity q" using assms by (simp add: circular_wf_def)
  show ?thesis
  proof (rule contents_eqI)
    fix i assume "i < length (tl (contents q))"
    then have "Suc i < m_count q" by simp
    with \<open>m_count q \<le> m_capacity q\<close> show "ring_slot (the_state (circular_pop q)) i = Some (tl (contents q) ! i)"
      by (simp add: slots nth_tl circular_wf_slot [OF assms])
  qed (simp add: fields)
qed

lemma circular_pop_value:
  assumes "circular_wf q"
  shows "circular_pop q =
    Ok (if contents q = [] then None else Some (hd (contents q))) (the_state (circular_pop q))"
  using assms
proof (cases rule: circular_pop_cases)
  case empty
  then show ?thesis by (simp add: contents_eq_Nil)
next
  case pop
  then have "contents q \<noteq> []" by (simp add: contents_eq_Nil)
  then show ?thesis by (simp only: pop(3) if_False result.sel)
qed

section \<open>Changing the capacity\<close>

lemma move_slots_spec:
  assumes "capacity \<le> vector_max_size" "keep \<le> length new_slots" "idx < capacity"
    and "\<And>j. i \<le> j \<Longrightarrow> j < keep \<Longrightarrow> slots ! ((idx + (j - i)) mod capacity) = Some (f j)"
  shows "\<exists>r. move_slots capacity slots i keep idx new_slots = Some r \<and> length r = length new_slots \<and>
    (\<forall>j < length new_slots. r ! j = (if i \<le> j \<and> j < keep then Some (f j) else new_slots ! j))"
  using assms
proof (induction capacity slots i keep idx new_slots rule: move_slots.induct)
  case (1 capacity slots i keep idx new_slots)
  show ?case
  proof (cases "i < keep")
    case False
    then show ?thesis by (subst move_slots.simps) auto
  next
    case True
    then have slot: "slots ! idx = Some (f i)" using "1.prems"(3) "1.prems"(4) [of i] by simp
    have idx: "size_add idx 1 = idx + 1"
      using "1.prems"(1,3) by (simp add: size_add_def vector_max_size_def)
    have rest: "slots ! ((size_add idx 1 mod capacity + (j - (i + 1))) mod capacity) = Some (f j)"
      if "i + 1 \<le> j" "j < keep" for j
    proof -
      have "j - i = Suc (j - (i + 1))" using that(1) by simp
      with "1.prems"(4) [of j] that have "slots ! ((idx + Suc (j - (i + 1))) mod capacity) = Some (f j)"
        by simp
      then show ?thesis by (simp only: idx ring_index_step)
    qed
    have "\<exists>r. move_slots capacity slots (i + 1) keep (size_add idx 1 mod capacity) (new_slots[i := Some (f i)])
          = Some r \<and> length r = length (new_slots[i := Some (f i)]) \<and>
        (\<forall>j < length (new_slots[i := Some (f i)]).
          r ! j = (if i + 1 \<le> j \<and> j < keep then Some (f j) else new_slots[i := Some (f i)] ! j))"
      by (rule "1.IH" [OF True slot]) (use "1.prems" rest in auto)
    then obtain r where
      "move_slots capacity slots (i + 1) keep (size_add idx 1 mod capacity) (new_slots[i := Some (f i)]) = Some r"
      "length r = length new_slots"
      "\<forall>j < length new_slots.
         r ! j = (if i + 1 \<le> j \<and> j < keep then Some (f j) else new_slots[i := Some (f i)] ! j)"
      by auto
    with True slot show ?thesis
      by (subst move_slots.simps) (auto simp: nth_list_update not_less_eq_eq le_antisym)
  qed
qed

text \<open>
  A successful \<open>set_capacity\<close> that changes the capacity installs a vector with the newest elements
  at its front.
\<close>

lemma set_capacity_Ok:
  assumes wf: "circular_wf q" and new: "capacity \<noteq> m_capacity q"
    and max: "capacity \<le> slots_max sz" and alloc: "alloc_ok capacity"
  defines "keep \<equiv> min (m_count q) capacity"
  shows "\<exists>slots. set_capacity sz alloc_ok capacity q =
      Ok (m_slots q) (q\<lparr>m_slots := slots, m_capacity := capacity, m_head := 0, m_count := keep\<rparr>) \<and>
    length slots = capacity \<and>
    (\<forall>i < capacity. slots ! i =
      (if i < keep then Some (contents q ! (m_count q - keep + i)) else None))"
proof (cases "m_capacity q = 0 \<or> keep = 0")
  case True
  then have "keep = 0" using wf by (auto simp: keep_def circular_wf_def)
  with True assms show ?thesis
    by (intro exI [of _ "replicate capacity None"]) (auto simp: set_capacity_def Let_def)
next
  case False
  let ?drop = "m_count q - keep" and ?new = "replicate capacity (None :: 'a option)"
  let ?idx = "size_add (m_head q) ?drop mod m_capacity q"
  have count: "m_count q \<le> m_capacity q" using wf by (simp add: circular_wf_def)
  have idx: "?idx = (m_head q + ?drop) mod m_capacity q"
    using count by (subst circular_wf_no_overflow [OF wf]) auto
  have slot: "m_slots q ! ((?idx + (j - 0)) mod m_capacity q) = Some (contents q ! (?drop + j))"
    if "j < keep" for j
  proof -
    have "?drop + j < m_count q" using that by (auto simp: keep_def)
    from circular_wf_slot [OF wf this] show ?thesis
      by (simp add: idx ring_slot_def mod_add_left_eq add.assoc)
  qed
  have "\<exists>r. move_slots (m_capacity q) (m_slots q) 0 keep ?idx ?new = Some r \<and> length r = length ?new \<and>
    (\<forall>j < length ?new. r ! j =
      (if 0 \<le> j \<and> j < keep then Some (contents q ! (?drop + j)) else ?new ! j))"
    using False wf slot
    by (intro move_slots_spec) (auto simp: circular_wf_def keep_def)
  then obtain r where r: "move_slots (m_capacity q) (m_slots q) 0 keep ?idx ?new = Some r"
    "length r = capacity"
    "\<forall>j < capacity. r ! j = (if j < keep then Some (contents q ! (?drop + j)) else None)"
    by auto
  moreover have "set_capacity sz alloc_ok capacity q =
      Ok (m_slots q) (q\<lparr>m_slots := r, m_capacity := capacity, m_head := 0, m_count := keep\<rparr>)"
    using False assms r(1) by (simp add: set_capacity_def Let_def)
  ultimately show ?thesis by blast
qed

lemma set_capacity_contents:
  assumes "circular_wf q" "capacity \<noteq> m_capacity q" "capacity \<le> slots_max sz" "alloc_ok capacity"
  obtains p where "set_capacity sz alloc_ok capacity q = Ok (m_slots q) p" "circular_wf p"
    "m_capacity p = capacity" "contents p = keep_newest capacity (contents q)"
    "m_wake_callback p = m_wake_callback q"
proof -
  let ?keep = "min (m_count q) capacity"
  obtain slots where s: "set_capacity sz alloc_ok capacity q =
      Ok (m_slots q) (q\<lparr>m_slots := slots, m_capacity := capacity, m_head := 0, m_count := ?keep\<rparr>)"
    "length slots = capacity"
    "\<forall>i < capacity. slots ! i =
      (if i < ?keep then Some (contents q ! (m_count q - ?keep + i)) else None)"
    using set_capacity_Ok [where alloc_ok = alloc_ok, OF assms] by blast
  define p where "p = q\<lparr>m_slots := slots, m_capacity := capacity, m_head := 0, m_count := ?keep\<rparr>"
  have fields: "m_capacity p = capacity" "m_head p = 0" "m_count p = ?keep" "m_slots p = slots"
    "m_wake_callback p = m_wake_callback q"
    by (simp_all add: p_def)
  have slot: "ring_slot p i = slots ! i" if "i < capacity" for i
    using that by (simp add: ring_slot_def fields)
  have "circular_wf p"
    unfolding circular_wf_def fields using slots_max_le [OF assms(3)] s(2,3) by (auto simp: slot)
  moreover have "contents p = keep_newest capacity (contents q)"
  proof (rule contents_eqI)
    fix i assume "i < length (keep_newest capacity (contents q))"
    then have "i < ?keep" by (auto simp: keep_newest_def)
    with s(3) show "ring_slot p i = Some (keep_newest capacity (contents q) ! i)"
      by (simp add: slot keep_newest_def min_def split: if_splits)
  qed (simp add: fields keep_newest_def)
  ultimately show thesis using that [of p] s(1) fields(1,5) by (simp add: p_def)
qed

lemma set_capacity_throws:
  assumes "set_capacity sz alloc_ok capacity q = Throw e p" "circular_wf q"
  shows "p = q" "e = (if capacity > slots_max sz then Length_error else Bad_alloc)"
proof -
  have new: "capacity \<noteq> m_capacity q" using assms(1) by (auto simp: set_capacity_def)
  have "capacity > slots_max sz \<or> \<not> alloc_ok capacity"
    using set_capacity_contents [OF assms(2) new, of sz alloc_ok] assms(1) by fastforce
  with assms(1) new show "p = q" "e = (if capacity > slots_max sz then Length_error else Bad_alloc)"
    by (auto simp: set_capacity_def split: if_splits)
qed
section \<open>Sequences of operations\<close>

text \<open>
  An operation on a queue and what its caller observes of it. \<open>ring_step\<close> runs an operation on the
  ring, \<open>spec_step\<close> on the bounded list that specifies it.
\<close>

datatype 'a queue_op = Push 'a | Pop | Set_capacity nat

datatype 'a queue_obs =
    Pushed size_t "'a option" "reactor_id option"
  | Popped "'a option"
  | Resized
  | Failed fault

definition ring_step ::
    "nat \<Rightarrow> (size_t \<Rightarrow> bool) \<Rightarrow> 'a queue_op \<Rightarrow> 'a circular_queue \<Rightarrow> 'a queue_obs \<times> 'a circular_queue" where
  "ring_step sz alloc_ok op q =
     (case op of
        Push u \<Rightarrow> (case circular_push u q of
            Ok r p \<Rightarrow> (Pushed (size_before r) (dropped r) (woken r), p) | Throw e p \<Rightarrow> (Failed e, p))
      | Pop \<Rightarrow> (case circular_pop q of Ok r p \<Rightarrow> (Popped r, p) | Throw e p \<Rightarrow> (Failed e, p))
      | Set_capacity n \<Rightarrow> (case set_capacity sz alloc_ok n q of
            Ok _ p \<Rightarrow> (Resized, p) | Throw e p \<Rightarrow> (Failed e, p)))"

primrec ring_run ::
    "nat \<Rightarrow> (size_t \<Rightarrow> bool) \<Rightarrow> 'a queue_op list \<Rightarrow> 'a circular_queue \<Rightarrow> 'a queue_obs list \<times> 'a circular_queue" where
  "ring_run sz alloc_ok [] q = ([], q)"
| "ring_run sz alloc_ok (op # ops) q =
     (let (ob, q) = ring_step sz alloc_ok op q; (obs, q) = ring_run sz alloc_ok ops q in (ob # obs, q))"

definition spec_step ::
    "nat \<Rightarrow> (size_t \<Rightarrow> bool) \<Rightarrow> reactor_id option \<Rightarrow> 'a queue_op \<Rightarrow> nat \<times> 'a list \<Rightarrow>
      'a queue_obs \<times> nat \<times> 'a list" where
  "spec_step sz alloc_ok bound op = (\<lambda>(capacity, xs).
     (case op of
        Push u \<Rightarrow>
          (let kept = keep_newest capacity (xs @ [u]) in
           (Pushed (length xs) (if length kept = length (xs @ [u]) then None else Some (hd (xs @ [u])))
              (if capacity = 0 then None else bound), capacity, kept))
      | Pop \<Rightarrow> (Popped (if xs = [] then None else Some (hd xs)), capacity, tl xs)
      | Set_capacity n \<Rightarrow>
          (if n = capacity then (Resized, capacity, xs)
           else if n > slots_max sz then (Failed Length_error, capacity, xs)
           else if \<not> alloc_ok n then (Failed Bad_alloc, capacity, xs)
           else (Resized, n, keep_newest n xs))))"

primrec spec_run ::
    "nat \<Rightarrow> (size_t \<Rightarrow> bool) \<Rightarrow> reactor_id option \<Rightarrow> 'a queue_op list \<Rightarrow> nat \<times> 'a list \<Rightarrow>
      'a queue_obs list \<times> nat \<times> 'a list" where
  "spec_run sz alloc_ok bound [] s = ([], s)"
| "spec_run sz alloc_ok bound (op # ops) s =
     (let (ob, s) = spec_step sz alloc_ok bound op s; (obs, s) = spec_run sz alloc_ok bound ops s
      in (ob # obs, s))"

abbreviation ring_abs :: "'a circular_queue \<Rightarrow> nat \<times> 'a list" where
  "ring_abs q \<equiv> (m_capacity q, contents q)"

lemma circular_push_frame:
  assumes "circular_wf q"
  shows "m_capacity (the_state (circular_push u q)) = m_capacity q"
    and "m_wake_callback (the_state (circular_push u q)) = m_wake_callback q"
  using assms by (cases rule: circular_push_cases [where u = u]; simp)+

lemma circular_pop_frame:
  "m_capacity (the_state (circular_pop q)) = m_capacity q"
  "m_wake_callback (the_state (circular_pop q)) = m_wake_callback q"
  by (simp_all add: circular_pop_def split: option.splits)

lemma ring_step_push:
  assumes "circular_wf q"
  shows "(let (ob, p) = ring_step sz alloc_ok (Push u) q in (ob, ring_abs p)) =
    spec_step sz alloc_ok (m_wake_callback q) (Push u) (ring_abs q)"
  using assms
proof (cases rule: circular_push_cases [where u = u])
  case unbuffered
  have "contents q = []" using assms unbuffered(1) by (simp add: contents_eq_Nil circular_wf_def)
  with unbuffered show ?thesis by (simp add: ring_step_def spec_step_def keep_newest_def Let_def)
next
  case append
  have kept: "keep_newest (m_capacity q) (contents q @ [u]) = contents q @ [u]"
    using append(1) by (simp add: keep_newest_def)
  from circular_push_contents [OF assms, of u] append show ?thesis
    by (simp add: ring_step_def spec_step_def kept)
next
  case overwrite
  have kept: "keep_newest (m_capacity q) (contents q @ [u]) = tl (contents q) @ [u]"
    using overwrite(1,2) by (simp add: keep_newest_def drop_Suc)
  have "contents q \<noteq> []" using overwrite(1,2) by (simp add: contents_eq_Nil)
  with circular_push_contents [OF assms, of u] overwrite show ?thesis
    by (simp add: ring_step_def spec_step_def kept)
qed

lemma ring_step_pop:
  assumes "circular_wf q"
  shows "(let (ob, p) = ring_step sz alloc_ok Pop q in (ob, ring_abs p)) =
    spec_step sz alloc_ok (m_wake_callback q) Pop (ring_abs q)"
proof -
  let ?p = "the_state (circular_pop q)"
  have "ring_step sz alloc_ok Pop q =
      (Popped (if contents q = [] then None else Some (hd (contents q))), ?p)"
    unfolding ring_step_def by (subst circular_pop_value [OF assms]) simp
  then show ?thesis
    by (simp only: Let_def split circular_pop_frame circular_pop_contents [OF assms]) (simp add: spec_step_def)
qed

lemma ring_step_set_capacity:
  assumes "circular_wf q"
  shows "(let (ob, p) = ring_step sz alloc_ok (Set_capacity n) q in (ob, ring_abs p)) =
    spec_step sz alloc_ok (m_wake_callback q) (Set_capacity n) (ring_abs q)"
proof (cases "n \<noteq> m_capacity q \<and> n \<le> slots_max sz \<and> alloc_ok n")
  case True
  then obtain p where "set_capacity sz alloc_ok n q = Ok (m_slots q) p" "m_capacity p = n"
    "contents p = keep_newest n (contents q)"
    using set_capacity_contents [OF assms, of n sz alloc_ok] by blast
  with True show ?thesis by (simp add: ring_step_def spec_step_def)
next
  case False
  then show ?thesis by (auto simp: ring_step_def spec_step_def set_capacity_def)
qed

lemma ring_step_refines:
  assumes "circular_wf q"
  shows "(let (ob, p) = ring_step sz alloc_ok op q in (ob, ring_abs p)) =
    spec_step sz alloc_ok (m_wake_callback q) op (ring_abs q)"
  using ring_step_push [OF assms] ring_step_pop [OF assms] ring_step_set_capacity [OF assms]
  by (cases op) blast+

lemma ring_step_wf [wf_intros]:
  assumes "circular_wf q"
  shows "circular_wf (snd (ring_step sz alloc_ok op q))"
    and "m_wake_callback (snd (ring_step sz alloc_ok op q)) = m_wake_callback q"
proof -
  have "circular_wf (snd (ring_step sz alloc_ok op q)) \<and>
    m_wake_callback (snd (ring_step sz alloc_ok op q)) = m_wake_callback q"
  proof (cases op)
    case (Push u)
    with circular_push_wf [OF assms, of u] circular_push_frame [OF assms, of u] show ?thesis
      by (cases "circular_push u q") (simp_all add: ring_step_def)
  next
    case Pop
    with circular_pop_wf [OF assms] circular_pop_frame [of q] show ?thesis
      by (cases "circular_pop q") (simp_all add: ring_step_def)
  next
    case (Set_capacity n)
    show ?thesis
    proof (cases "n \<noteq> m_capacity q \<and> n \<le> slots_max sz \<and> alloc_ok n")
      case True
      then obtain p where "set_capacity sz alloc_ok n q = Ok (m_slots q) p" "circular_wf p"
        "m_wake_callback p = m_wake_callback q"
        using set_capacity_contents [OF assms, of n sz alloc_ok] by blast
      with Set_capacity show ?thesis by (simp add: ring_step_def)
    next
      case False
      with assms Set_capacity show ?thesis by (auto simp: ring_step_def set_capacity_def)
    qed
  qed
  then show "circular_wf (snd (ring_step sz alloc_ok op q))"
    and "m_wake_callback (snd (ring_step sz alloc_ok op q)) = m_wake_callback q" by blast+
qed

lemma ring_run_refines:
  assumes "circular_wf q"
  shows "(let (obs, p) = ring_run sz alloc_ok ops q in (obs, ring_abs p)) =
      spec_run sz alloc_ok (m_wake_callback q) ops (ring_abs q)
    \<and> circular_wf (snd (ring_run sz alloc_ok ops q))"
  using assms
proof (induction ops arbitrary: q)
  case (Cons op ops)
  obtain ob p where p: "ring_step sz alloc_ok op q = (ob, p)" by fastforce
  have "circular_wf p" "m_wake_callback p = m_wake_callback q"
    using ring_step_wf [OF Cons.prems, of sz alloc_ok op] by (simp_all add: p)
  then show ?case
    using Cons.IH [of p] ring_step_refines [OF Cons.prems, of sz alloc_ok op]
    by (auto simp: p Let_def split: prod.splits)
qed simp

lemma circular_queue_new_wf: "circular_wf circular_queue_new"
  by (simp add: circular_wf_def circular_queue_new_def)

lemma spec_run_defined:
  "Failed Undefined_behaviour \<notin> set (fst (spec_run sz alloc_ok bound ops s))"
proof (induction ops arbitrary: s)
  case (Cons op ops)
  have "fst (spec_step sz alloc_ok bound op s) \<noteq> Failed Undefined_behaviour"
    by (cases op; cases s) (auto simp: spec_step_def Let_def)
  then show ?case
    using Cons.IH [of "snd (spec_step sz alloc_ok bound op s)"]
    by (simp add: Let_def case_prod_beta)
qed simp

text \<open>Where the elements of a run come from and where they go.\<close>

definition pushed_of :: "'a queue_op list \<Rightarrow> 'a list" where
  "pushed_of ops = List.map_filter (\<lambda>op. case op of Push u \<Rightarrow> Some u | _ \<Rightarrow> None) ops"

definition popped_of :: "'a queue_obs list \<Rightarrow> 'a list" where
  "popped_of obs = List.map_filter (\<lambda>ob. case ob of Popped x \<Rightarrow> x | _ \<Rightarrow> None) obs"

definition dropped_of :: "'a queue_obs list \<Rightarrow> 'a list" where
  "dropped_of obs = List.map_filter (\<lambda>ob. case ob of Pushed _ d _ \<Rightarrow> d | _ \<Rightarrow> None) obs"

lemmas flow_simps = pushed_of_def popped_of_def dropped_of_def List.map_filter_simps

lemma flow_Cons:
  "pushed_of (op # ops) = pushed_of [op] @ pushed_of ops"
  "popped_of (ob # obs) = popped_of [ob] @ popped_of obs"
  "dropped_of (ob # obs) = dropped_of [ob] @ dropped_of obs"
  by (simp_all add: flow_simps split: option.splits)

lemma spec_step_conserves:
  assumes "length xs \<le> capacity" "spec_step sz alloc_ok bound op (capacity, xs) = (ob, capacity', ys)"
    and "\<forall>n. op \<noteq> Set_capacity n"
  shows "mset (pushed_of [op]) + mset xs = mset (popped_of [ob]) + mset (dropped_of [ob]) + mset ys"
    and "capacity' = capacity" "length ys \<le> capacity"
proof -
  show "mset (pushed_of [op]) + mset xs = mset (popped_of [ob]) + mset (dropped_of [ob]) + mset ys"
  proof (cases op)
    case (Push u)
    show ?thesis
    proof (cases "length xs < capacity")
      case True
      with assms(2) Push show ?thesis by (auto simp: spec_step_def keep_newest_def flow_simps)
    next
      case False
      with assms(1) have len: "length xs = capacity" by simp
      with assms(2) Push show ?thesis
        by (cases xs) (auto simp: spec_step_def keep_newest_def flow_simps Suc_diff_le)
    qed
  next
    case Pop
    with assms(2) show ?thesis by (cases xs) (auto simp: spec_step_def flow_simps)
  qed (use assms(3) in blast)
  show "capacity' = capacity" "length ys \<le> capacity"
    using assms by (cases op; auto simp: spec_step_def keep_newest_def Let_def)+
qed

lemma spec_run_conserves:
  assumes "length xs \<le> capacity" "\<forall>n. Set_capacity n \<notin> set ops"
    and "spec_run sz alloc_ok bound ops (capacity, xs) = (obs, capacity', ys)"
  shows "mset (pushed_of ops) + mset xs = mset (popped_of obs) + mset (dropped_of obs) + mset ys"
  using assms
proof (induction ops arbitrary: xs obs)
  case Nil
  then show ?case by (simp add: flow_simps)
next
  case (Cons op ops)
  obtain ob c zs where step: "spec_step sz alloc_ok bound op (capacity, xs) = (ob, c, zs)" by (metis surj_pair)
  have op: "\<forall>n. op \<noteq> Set_capacity n" using Cons.prems(2) by auto
  note s = spec_step_conserves [OF Cons.prems(1) step op]
  obtain obs' where run: "spec_run sz alloc_ok bound ops (capacity, zs) = (obs', capacity', ys)" "obs = ob # obs'"
    using Cons.prems(3) step s(2) by (auto simp: Let_def split: prod.splits)
  have "mset (pushed_of ops) + mset zs = mset (popped_of obs') + mset (dropped_of obs') + mset ys"
    using Cons.IH [OF s(3) _ run(1)] Cons.prems(2) by simp
  with s(1) have "mset (pushed_of [op]) + mset xs + (mset (pushed_of ops) + mset zs) =
      mset (popped_of [ob]) + mset (dropped_of [ob]) + mset zs
      + (mset (popped_of obs') + mset (dropped_of obs') + mset ys)"
    by simp
  then show ?case unfolding run(2) flow_Cons(1) [of op ops] flow_Cons(2,3) [of ob obs'] mset_append
    by (simp add: ac_simps)
qed

section \<open>The interface a reactor relies on\<close>

text \<open>
  A reactor learns of data through \<open>has_data\<close> and is woken by \<open>push\<close>. The laws: \<open>has_data\<close> tells
  whether there are items, and a push that leaves items wakes the bound reactor.
\<close>

locale reactive_queue =
  fixes items :: "'q \<Rightarrow> 'a list"
    and has_data :: "'q \<Rightarrow> bool"
    and push :: "'a \<Rightarrow> 'q \<Rightarrow> reactor_id option \<times> 'q"
    and bound :: "'q \<Rightarrow> reactor_id option"
    and invar :: "'q \<Rightarrow> bool"
  assumes has_data_iff: "invar q \<Longrightarrow> has_data q \<longleftrightarrow> items q \<noteq> []"
    and push_invar: "invar q \<Longrightarrow> invar (snd (push u q))"
    and push_bound: "invar q \<Longrightarrow> bound (snd (push u q)) = bound q"
    and push_wakes: "invar q \<Longrightarrow> items (snd (push u q)) \<noteq> [] \<Longrightarrow> fst (push u q) = bound q"
begin

lemma no_silent_data:
  assumes "invar q" "has_data (snd (push u q))" "bound q = Some r"
  shows "fst (push u q) = Some r"
  using assms has_data_iff [OF push_invar [OF assms(1)]] push_wakes [OF assms(1)] by simp

lemma pushes_invar: "invar q \<Longrightarrow> invar (fold (\<lambda>u q. snd (push u q)) us q)"
  by (induction us arbitrary: q) (auto intro: push_invar)

lemma pushes_bound: "invar q \<Longrightarrow> bound (fold (\<lambda>u q. snd (push u q)) us q) = bound q"
  by (induction us arbitrary: q) (auto simp: push_bound push_invar)

end

definition circular_push_wake :: "'a \<Rightarrow> 'a circular_queue \<Rightarrow> reactor_id option \<times> 'a circular_queue" where
  "circular_push_wake u q =
     (case circular_push u q of Ok r p \<Rightarrow> (woken r, p) | Throw e p \<Rightarrow> (None, p))"

definition re_push_wake ::
    "'a \<Rightarrow> 'a reactive_event_queue \<Rightarrow> reactor_id option \<times> 'a reactive_event_queue" where
  "re_push_wake u q = (let ((_, w), p) = re_push u q in (w, p))"

lemma notify_push_eq [simp]: "notify_push q = m_wake_callback q"
  by (simp add: notify_push_def split: option.splits)

lemma circular_push_wake_state:
  "snd (circular_push_wake u q) = the_state (circular_push u q)"
  by (simp add: circular_push_wake_def split: result.split)

interpretation ring: reactive_queue contents circular_has_data circular_push_wake
  m_wake_callback circular_wf
proof
  fix q :: "'a circular_queue" and u
  assume wf: "circular_wf q"
  show "circular_has_data q \<longleftrightarrow> contents q \<noteq> []"
    by (simp add: circular_has_data_def contents_eq_Nil)
  show "circular_wf (snd (circular_push_wake u q))"
    using circular_push_wf [OF wf] by (simp add: circular_push_wake_state)
  show "m_wake_callback (snd (circular_push_wake u q)) = m_wake_callback q"
    using circular_push_frame [OF wf] by (simp add: circular_push_wake_state)
  assume "contents (snd (circular_push_wake u q)) \<noteq> []"
  then have "m_capacity q \<noteq> 0"
    using circular_push_contents [OF wf, of u] by (auto simp: circular_push_wake_state keep_newest_def)
  with wf show "fst (circular_push_wake u q) = m_wake_callback q"
    by (cases rule: circular_push_cases [where u = u]) (simp_all add: circular_push_wake_def)
qed

interpretation unbounded: reactive_queue re_queue re_has_data re_push_wake
  m_wake_callback "\<lambda>_. True"
  by unfold_locales (simp_all add: re_has_data_def re_push_wake_def re_push_def Let_def)

section \<open>The monitor never strands a consumer\<close>

definition eq_inv :: "'a event_queue \<Rightarrow> bool" where
  "eq_inv q \<longleftrightarrow>
     (eq_queue q \<noteq> [] \<and> 0 < eq_waiting q \<longrightarrow> 0 < eq_woken q) \<and>
     (\<not> eq_blocking q \<longrightarrow> eq_waiting q = 0)"

lemma eq_step_inv: "eq_step q p \<Longrightarrow> eq_inv q \<Longrightarrow> eq_inv p"
  by (induction rule: eq_step.induct)
    (auto simp: eq_inv_def eq_push_def eq_pop_def eq_pop_resume_def eq_wake_up_def eq_notify_one_def Let_def)

interpretation eq_monitor: transition_invariant "\<lambda>q. \<exists>b. q = event_queue_new b" eq_step eq_inv
proof
  show "eq_inv q" if "\<exists>b. q = event_queue_new b" for q :: "'a event_queue"
    using that by (auto simp: eq_inv_def event_queue_new_def)
qed (rule eq_step_inv)

lemma keep_newest_append: "keep_newest n (keep_newest n xs @ ys) = keep_newest n (xs @ ys)"
proof (cases "length xs \<le> n")
  case True
  then show ?thesis by (simp add: keep_newest_def)
next
  case False
  then show ?thesis
    by (simp only: keep_newest_def drop_append drop_drop length_append length_drop) (simp add: add.commute)
qed

section \<open>Properties\<close>

text \<open>C5. Every sequence of \<open>push\<close>, \<open>pop\<close> and \<open>set_capacity\<close> calls on a new circular queue bound to
  any reactor is observed exactly as on a bounded list that keeps its newest elements: the returned
  sizes, the dropped and popped elements, the wake-ups and the failures agree, no call runs into
  undefined behaviour, and the ring stays well formed.\<close>

theorem ring_refines_bounded_list:
  "let (obs, p) = ring_run sz alloc_ok ops (snd (set_reactor bound circular_queue_new)) in
     spec_run sz alloc_ok bound ops (0, []) = (obs, m_capacity p, contents p) \<and>
     Failed Undefined_behaviour \<notin> set obs \<and> circular_wf p"
proof -
  let ?q = "snd (set_reactor bound circular_queue_new) :: 'a circular_queue"
  have q: "?q = circular_queue_new\<lparr>m_wake_callback := bound\<rparr>"
    by (cases bound) (simp_all add: set_reactor_def replace_wake_callback_def)
  have "circular_wf ?q" "ring_abs ?q = (0, [])" "m_wake_callback ?q = bound"
    unfolding q by (simp_all add: circular_wf_def circular_queue_new_def contents_def)
  note facts = this
  obtain obs p where run: "ring_run sz alloc_ok ops ?q = (obs, p)" by fastforce
  have "spec_run sz alloc_ok bound ops (0, []) = (obs, ring_abs p) \<and> circular_wf p"
    using ring_run_refines [OF facts(1), of sz alloc_ok ops] unfolding facts(2,3) run by simp
  with spec_run_defined [of sz alloc_ok bound ops "(0, [])"] show ?thesis by (simp add: run)
qed

text \<open>Pushing a list of elements into a well-formed ring leaves exactly the newest \<open>capacity\<close> of
  the old contents followed by the pushed elements, in order.\<close>

theorem pushes_keep_newest:
  assumes "circular_wf q"
  shows "contents (fold (\<lambda>u q. the_state (circular_push u q)) us q) =
    keep_newest (m_capacity q) (contents q @ us)"
  using assms
proof (induction us arbitrary: q)
  case Nil
  then have "length (contents q) \<le> m_capacity q" by (simp add: circular_wf_def)
  then show ?case by (simp add: keep_newest_def)
next
  case (Cons u us)
  let ?p = "the_state (circular_push u q)"
  have "contents (fold (\<lambda>u q. the_state (circular_push u q)) us ?p) =
      keep_newest (m_capacity q) (keep_newest (m_capacity q) (contents q @ [u]) @ us)"
    using Cons.IH [OF circular_push_wf [OF Cons.prems, of u]] circular_push_frame [OF Cons.prems, of u]
      circular_push_contents [OF Cons.prems, of u] by simp
  then show ?case by (simp add: keep_newest_append)
qed

theorem pushes_keep_newest_witness:
  "contents (fold (\<lambda>u q. the_state (circular_push u q)) [1, 2, 3 :: nat]
     (the_state (set_capacity 8 (\<lambda>_. True) 2 circular_queue_new))) = [2, 3]"
proof -
  let ?q = "the_state (set_capacity 8 (\<lambda>_. True) 2 circular_queue_new) :: nat circular_queue"
  have q: "?q = circular_queue_new\<lparr>m_slots := [None, None], m_capacity := 2\<rparr>"
    by (simp add: set_capacity_def circular_queue_new_def slots_max_def vector_max_size_def) (simp add: numeral_2_eq_2)
  have "circular_wf ?q"
    unfolding q
    by (simp add: circular_wf_def circular_queue_new_def ring_slot_def vector_max_size_def less_2_cases_iff)
  from pushes_keep_newest [OF this, of "[1, 2, 3]"] show ?thesis
    unfolding q by (simp add: contents_def circular_queue_new_def keep_newest_def)
qed

text \<open>No element is lost or duplicated: over any run of pushes and pops of a well-formed ring, the
  pushed elements together with those held at the start are exactly the popped ones, the ones
  reported as dropped, and those held at the end.\<close>

theorem ring_conserves_elements:
  assumes "circular_wf q" "\<forall>n. Set_capacity n \<notin> set ops" "ring_run sz alloc_ok ops q = (obs, p)"
  shows "mset (pushed_of ops) + mset (contents q) =
    mset (popped_of obs) + mset (dropped_of obs) + mset (contents p)"
proof (rule spec_run_conserves)
  show "length (contents q) \<le> m_capacity q" using assms(1) by (simp add: circular_wf_def)
  show "spec_run sz alloc_ok (m_wake_callback q) ops (m_capacity q, contents q) =
      (obs, m_capacity p, contents p)"
    using ring_run_refines [OF assms(1), of sz alloc_ok ops] assms(3) by simp
qed (rule assms(2))

theorem ring_conserves_elements_witness:
  "mset (pushed_of [Push (7::nat), Pop, Pop]) + mset (contents circular_queue_new) =
    mset (popped_of (fst (ring_run 8 (\<lambda>_. True) [Push 7, Pop, Pop] circular_queue_new)))
    + mset (dropped_of (fst (ring_run 8 (\<lambda>_. True) [Push 7, Pop, Pop] circular_queue_new)))
    + mset (contents (snd (ring_run 8 (\<lambda>_. True) [Push 7, Pop, Pop] circular_queue_new)))"
  by (rule ring_conserves_elements [OF circular_queue_new_wf, where sz = 8 and alloc_ok = "\<lambda>_. True"]) simp_all

text \<open>C18. A \<open>set_capacity\<close> that throws leaves the ring exactly as it was, and it throws only
  \<open>length_error\<close> (capacity beyond the vector's maximum) or \<open>bad_alloc\<close> (allocation refused).\<close>

theorem set_capacity_strong_guarantee:
  assumes "circular_wf q" "set_capacity sz alloc_ok capacity q = Throw e p"
  shows "p = q \<and> (e = Length_error \<and> capacity > slots_max sz \<or> e = Bad_alloc \<and> \<not> alloc_ok capacity)"
proof -
  note t = set_capacity_throws [OF assms(2,1)]
  show ?thesis
  proof (cases "capacity > slots_max sz")
    case False
    with assms(2) have "\<not> alloc_ok capacity"
      using set_capacity_contents [OF assms(1), of capacity sz alloc_ok]
      by (fastforce simp: set_capacity_def split: if_splits)
    with False t show ?thesis by simp
  qed (use t in simp)
qed

theorem set_capacity_strong_guarantee_witness:
  "set_capacity 8 (\<lambda>_. False) 3 (circular_queue_new :: nat circular_queue) = Throw Bad_alloc circular_queue_new
    \<and> \<not> (\<lambda>_. False) (3::nat)"
proof -
  have "set_capacity 8 (\<lambda>_. False) 3 (circular_queue_new :: nat circular_queue) =
      Throw Bad_alloc circular_queue_new"
    by (simp add: set_capacity_def circular_queue_new_def slots_max_def vector_max_size_def)
  with set_capacity_strong_guarantee [OF circular_queue_new_wf this] show ?thesis by simp
qed

text \<open>C15. Over any interleaving of pushes, pops, wake-ups and spurious wake-ups on the blocking
  \<open>event_queue\<close>, a consumer never stays blocked on a non-empty queue with no wake-up under way: if
  data is queued while threads wait, some thread has been notified and will take it.\<close>

theorem event_queue_no_stranded_consumer:
  assumes "reachable (\<lambda>q. q = event_queue_new b) eq_step q" "eq_queue q \<noteq> []" "0 < eq_waiting q"
  shows "0 < eq_woken q"
proof -
  have "reachable (\<lambda>q. \<exists>b. q = event_queue_new b) eq_step q"
    using assms(1) by (induction rule: reachable.induct) (auto intro: reachable.intros)
  then have "eq_inv q" by (rule eq_monitor.inv_reachable)
  with assms(2,3) show ?thesis by (simp add: eq_inv_def)
qed

theorem event_queue_no_stranded_consumer_witness:
  "let q0 = event_queue_new True; q1 = snd (eq_pop q0); q2 = snd (eq_pop q1); q3 = snd (eq_push (5::nat) q2)
   in 0 < eq_waiting q3 \<and> eq_queue q3 = [5] \<and> 0 < eq_woken q3"
proof -
  let ?q0 = "event_queue_new True :: nat event_queue"
  let ?q1 = "snd (eq_pop ?q0)" let ?q2 = "snd (eq_pop ?q1)" let ?q3 = "snd (eq_push 5 ?q2)"
  have "reachable (\<lambda>q. q = ?q0) eq_step ?q0" by (rule reachable_init) simp
  then have "reachable (\<lambda>q. q = ?q0) eq_step ?q1" by (rule reachable_step) (rule eq_step_pop)
  then have "reachable (\<lambda>q. q = ?q0) eq_step ?q2" by (rule reachable_step) (rule eq_step_pop)
  then have "reachable (\<lambda>q. q = ?q0) eq_step ?q3" by (rule reachable_step) (rule eq_step_push)
  moreover have "eq_queue ?q3 = [5]" "0 < eq_waiting ?q3"
    by (simp_all add: event_queue_new_def eq_pop_def eq_push_def eq_wake_up_def eq_notify_one_def)
  ultimately show ?thesis
    using event_queue_no_stranded_consumer [of True ?q3] by (simp add: Let_def)
qed

end
