(* ===== verification/Bfc_Function.thy ===== *)
theory Bfc_Function
  imports Bfc_Prelude
begin

text \<open>
  The fixed-storage callable wrapper of \<open>src/src/bfc/function.hpp\<close>, with object lifetimes.

  A \<open>function\<close> lives at an address and keeps the callable it wraps inside itself: the bytes
  \<open>m_object\<close> and four pointers that know the callable's type. The heap of the model records which
  \<open>function\<close> objects exist, which callables are alive, and for each callable the address its
  constructor ran at. Destroying a callable that is not alive, or through the pointers of another
  type, is undefined behaviour. The lemmas show that no sequence of the operations destroys a callable
  twice or leaks one, what copies and moves preserve, and what they do to the callable's address.
\<close>

section \<open>Objects\<close>

type_synonym addr = nat

text \<open>
  A callable: its identity, its type (the \<open>callable_tType\<close> of \<open>set\<close>), what it computes (\<open>None\<close> once it
  was moved from) and the address it was constructed at.
\<close>

record 'v callable =
  ob_id :: nat
  ob_type :: nat
  ob_val :: "'v option"
  ob_home :: addr

text \<open>The members of \<open>function\<close>; a function pointer is the type it was instantiated for.\<close>

record 'v fn_object =
  m_object :: "'v callable option"
  m_fn :: "nat option"
  m_destroyer :: "nat option"
  m_copier :: "nat option"
  m_mover :: "nat option"

record 'v fn_heap =
  fns :: "addr \<rightharpoonup> 'v fn_object"
  live :: "nat set"
  next_id :: nat

definition fn_heap_empty :: "'v fn_heap" where
  "fn_heap_empty = \<lparr>fns = Map.empty, live = {}, next_id = 0\<rparr>"

definition put :: "addr \<Rightarrow> 'v fn_object \<Rightarrow> 'v fn_heap \<Rightarrow> 'v fn_heap" where
  "put a f h = h\<lparr>fns := (fns h)(a \<mapsto> f)\<rparr>"

definition construct ::
    "addr \<Rightarrow> nat \<Rightarrow> 'v option \<Rightarrow> 'v fn_heap \<Rightarrow> 'v callable \<times> 'v fn_heap" where
  "construct a t v h =
     (\<lparr>ob_id = next_id h, ob_type = t, ob_val = v, ob_home = a\<rparr>,
      h\<lparr>live := insert (next_id h) (live h), next_id := next_id h + 1\<rparr>)"

definition destruct :: "nat option \<Rightarrow> 'v callable option \<Rightarrow> 'v fn_heap \<Rightarrow> ('v fn_heap, unit) result" where
  "destruct destroyer bytes h =
     (case (destroyer, bytes) of
        (Some t, Some ob) \<Rightarrow>
          (if ob_type ob = t \<and> ob_id ob \<in> live h then Ok () (h\<lparr>live := live h - {ob_id ob}\<rparr>)
           else Throw Undefined_behaviour h)
      | _ \<Rightarrow> Throw Undefined_behaviour h)"

section \<open>Operations\<close>

definition function_default :: "'v fn_object" where
  "function_default =
     \<lparr>m_object = None, m_fn = None, m_destroyer = None, m_copier = None, m_mover = None\<rparr>"

definition fn_clear :: "'v fn_object \<Rightarrow> 'v fn_object" where
  "fn_clear f = f\<lparr>m_fn := None\<rparr>"

definition copy_meta_from :: "'v fn_object \<Rightarrow> 'v fn_object \<Rightarrow> 'v fn_object" where
  "copy_meta_from other f =
     f\<lparr>m_fn := m_fn other, m_destroyer := m_destroyer other, m_copier := m_copier other,
       m_mover := m_mover other\<rparr>"

text \<open>\<open>operator bool\<close>.\<close>

definition fn_bool :: "'v fn_object \<Rightarrow> bool" where
  "fn_bool f \<longleftrightarrow> m_fn f \<noteq> None"

definition fn_set :: "addr \<Rightarrow> nat \<Rightarrow> 'v \<Rightarrow> 'v fn_heap \<Rightarrow> ('v fn_heap, unit) result" where
  "fn_set a t v h =
     (case fns h a of
        None \<Rightarrow> Throw Undefined_behaviour h
      | Some f \<Rightarrow>
          (let (ob, h) = construct a t (Some v) h
           in Ok () (put a (f\<lparr>m_object := Some ob, m_destroyer := Some t, m_copier := Some t,
                             m_mover := Some t, m_fn := Some t\<rparr>) h)))"

definition fn_reset :: "addr \<Rightarrow> 'v fn_heap \<Rightarrow> ('v fn_heap, unit) result" where
  "fn_reset a h =
     (case fns h a of
        None \<Rightarrow> Throw Undefined_behaviour h
      | Some f \<Rightarrow>
          rbind (if m_fn f \<noteq> None then destruct (m_destroyer f) (m_object f) h else Ok () h)
            (\<lambda>_ h. Ok () (put a (fn_clear f) h)))"

text \<open>The call of \<open>m_copier\<close>: a new callable in the bytes of \<open>a\<close> with the value of the one in \<open>b\<close>.\<close>

definition run_copier :: "addr \<Rightarrow> 'v fn_object \<Rightarrow> 'v fn_heap \<Rightarrow> ('v fn_heap, 'v callable) result" where
  "run_copier a other h =
     (case (m_copier other, m_object other) of
        (Some t, Some ob) \<Rightarrow>
          (if ob_type ob = t \<and> ob_id ob \<in> live h
           then (let (ob', h) = construct a t (ob_val ob) h in Ok ob' h)
           else Throw Undefined_behaviour h)
      | _ \<Rightarrow> Throw Undefined_behaviour h)"

text \<open>The call of \<open>m_mover\<close>: as \<open>run_copier\<close>, and the callable in \<open>b\<close> is left moved-from.\<close>

definition run_mover ::
    "addr \<Rightarrow> addr \<Rightarrow> 'v fn_object \<Rightarrow> 'v fn_heap \<Rightarrow> ('v fn_heap, 'v callable) result" where
  "run_mover a b other h =
     (case (m_mover other, m_object other) of
        (Some t, Some ob) \<Rightarrow>
          (if ob_type ob = t \<and> ob_id ob \<in> live h
           then (let (ob', h) = construct a t (ob_val ob) h
                 in Ok ob' (put b (other\<lparr>m_object := Some (ob\<lparr>ob_val := None\<rparr>)\<rparr>) h))
           else Throw Undefined_behaviour h)
      | _ \<Rightarrow> Throw Undefined_behaviour h)"

definition fn_ctor_null :: "addr \<Rightarrow> 'v fn_heap \<Rightarrow> ('v fn_heap, unit) result" where
  "fn_ctor_null a h = Ok () (put a (fn_clear function_default) h)"

definition fn_ctor_callable :: "addr \<Rightarrow> nat \<Rightarrow> 'v \<Rightarrow> 'v fn_heap \<Rightarrow> ('v fn_heap, unit) result" where
  "fn_ctor_callable a t v h = fn_set a t v (put a function_default h)"

definition fn_ctor_copy :: "addr \<Rightarrow> addr \<Rightarrow> 'v fn_heap \<Rightarrow> ('v fn_heap, unit) result" where
  "fn_ctor_copy a b h =
     (case fns h b of
        None \<Rightarrow> Throw Undefined_behaviour h
      | Some other \<Rightarrow>
          (if fn_bool other
           then rbind (run_copier a other h)
                  (\<lambda>ob h. Ok () (put a (copy_meta_from other (function_default\<lparr>m_object := Some ob\<rparr>)) h))
           else Ok () (put a (fn_clear function_default) h)))"

definition fn_ctor_move :: "addr \<Rightarrow> addr \<Rightarrow> 'v fn_heap \<Rightarrow> ('v fn_heap, unit) result" where
  "fn_ctor_move a b h =
     (case fns h b of
        None \<Rightarrow> Throw Undefined_behaviour h
      | Some other \<Rightarrow>
          (if fn_bool other
           then rbind (run_mover a b other h)
                  (\<lambda>ob h. fn_reset b
                     (put a (copy_meta_from other (function_default\<lparr>m_object := Some ob\<rparr>)) h))
           else Ok () (put a (fn_clear function_default) h)))"

definition fn_dtor :: "addr \<Rightarrow> 'v fn_heap \<Rightarrow> ('v fn_heap, unit) result" where
  "fn_dtor a h =
     (case fns h a of
        None \<Rightarrow> Throw Undefined_behaviour h
      | Some f \<Rightarrow>
          rbind (if m_fn f \<noteq> None then destruct (m_destroyer f) (m_object f) h else Ok () h)
            (\<lambda>_ h. Ok () (h\<lparr>fns := (fns h)(a := None)\<rparr>)))"

text \<open>\<open>swap\<close> exchanges the pointers and the \<open>N\<close> bytes of the two storages.\<close>

definition fn_swap :: "addr \<Rightarrow> addr \<Rightarrow> 'v fn_heap \<Rightarrow> ('v fn_heap, unit) result" where
  "fn_swap a b h =
     (if a = b then Ok () h
      else (case (fns h a, fns h b) of
              (Some f, Some g) \<Rightarrow> Ok () (put a g (put b f h))
            | _ \<Rightarrow> Throw Undefined_behaviour h))"

text \<open>Copy assignment through a temporary at address \<open>tmp\<close>.\<close>

definition fn_assign_copy :: "addr \<Rightarrow> addr \<Rightarrow> addr \<Rightarrow> 'v fn_heap \<Rightarrow> ('v fn_heap, unit) result" where
  "fn_assign_copy tmp a b h =
     (if a = b then Ok () h
      else rbind (fn_ctor_copy tmp b h) (\<lambda>_ h.
             rbind (fn_swap a tmp h) (\<lambda>_ h. fn_dtor tmp h)))"

definition fn_assign_move :: "addr \<Rightarrow> addr \<Rightarrow> 'v fn_heap \<Rightarrow> ('v fn_heap, unit) result" where
  "fn_assign_move a b h =
     (if a = b then Ok () h
      else rbind (fn_reset a h) (\<lambda>_ h.
        (case (fns h a, fns h b) of
           (Some f, Some other) \<Rightarrow>
             (if fn_bool other
              then rbind (run_mover a b other h)
                     (\<lambda>ob h. fn_reset b (put a (copy_meta_from other (f\<lparr>m_object := Some ob\<rparr>)) h))
              else Ok () (put a (fn_clear f) h))
         | _ \<Rightarrow> Throw Undefined_behaviour h)))"

definition fn_assign_callable :: "addr \<Rightarrow> nat \<Rightarrow> 'v \<Rightarrow> 'v fn_heap \<Rightarrow> ('v fn_heap, unit) result" where
  "fn_assign_callable a t v h = rbind (fn_reset a h) (\<lambda>_. fn_set a t v)"

definition fn_assign_null :: "addr \<Rightarrow> 'v fn_heap \<Rightarrow> ('v fn_heap, unit) result" where
  "fn_assign_null a h = fn_reset a h"

text \<open>\<open>operator()\<close>: the value the wrapped callable computes.\<close>

definition fn_call :: "addr \<Rightarrow> 'v fn_heap \<Rightarrow> ('v fn_heap, 'v option) result" where
  "fn_call a h =
     (case fns h a of
        None \<Rightarrow> Throw Undefined_behaviour h
      | Some f \<Rightarrow>
          (case m_fn f of
             None \<Rightarrow> Throw Bad_function_call h
           | Some t \<Rightarrow>
               (case m_object f of
                  Some ob \<Rightarrow>
                    (if ob_type ob = t \<and> ob_id ob \<in> live h then Ok (ob_val ob) h
                     else Throw Undefined_behaviour h)
                | None \<Rightarrow> Throw Undefined_behaviour h)))"

section \<open>Programs\<close>

datatype 'v fn_op =
    Ctor_null addr | Ctor_callable addr nat 'v | Ctor_copy addr addr | Ctor_move addr addr
  | Assign_null addr | Assign_callable addr nat 'v | Assign_copy addr addr addr | Assign_move addr addr
  | Swap addr addr | Reset addr | Dtor addr

fun fn_exec :: "'v fn_op \<Rightarrow> 'v fn_heap \<Rightarrow> ('v fn_heap, unit) result" where
  "fn_exec (Ctor_null a) h = fn_ctor_null a h"
| "fn_exec (Ctor_callable a t v) h = fn_ctor_callable a t v h"
| "fn_exec (Ctor_copy a b) h = fn_ctor_copy a b h"
| "fn_exec (Ctor_move a b) h = fn_ctor_move a b h"
| "fn_exec (Assign_null a) h = fn_assign_null a h"
| "fn_exec (Assign_callable a t v) h = fn_assign_callable a t v h"
| "fn_exec (Assign_copy tmp a b) h = fn_assign_copy tmp a b h"
| "fn_exec (Assign_move a b) h = fn_assign_move a b h"
| "fn_exec (Swap a b) h = fn_swap a b h"
| "fn_exec (Reset a) h = fn_reset a h"
| "fn_exec (Dtor a) h = fn_dtor a h"

text \<open>
  What the language guarantees about the operands: constructors run on storage that holds no
  \<open>function\<close> (the temporary of a copy assignment is fresh), every other operand exists.
\<close>

fun fn_op_ok :: "'v fn_op \<Rightarrow> 'v fn_heap \<Rightarrow> bool" where
  "fn_op_ok (Ctor_null a) h \<longleftrightarrow> fns h a = None"
| "fn_op_ok (Ctor_callable a t v) h \<longleftrightarrow> fns h a = None"
| "fn_op_ok (Ctor_copy a b) h \<longleftrightarrow> fns h a = None \<and> fns h b \<noteq> None"
| "fn_op_ok (Ctor_move a b) h \<longleftrightarrow> fns h a = None \<and> fns h b \<noteq> None"
| "fn_op_ok (Assign_null a) h \<longleftrightarrow> fns h a \<noteq> None"
| "fn_op_ok (Assign_callable a t v) h \<longleftrightarrow> fns h a \<noteq> None"
| "fn_op_ok (Assign_copy tmp a b) h \<longleftrightarrow> fns h tmp = None \<and> fns h a \<noteq> None \<and> fns h b \<noteq> None"
| "fn_op_ok (Assign_move a b) h \<longleftrightarrow> fns h a \<noteq> None \<and> fns h b \<noteq> None"
| "fn_op_ok (Swap a b) h \<longleftrightarrow> fns h a \<noteq> None \<and> fns h b \<noteq> None"
| "fn_op_ok (Reset a) h \<longleftrightarrow> fns h a \<noteq> None"
| "fn_op_ok (Dtor a) h \<longleftrightarrow> fns h a \<noteq> None"

text \<open>A program that respects these guarantees at every step.\<close>

fun fn_prog_ok :: "'v fn_op list \<Rightarrow> 'v fn_heap \<Rightarrow> bool" where
  "fn_prog_ok [] h \<longleftrightarrow> True"
| "fn_prog_ok (op # ops) h \<longleftrightarrow> fn_op_ok op h \<and> fn_prog_ok ops (the_state (fn_exec op h))"

section \<open>Ownership\<close>

text \<open>The callable a \<open>function\<close> at an address owns.\<close>

definition owns :: "'v fn_object \<Rightarrow> nat option" where
  "owns f = (if m_fn f = None then None else map_option ob_id (m_object f))"

definition owned :: "'v fn_heap \<Rightarrow> addr \<Rightarrow> nat option" where
  "owned h a = (case fns h a of None \<Rightarrow> None | Some f \<Rightarrow> owns f)"

text \<open>A non-empty \<open>function\<close> has the four pointers of one type and a callable of that type.\<close>

definition fn_typed :: "'v fn_object \<Rightarrow> bool" where
  "fn_typed f \<longleftrightarrow> (\<forall>t. m_fn f = Some t \<longrightarrow>
     m_destroyer f = Some t \<and> m_copier f = Some t \<and> m_mover f = Some t \<and>
     (\<exists>ob. m_object f = Some ob \<and> ob_type ob = t))"

definition fn_wf :: "'v fn_heap \<Rightarrow> bool" where
  "fn_wf h \<longleftrightarrow>
     (\<forall>a f. fns h a = Some f \<longrightarrow> fn_typed f) \<and> inj_on (owned h) (dom (owned h)) \<and>
     live h = ran (owned h) \<and> (\<forall>i \<in> live h. i < next_id h)"

lemma fn_wf_typed: "fn_wf h \<Longrightarrow> fns h a = Some f \<Longrightarrow> fn_typed f"
  by (auto simp: fn_wf_def)

lemma fn_wf_live: "fn_wf h \<Longrightarrow> owned h a = Some i \<Longrightarrow> i \<in> live h"
  by (auto simp: fn_wf_def ranI)

lemma fn_wf_fresh: "fn_wf h \<Longrightarrow> next_id h \<notin> live h"
  by (auto simp: fn_wf_def)

lemma ran_update_None:
  assumes "inj_on m (dom m)" "m a = Some i"
  shows "ran (m(a := None)) = ran m - {i}"
  using assms by (auto simp: ran_def inj_on_def dom_def) (metis option.inject)

lemma inj_on_update_None: "inj_on m (dom m) \<Longrightarrow> inj_on (m(a := None)) (dom (m(a := None)))"
  by (auto simp: inj_on_def dom_def)

lemma inj_on_update_fresh:
  "inj_on m (dom m) \<Longrightarrow> i \<notin> ran m \<Longrightarrow> inj_on (m(a \<mapsto> i)) (dom (m(a \<mapsto> i)))"
  by (auto simp: inj_on_def dom_def ran_def)

lemma inj_on_swap:
  assumes "inj_on m (dom m)"
  shows "inj_on (m(a := m b, b := m a)) (dom (m(a := m b, b := m a)))"
  using assms by (auto simp: inj_on_def dom_def split: if_splits)

lemma ran_swap: "ran (m(a := m b, b := m a)) = ran m"
  by (auto simp: ran_def split: if_splits) metis+

lemma owned_put: "owned (put a f h) = (owned h)(a := owns f)"
  by (auto simp: owned_def put_def)

lemma owned_frame [simp]:
  "owned (h\<lparr>live := l\<rparr>) = owned h" "owned (h\<lparr>live := l, next_id := n\<rparr>) = owned h"
  "owned (h\<lparr>fns := (fns h)(a := None)\<rparr>) = (owned h)(a := None)"
  by (auto simp: owned_def)

lemma fns_put [simp]: "fns (put a f h) = (fns h)(a \<mapsto> f)"
  and live_put [simp]: "live (put a f h) = live h"
  and next_id_put [simp]: "next_id (put a f h) = next_id h"
  by (simp_all add: put_def)

lemma owns_typed: "fn_typed f \<Longrightarrow> m_fn f = Some t \<Longrightarrow> \<exists>ob. m_object f = Some ob \<and> ob_type ob = t \<and> owns f = Some (ob_id ob)"
  by (auto simp: fn_typed_def owns_def)

lemma owns_empty [simp]: "m_fn f = None \<Longrightarrow> owns f = None"
  by (simp add: owns_def)

lemma fn_typed_empty [simp]: "m_fn f = None \<Longrightarrow> fn_typed f"
  by (simp add: fn_typed_def)

lemma function_default_empty [simp]: "m_fn function_default = None" "m_fn (fn_clear f) = None"
  by (simp_all add: function_default_def fn_clear_def)

text \<open>The four ways an operation changes who owns what.\<close>

lemma fn_wf_put_empty [wf_intros]:
  assumes "fn_wf h" "owned h a = None" "m_fn f = None"
  shows "fn_wf (put a f h)"
proof -
  have "owned (put a f h) = owned h" using assms(2,3) by (simp add: owned_put fun_upd_idem)
  with assms show ?thesis by (auto simp: fn_wf_def)
qed

lemma fn_wf_create:
  assumes "fn_wf h" "owned h a = None" "fn_typed f" "owns f = Some (next_id h)"
  shows "fn_wf (put a f (h\<lparr>live := insert (next_id h) (live h), next_id := next_id h + 1\<rparr>))"
proof -
  let ?h = "put a f (h\<lparr>live := insert (next_id h) (live h), next_id := next_id h + 1\<rparr>)"
  have o: "owned ?h = (owned h)(a \<mapsto> next_id h)" using assms(4) by (simp add: owned_put)
  have "next_id h \<notin> ran (owned h)" using fn_wf_fresh [OF assms(1)] assms(1) by (simp add: fn_wf_def)
  with assms(1) have "inj_on (owned ?h) (dom (owned ?h))"
    unfolding o by (intro inj_on_update_fresh) (simp_all add: fn_wf_def)
  moreover have "ran (owned ?h) = insert (next_id h) (ran (owned h))"
    using assms(2) unfolding o by simp
  ultimately show ?thesis using assms by (auto simp: fn_wf_def less_Suc_eq)
qed

lemma fn_wf_release:
  assumes "fn_wf h" "owned h a = Some i" "owned h' = (owned h)(a := None)"
    and "live h' = live h - {i}" "next_id h' = next_id h" "\<forall>b f. fns h' b = Some f \<longrightarrow> fn_typed f"
  shows "fn_wf h'"
proof -
  have "inj_on (owned h) (dom (owned h))" using assms(1) by (simp add: fn_wf_def)
  from inj_on_update_None [OF this, of a] ran_update_None [OF this assms(2)] assms show ?thesis
    by (auto simp: fn_wf_def)
qed

lemma fn_wf_swap:
  assumes "fn_wf h" "fns h a = Some f" "fns h b = Some g" "a \<noteq> b"
  shows "fn_wf (put a g (put b f h))"
proof -
  have "owned (put a g (put b f h)) = (owned h)(a := owned h b, b := owned h a)"
    using assms(2-4) by (auto simp: owned_put owned_def)
  with inj_on_swap [of "owned h" a b] ran_swap [of "owned h" a b] assms show ?thesis
    by (auto simp: fn_wf_def)
qed

lemma fn_wf_same_owner:
  assumes "fn_wf h" "owned h a = owns f" "fn_typed f"
  shows "fn_wf (put a f h)"
proof -
  have "owned (put a f h) = owned h" using assms(2) by (simp add: owned_put fun_upd_idem)
  with assms show ?thesis by (auto simp: fn_wf_def)
qed

section \<open>Every operation is defined and keeps ownership exact\<close>

lemma destruct_Ok:
  assumes "fn_wf h" "fns h a = Some f" "m_fn f = Some t"
  obtains i where "owned h a = Some i" "destruct (m_destroyer f) (m_object f) h = Ok () (h\<lparr>live := live h - {i}\<rparr>)"
proof -
  obtain ob where ob: "m_object f = Some ob" "ob_type ob = t" "owns f = Some (ob_id ob)"
    using owns_typed [OF fn_wf_typed [OF assms(1,2)] assms(3)] by blast
  then have "owned h a = Some (ob_id ob)" using assms(2) by (simp add: owned_def)
  moreover have "m_destroyer f = Some t"
    using fn_wf_typed [OF assms(1,2)] assms(3) by (simp add: fn_typed_def)
  ultimately show thesis
    using that ob fn_wf_live [OF assms(1)] by (simp add: destruct_def)
qed

lemma fn_reset_Ok:
  assumes "fn_wf h" "fns h a = Some f"
  obtains h' where "fn_reset a h = Ok () h'" "fn_wf h'" "fns h' = (fns h)(a \<mapsto> fn_clear f)"
    "live h' = live h - set_option (owned h a)" "next_id h' = next_id h"
proof (cases "m_fn f")
  case None
  then have "owned h a = None" using assms(2) by (simp add: owned_def)
  with None assms show thesis
    by (intro that [of "put a (fn_clear f) h"]) (auto simp: fn_reset_def intro: wf_intros)
next
  case (Some t)
  obtain i where i: "owned h a = Some i"
    "destruct (m_destroyer f) (m_object f) h = Ok () (h\<lparr>live := live h - {i}\<rparr>)"
    using destruct_Ok [OF assms Some] by blast
  let ?h = "put a (fn_clear f) (h\<lparr>live := live h - {i}\<rparr>)"
  have "fn_wf ?h"
    by (rule fn_wf_release [OF assms(1) i(1)])
      (use fn_wf_typed [OF assms(1)] in \<open>auto simp: owned_put\<close>)
  with Some i assms(2) show thesis by (intro that [of ?h]) (auto simp: fn_reset_def)
qed

lemma fn_dtor_Ok:
  assumes "fn_wf h" "fns h a = Some f"
  obtains h' where "fn_dtor a h = Ok () h'" "fn_wf h'" "fns h' = (fns h)(a := None)"
    "live h' = live h - set_option (owned h a)" "next_id h' = next_id h"
proof (cases "m_fn f")
  case None
  then have "owned h a = None" using assms(2) by (simp add: owned_def)
  moreover from this have "(owned h)(a := None) = owned h" by auto
  ultimately show thesis using None assms
    by (intro that [of "h\<lparr>fns := (fns h)(a := None)\<rparr>"]) (auto simp: fn_dtor_def fn_wf_def)
next
  case (Some t)
  obtain i where i: "owned h a = Some i"
    "destruct (m_destroyer f) (m_object f) h = Ok () (h\<lparr>live := live h - {i}\<rparr>)"
    using destruct_Ok [OF assms Some] by blast
  let ?h = "h\<lparr>live := live h - {i}, fns := (fns h)(a := None)\<rparr>"
  have "owned ?h = (owned h)(a := None)" by (auto simp: owned_def)
  then have "fn_wf ?h"
    by (intro fn_wf_release [OF assms(1) i(1)])
      (use fn_wf_typed [OF assms(1)] in \<open>auto split: if_splits\<close>)
  with Some i assms(2) show thesis by (intro that [of ?h]) (auto simp: fn_dtor_def)
qed

abbreviation born :: "'v fn_heap \<Rightarrow> 'v fn_heap" where
  "born h \<equiv> h\<lparr>live := insert (next_id h) (live h), next_id := next_id h + 1\<rparr>"

text \<open>The callable a \<open>function\<close> wraps; \<open>None\<close> when the \<open>function\<close> is empty.\<close>

definition content :: "'v fn_heap \<Rightarrow> addr \<Rightarrow> 'v callable option" where
  "content h a = (case fns h a of None \<Rightarrow> None | Some f \<Rightarrow> if m_fn f = None then None else m_object f)"

lemma owned_content: "owned h a = map_option ob_id (content h a)"
  by (simp add: owned_def owns_def content_def split: option.split)

lemma content_typed:
  assumes "fn_wf h" "fns h b = Some f" "m_fn f = Some t"
  obtains ob where "m_object f = Some ob" "content h b = Some ob" "ob_type ob = t" "ob_id ob \<in> live h"
    "m_destroyer f = Some t" "m_copier f = Some t" "m_mover f = Some t"
proof -
  obtain ob where ob: "m_object f = Some ob" "ob_type ob = t"
    "m_destroyer f = Some t" "m_copier f = Some t" "m_mover f = Some t"
    using fn_wf_typed [OF assms(1,2)] assms(3) by (auto simp: fn_typed_def)
  then have "content h b = Some ob" using assms(2,3) by (simp add: content_def)
  moreover from this have "ob_id ob \<in> live h"
    using fn_wf_live [OF assms(1), of b] by (simp add: owned_content)
  ultimately show thesis using that ob by blast
qed

lemma fn_set_Ok:
  assumes "fn_wf h" "fns h a = Some f" "m_fn f = None"
  obtains h' where "fn_set a t v h = Ok () h'" "fn_wf h'" "dom (fns h') = dom (fns h)"
    "content h' = (content h)(a \<mapsto> \<lparr>ob_id = next_id h, ob_type = t, ob_val = Some v, ob_home = a\<rparr>)"
proof -
  let ?ob = "\<lparr>ob_id = next_id h, ob_type = t, ob_val = Some v, ob_home = a\<rparr>"
  let ?f = "f\<lparr>m_object := Some ?ob, m_destroyer := Some t, m_copier := Some t, m_mover := Some t, m_fn := Some t\<rparr>"
  have "fn_wf (put a ?f (born h))"
    by (rule fn_wf_create [OF assms(1)]) (use assms(2,3) in \<open>simp_all add: owned_def owns_def fn_typed_def\<close>)
  then show thesis
    by (rule that [rotated]) (use assms(2) in \<open>auto simp: fn_set_def construct_def content_def\<close>)
qed

lemma run_copier_Ok:
  assumes "fn_wf h" "fns h b = Some f" "m_fn f = Some t" "content h b = Some ob"
  shows "run_copier a f h =
    Ok \<lparr>ob_id = next_id h, ob_type = t, ob_val = ob_val ob, ob_home = a\<rparr> (born h)"
proof (rule content_typed [OF assms(1-3)])
  fix ob' assume "m_object f = Some ob'" "content h b = Some ob'" "ob_type ob' = t" "ob_id ob' \<in> live h"
    "m_copier f = Some t"
  with assms(4) show ?thesis by (simp add: run_copier_def construct_def)
qed

lemma run_mover_Ok:
  assumes "fn_wf h" "fns h b = Some f" "m_fn f = Some t" "content h b = Some ob"
  shows "run_mover a b f h =
    Ok \<lparr>ob_id = next_id h, ob_type = t, ob_val = ob_val ob, ob_home = a\<rparr>
      (put b (f\<lparr>m_object := Some (ob\<lparr>ob_val := None\<rparr>)\<rparr>) (born h))"
proof (rule content_typed [OF assms(1-3)])
  fix ob' assume "m_object f = Some ob'" "content h b = Some ob'" "ob_type ob' = t" "ob_id ob' \<in> live h"
    "m_mover f = Some t"
  with assms(4) show ?thesis by (simp add: run_mover_def construct_def)
qed

text \<open>
  A new \<open>function\<close> at \<open>a\<close> that wraps a freshly constructed callable and takes the pointers of \<open>f\<close>:
  the end of every copy.
\<close>

lemma fn_wf_clone:
  assumes "fn_wf h" "fns h b = Some f" "m_fn f = Some t" "owned h a = None" "ob_id ob = next_id h" "ob_type ob = t"
  shows "fn_wf (put a (copy_meta_from f (g\<lparr>m_object := Some ob\<rparr>)) (born h))"
  using content_typed [OF assms(1-3)]
  by (intro fn_wf_create [OF assms(1,4)])
    (auto simp: copy_meta_from_def fn_typed_def owns_def assms(3,5,6))

lemma fn_ctor_copy_Ok:
  assumes "fn_wf h" "fns h a = None" "fns h b \<noteq> None"
  obtains h' where "fn_ctor_copy a b h = Ok () h'" "fn_wf h'" "dom (fns h') = insert a (dom (fns h))"
    "content h' = (content h)(a := map_option (\<lambda>ob. ob\<lparr>ob_id := next_id h, ob_home := a\<rparr>) (content h b))"
    "\<forall>x. x \<noteq> a \<longrightarrow> fns h' x = fns h x" "live h \<subseteq> live h'"
proof -
  obtain f where f: "fns h b = Some f" using assms(3) by blast
  have a: "owned h a = None" using assms(2) by (simp add: owned_def)
  show thesis
  proof (cases "m_fn f")
    case None
    then have "content h b = None" using f by (simp add: content_def)
    with None f a assms(1,2) show thesis
      by (intro that [of "put a (fn_clear function_default) h"])
        (auto simp: fn_ctor_copy_def fn_bool_def content_def intro: wf_intros)
  next
    case (Some t)
    obtain ob where ob: "content h b = Some ob" "ob_type ob = t"
      using content_typed [OF assms(1) f Some] by blast
    let ?ob = "\<lparr>ob_id = next_id h, ob_type = t, ob_val = ob_val ob, ob_home = a\<rparr>"
    let ?h = "put a (copy_meta_from f (function_default\<lparr>m_object := Some ?ob\<rparr>)) (born h)"
    have "fn_wf ?h" by (rule fn_wf_clone [OF assms(1) f Some a]) simp_all
    moreover have "?ob = ob\<lparr>ob_id := next_id h, ob_home := a\<rparr>" using ob(2) by (cases ob) simp
    ultimately show thesis using Some f ob(1) run_copier_Ok [OF assms(1) f Some ob(1), of a]
      by (intro that [of ?h])
        (auto simp: fn_ctor_copy_def fn_bool_def copy_meta_from_def content_def)
  qed
qed

text \<open>
  Moving the callable of \<open>b\<close> into the bytes of an empty \<open>function\<close> at \<open>a\<close> and resetting \<open>b\<close>: the end of
  the move constructor and of move assignment.
\<close>

lemma fn_move_tail:
  assumes "fn_wf h" "fns h b = Some f" "m_fn f = Some t" "owned h a = None" "a \<noteq> b" "content h b = Some ob"
  obtains h' where
    "rbind (run_mover a b f h)
       (\<lambda>ob h. fn_reset b (put a (copy_meta_from f (g\<lparr>m_object := Some ob\<rparr>)) h)) = Ok () h'"
    "fn_wf h'" "dom (fns h') = insert a (dom (fns h))"
    "content h' = (content h)(a \<mapsto> ob\<lparr>ob_id := next_id h, ob_home := a\<rparr>, b := None)"
    "ob_id ob \<notin> live h'"
proof -
  let ?ob = "\<lparr>ob_id = next_id h, ob_type = t, ob_val = ob_val ob, ob_home = a\<rparr>"
  let ?f = "f\<lparr>m_object := Some (ob\<lparr>ob_val := None\<rparr>)\<rparr>" and ?g = "copy_meta_from f (g\<lparr>m_object := Some ?ob\<rparr>)"
  let ?h = "put a ?g (put b ?f (born h))"
  obtain ob': "m_object f = Some ob" "ob_type ob = t" "ob_id ob \<in> live h"
    using content_typed [OF assms(1-3)] assms(6) by auto
  have comm: "?h = put b ?f (put a ?g (born h))" using assms(5) by (simp add: put_def fun_upd_twist)
  have "fn_wf (put a ?g (born h))" by (rule fn_wf_clone [OF assms(1-4)]) simp_all
  then have "fn_wf ?h" unfolding comm
  proof (rule fn_wf_same_owner)
    show "owned (put a ?g (born h)) b = owns ?f"
      using assms(2,5) ob' by (simp add: owned_def owns_def)
    show "fn_typed ?f" using fn_wf_typed [OF assms(1,2)] ob' by (auto simp: fn_typed_def)
  qed
  moreover have "fns ?h b = Some ?f" using assms(5) by simp
  moreover have ownb: "owned ?h b = Some (ob_id ob)" using assms(3,5) by (simp add: owned_def owns_def)
  ultimately obtain h' where h': "fn_reset b ?h = Ok () h'" "fn_wf h'"
      "fns h' = (fns ?h)(b \<mapsto> fn_clear ?f)" "live h' = live ?h - {ob_id ob}"
    using fn_reset_Ok [of ?h b ?f] by (metis option.simps(15))
  have "?ob = ob\<lparr>ob_id := next_id h, ob_home := a\<rparr>" using ob' by (cases ob) simp
  then have "content h' = (content h)(a \<mapsto> ob\<lparr>ob_id := next_id h, ob_home := a\<rparr>, b := None)"
    using assms(3,5) h'(3) by (auto simp: content_def copy_meta_from_def)
  moreover have "dom (fns h') = insert a (dom (fns h))" using h'(3) assms(2) by auto
  ultimately show thesis
    using that h' run_mover_Ok [OF assms(1-3,6), of a] by simp
qed

lemma fn_ctor_move_Ok:
  assumes "fn_wf h" "fns h a = None" "fns h b \<noteq> None"
  obtains h' where "fn_ctor_move a b h = Ok () h'" "fn_wf h'" "dom (fns h') = insert a (dom (fns h))"
    "content h' = (content h)(a := map_option (\<lambda>ob. ob\<lparr>ob_id := next_id h, ob_home := a\<rparr>) (content h b),
       b := None)"
    "\<forall>ob. content h b = Some ob \<longrightarrow> ob_id ob \<notin> live h'"
proof -
  obtain f where f: "fns h b = Some f" using assms(3) by blast
  have a: "owned h a = None" and ab: "a \<noteq> b" using assms(2,3) by (auto simp: owned_def)
  show thesis
  proof (cases "m_fn f")
    case None
    then have "content h b = None" using f by (simp add: content_def)
    with None f a assms(1,2) ab show thesis
      by (intro that [of "put a (fn_clear function_default) h"])
        (auto simp: fn_ctor_move_def fn_bool_def content_def intro: wf_intros)
  next
    case (Some t)
    obtain ob where ob: "content h b = Some ob" using content_typed [OF assms(1) f Some] by blast
    from fn_move_tail [OF assms(1) f Some a ab ob, of function_default] obtain h' where
      "fn_ctor_move a b h = Ok () h'" "fn_wf h'" "dom (fns h') = insert a (dom (fns h))"
      "content h' = (content h)(a \<mapsto> ob\<lparr>ob_id := next_id h, ob_home := a\<rparr>, b := None)" "ob_id ob \<notin> live h'"
      using Some f by (auto simp: fn_ctor_move_def fn_bool_def)
    then show thesis using that ob by simp
  qed
qed

lemma content_put_empty: "m_fn f = None \<Longrightarrow> content (put a f h) = (content h)(a := None)"
  by (auto simp: content_def)

lemma fn_swap_Ok:
  assumes "fn_wf h" "fns h a \<noteq> None" "fns h b \<noteq> None"
  obtains h' where "fn_swap a b h = Ok () h'" "fn_wf h'" "dom (fns h') = dom (fns h)"
    "content h' = (content h)(a := content h b, b := content h a)" "fns h' a = fns h b" "fns h' b = fns h a"
    "live h' = live h"
proof (cases "a = b")
  case True
  with assms show thesis by (intro that [of h]) (auto simp: fn_swap_def)
next
  case False
  obtain f g where fg: "fns h a = Some f" "fns h b = Some g" using assms(2,3) by blast
  with False fn_wf_swap [OF assms(1) fg False] show thesis
    by (intro that [of "put a g (put b f h)"]) (auto simp: fn_swap_def content_def)
qed

lemma fn_assign_copy_Ok:
  assumes "fn_wf h" "fns h tmp = None" "fns h a \<noteq> None" "fns h b \<noteq> None" "a \<noteq> b"
  obtains h' where "fn_assign_copy tmp a b h = Ok () h'" "fn_wf h'" "dom (fns h') = dom (fns h)"
    "content h' =
      (content h)(a := map_option (\<lambda>ob. ob\<lparr>ob_id := next_id h, ob_home := tmp\<rparr>) (content h b))"
proof -
  let ?c = "map_option (\<lambda>ob. ob\<lparr>ob_id := next_id h, ob_home := tmp\<rparr>) (content h b)"
  have tmp: "tmp \<noteq> a" "tmp \<noteq> b" "content h tmp = None" using assms(2-4) by (auto simp: content_def)
  obtain h1 where h1: "fn_ctor_copy tmp b h = Ok () h1" "fn_wf h1" "dom (fns h1) = insert tmp (dom (fns h))"
    "content h1 = (content h)(tmp := ?c)"
    using fn_ctor_copy_Ok [OF assms(1,2,4)] by metis
  have "fns h1 a \<noteq> None" "fns h1 tmp \<noteq> None" using h1(3) assms(3) by auto
  then obtain h2 where h2: "fn_swap a tmp h1 = Ok () h2" "fn_wf h2" "dom (fns h2) = dom (fns h1)"
    "content h2 = (content h1)(a := content h1 tmp, tmp := content h1 a)"
    using fn_swap_Ok [OF h1(2)] by metis
  obtain f where "fns h2 tmp = Some f" using h1(3) h2(3) by blast
  then obtain h3 where h3: "fn_dtor tmp h2 = Ok () h3" "fn_wf h3" "fns h3 = (fns h2)(tmp := None)"
    using fn_dtor_Ok [OF h2(2)] by metis
  have "content h3 = (content h2)(tmp := None)" using h3(3) by (auto simp: content_def)
  then have "content h3 = (content h)(a := ?c)" using tmp h1(4) h2(4) by auto
  moreover have "dom (fns h3) = dom (fns h)" using assms(2) h1(3) h2(3) h3(3) by auto
  moreover have "fn_assign_copy tmp a b h = Ok () h3" using assms(5) h1 h2 h3 by (simp add: fn_assign_copy_def)
  ultimately show thesis using that h3(2) by blast
qed

lemma fn_assign_move_Ok:
  assumes "fn_wf h" "fns h a \<noteq> None" "fns h b \<noteq> None" "a \<noteq> b"
  obtains h' where "fn_assign_move a b h = Ok () h'" "fn_wf h'" "dom (fns h') = dom (fns h)"
    "content h' = (content h)(a := map_option (\<lambda>ob. ob\<lparr>ob_id := next_id h, ob_home := a\<rparr>) (content h b),
       b := None)"
proof -
  obtain f where f: "fns h a = Some f" using assms(2) by blast
  obtain g where g: "fns h b = Some g" using assms(3) by blast
  obtain h1 where h1: "fn_reset a h = Ok () h1" "fn_wf h1" "fns h1 = (fns h)(a \<mapsto> fn_clear f)"
    "next_id h1 = next_id h"
    using fn_reset_Ok [OF assms(1) f] by metis
  have b1: "fns h1 b = Some g" "content h1 = (content h)(a := None)" "owned h1 a = None"
    using g assms(4) h1(3) by (auto simp: content_def owned_def)
  show thesis
  proof (cases "m_fn g")
    case None
    then have "content h b = None" using g by (simp add: content_def)
    moreover have "fn_wf (put a (fn_clear (fn_clear f)) h1)" by (rule fn_wf_put_empty [OF h1(2) b1(3)]) simp
    moreover have "content (put a (fn_clear (fn_clear f)) h1) = (content h)(a := None, b := None)"
      using b1(2) \<open>content h b = None\<close> by (simp add: content_put_empty fun_upd_idem)
    ultimately show thesis using None h1 b1 assms(4) f
      by (intro that [of "put a (fn_clear (fn_clear f)) h1"])
        (auto simp: fn_assign_move_def fn_bool_def)
  next
    case (Some t)
    obtain ob where ob: "content h1 b = Some ob" using content_typed [OF h1(2) b1(1) Some] by blast
    from fn_move_tail [OF h1(2) b1(1) Some b1(3) assms(4) ob, of "fn_clear f"] obtain h' where
      h': "rbind (run_mover a b g h1)
         (\<lambda>ob h. fn_reset b (put a (copy_meta_from g (fn_clear f\<lparr>m_object := Some ob\<rparr>)) h)) = Ok () h'"
      "fn_wf h'" "dom (fns h') = insert a (dom (fns h1))"
      "content h' = (content h1)(a \<mapsto> ob\<lparr>ob_id := next_id h1, ob_home := a\<rparr>, b := None)" by metis
    have "fn_assign_move a b h = Ok () h'"
      using Some h1 b1(1) assms(4) h'(1) by (simp add: fn_assign_move_def fn_bool_def)
    moreover have "dom (fns h') = dom (fns h)" using h'(3) h1(3) f by auto
    moreover have "content h b = Some ob" using ob b1(2) assms(4) by simp
    ultimately show thesis using that [of h'] h' b1(2) h1(4) by simp
  qed
qed

lemma fn_exec_Ok:
  assumes "fn_wf h" "fn_op_ok op h"
  shows "\<exists>h'. fn_exec op h = Ok () h' \<and> fn_wf h'"
proof (cases op)
  case (Ctor_null a)
  with assms have "fn_wf (put a (fn_clear function_default) h)"
    by (intro fn_wf_put_empty) (simp_all add: owned_def)
  with Ctor_null show ?thesis by (simp add: fn_ctor_null_def)
next
  case (Ctor_callable a t v)
  with assms have "fn_wf (put a function_default h)"
    by (intro fn_wf_put_empty) (simp_all add: owned_def)
  then show ?thesis using Ctor_callable fn_set_Ok [of "put a function_default h" a function_default t v]
    by (auto simp: fn_ctor_callable_def)
next
  case (Ctor_copy a b)
  show ?thesis by (rule fn_ctor_copy_Ok [OF assms(1), of a b]) (use assms(2) Ctor_copy in auto)
next
  case (Ctor_move a b)
  show ?thesis by (rule fn_ctor_move_Ok [OF assms(1), of a b]) (use assms(2) Ctor_move in auto)
next
  case (Assign_null a)
  with assms(2) obtain f where f: "fns h a = Some f" by auto
  show ?thesis by (rule fn_reset_Ok [OF assms(1) f]) (simp add: Assign_null fn_assign_null_def)
next
  case (Assign_callable a t v)
  with assms(2) obtain f where f: "fns h a = Some f" by auto
  then obtain h' where "fn_reset a h = Ok () h'" "fn_wf h'" "fns h' a = Some (fn_clear f)"
    using fn_reset_Ok [OF assms(1) f] by (metis fun_upd_same)
  then show ?thesis using Assign_callable fn_set_Ok [of h' a "fn_clear f" t v]
    by (auto simp: fn_assign_callable_def)
next
  case (Assign_copy tmp a b)
  show ?thesis
  proof (cases "a = b")
    case True
    with Assign_copy assms show ?thesis by (simp add: fn_assign_copy_def)
  next
    case False
    then show ?thesis by (rule fn_assign_copy_Ok [OF assms(1), of tmp a b, rotated 3]) (use assms(2) Assign_copy in auto)
  qed
next
  case (Assign_move a b)
  show ?thesis
  proof (cases "a = b")
    case True
    with Assign_move assms show ?thesis by (simp add: fn_assign_move_def)
  next
    case False
    then show ?thesis by (rule fn_assign_move_Ok [OF assms(1), of a b, rotated 2]) (use assms(2) Assign_move in auto)
  qed
next
  case (Swap a b)
  show ?thesis by (rule fn_swap_Ok [OF assms(1), of a b]) (use assms(2) Swap in auto)
next
  case (Reset a)
  with assms(2) obtain f where f: "fns h a = Some f" by auto
  show ?thesis by (rule fn_reset_Ok [OF assms(1) f]) (simp add: Reset)
next
  case (Dtor a)
  with assms(2) obtain f where f: "fns h a = Some f" by auto
  show ?thesis by (rule fn_dtor_Ok [OF assms(1) f]) (simp add: Dtor)
qed

lemma fn_wf_empty_heap: "fn_wf (fn_heap_empty :: 'v fn_heap)"
proof -
  have "owned (fn_heap_empty :: 'v fn_heap) = Map.empty" by (auto simp: owned_def fn_heap_empty_def)
  moreover have "fns (fn_heap_empty :: 'v fn_heap) = Map.empty" "live (fn_heap_empty :: 'v fn_heap) = {}"
    by (simp_all add: fn_heap_empty_def)
  ultimately show ?thesis by (simp add: fn_wf_def)
qed

lemma fn_prog_Ok:
  "fn_wf h \<Longrightarrow> fn_prog_ok ops h \<Longrightarrow> \<exists>h'. rfold fn_exec ops h = Ok () h' \<and> fn_wf h'"
proof (induction ops arbitrary: h)
  case (Cons op ops)
  then obtain h' where "fn_exec op h = Ok () h'" "fn_wf h'" using fn_exec_Ok by fastforce
  with Cons show ?case by simp
qed simp

lemma fn_wf_no_functions:
  assumes "fn_wf h" "fns h = Map.empty"
  shows "live h = {}"
proof -
  have "owned h = Map.empty" using assms(2) by (auto simp: owned_def)
  with assms(1) show ?thesis by (simp add: fn_wf_def)
qed

lemma fn_call_content:
  assumes "fn_wf h" "fns h a \<noteq> None"
  shows "fn_call a h = (case content h a of None \<Rightarrow> Throw Bad_function_call h | Some ob \<Rightarrow> Ok (ob_val ob) h)"
proof -
  obtain f where f: "fns h a = Some f" using assms(2) by blast
  show ?thesis
  proof (cases "m_fn f")
    case None
    with f show ?thesis by (simp add: fn_call_def content_def)
  next
    case (Some t)
    show ?thesis
      by (rule content_typed [OF assms(1) f Some]) (simp add: fn_call_def f Some)
  qed
qed

section \<open>Properties\<close>

text \<open>C6. Lifetimes are exact: any program of constructions, assignments, swaps, resets and destructions
  of \<open>function\<close> objects runs without undefined behaviour (no callable is destroyed twice or used after
  its destruction), the callables alive afterwards are exactly those owned by a non-empty \<open>function\<close>,
  each by one, and none is left once all \<open>function\<close> objects are destroyed.\<close>

theorem function_lifetimes_exact:
  assumes "fn_prog_ok ops fn_heap_empty"
  shows "\<exists>h. rfold fn_exec ops fn_heap_empty = Ok () h \<and> live h = ran (owned h) \<and>
    inj_on (owned h) (dom (owned h)) \<and> (fns h = Map.empty \<longrightarrow> live h = {})"
proof -
  obtain h where "rfold fn_exec ops fn_heap_empty = Ok () h" "fn_wf h"
    using fn_prog_Ok [OF fn_wf_empty_heap assms] by blast
  moreover from this(2) have "live h = ran (owned h)" "inj_on (owned h) (dom (owned h))"
    by (simp_all add: fn_wf_def)
  ultimately show ?thesis using fn_wf_no_functions [of h] by blast
qed

theorem function_lifetimes_exact_witness:
  "let ops = [Ctor_callable 1 7 (42::nat), Ctor_null 2, Assign_copy 9 2 1, Dtor 1, Dtor 2]
   in fn_prog_ok ops fn_heap_empty \<and> (\<exists>h. rfold fn_exec ops fn_heap_empty = Ok () h \<and> live h = {})"
proof -
  let ?ops = "[Ctor_callable 1 7 (42::nat), Ctor_null 2, Assign_copy 9 2 1, Dtor 1, Dtor 2]"
  note exec = fn_ctor_callable_def fn_ctor_null_def fn_assign_copy_def fn_dtor_def fn_set_def construct_def
    put_def function_default_def fn_clear_def fn_heap_empty_def fn_ctor_copy_def fn_bool_def run_copier_def
    copy_meta_from_def fn_swap_def destruct_def
  have ok: "fn_prog_ok ?ops fn_heap_empty" by (simp add: exec)
  then obtain h where h: "rfold fn_exec ?ops fn_heap_empty = Ok () h" "fns h = Map.empty \<longrightarrow> live h = {}"
    using function_lifetimes_exact [OF ok] by blast
  moreover have "fns (the_state (rfold fn_exec ?ops fn_heap_empty)) = Map.empty" by (simp add: exec)
  ultimately have "live h = {}" by simp
  with ok h(1) show ?thesis by (auto simp: Let_def)
qed

text \<open>C19. A move gives the target a callable with the source's value and empties the source; the
  callable that was stored in the source is destroyed, and the target's one is a new object at the
  target's address.\<close>

theorem move_destroys_source_callable:
  assumes "fn_wf h" "fns h a = None" "fns h b \<noteq> None" "content h b = Some ob"
  shows "\<exists>h' ob'. fn_ctor_move a b h = Ok () h' \<and> content h' a = Some ob' \<and> ob_val ob' = ob_val ob \<and>
    ob_home ob' = a \<and> ob_id ob' \<noteq> ob_id ob \<and> ob_id ob \<notin> live h' \<and> fn_call b h' = Throw Bad_function_call h'"
proof -
  have ab: "a \<noteq> b" using assms(2,3) by auto
  obtain h' where h': "fn_ctor_move a b h = Ok () h'" "fn_wf h'" "dom (fns h') = insert a (dom (fns h))"
    "content h' = (content h)(a \<mapsto> ob\<lparr>ob_id := next_id h, ob_home := a\<rparr>, b := None)" "ob_id ob \<notin> live h'"
    using fn_ctor_move_Ok [OF assms(1-3)] assms(4) by auto
  have "ob_id ob \<in> live h" using fn_wf_live [OF assms(1), of b] assms(4) by (simp add: owned_content)
  then have "ob_id ob \<noteq> next_id h" using fn_wf_fresh [OF assms(1)] by auto
  moreover have "fns h' b \<noteq> None" using h'(3) assms(3) by auto
  then have "fn_call b h' = Throw Bad_function_call h'"
    using fn_call_content [OF h'(2)] h'(4) by simp
  ultimately show ?thesis using h' ab by auto
qed

theorem move_destroys_source_callable_witness:
  "let h = the_state (fn_ctor_callable 1 7 (42::nat) fn_heap_empty);
       ob = \<lparr>ob_id = 0, ob_type = 7, ob_val = Some 42, ob_home = 1\<rparr>
   in \<exists>h' ob'. fn_ctor_move 2 1 h = Ok () h' \<and> content h' 2 = Some ob' \<and> ob_val ob' = ob_val ob \<and>
     ob_home ob' = 2 \<and> ob_id ob' \<noteq> ob_id ob \<and> ob_id ob \<notin> live h' \<and> fn_call 1 h' = Throw Bad_function_call h'"
proof -
  let ?h = "the_state (fn_ctor_callable 1 7 (42::nat) fn_heap_empty)"
  note defs = fn_ctor_callable_def fn_set_def construct_def put_def function_default_def fn_heap_empty_def
  have "fn_op_ok (Ctor_callable 1 7 (42::nat)) fn_heap_empty" by (simp add: fn_heap_empty_def)
  then have "fn_wf ?h" using fn_exec_Ok [OF fn_wf_empty_heap] by fastforce
  moreover have "fns ?h 2 = None" "fns ?h 1 \<noteq> None"
    "content ?h 1 = Some \<lparr>ob_id = 0, ob_type = 7, ob_val = Some 42, ob_home = 1\<rparr>"
    by (simp_all add: defs content_def)
  ultimately show ?thesis unfolding Let_def by (rule move_destroys_source_callable)
qed

text \<open>C20. Copy assignment makes both sides compute the same value, but the callable now stored in the
  target was constructed at the address of the temporary and moved over byte by byte: its address is
  not the one it was constructed at.\<close>

theorem copy_assignment_relocates_callable:
  assumes "fn_wf h" "fns h tmp = None" "fns h a \<noteq> None" "fns h b \<noteq> None" "a \<noteq> b" "content h b = Some ob"
  shows "\<exists>h' ob'. fn_assign_copy tmp a b h = Ok () h' \<and> content h' a = Some ob' \<and> content h' b = Some ob \<and>
    fn_call a h' = Ok (ob_val ob) h' \<and> fn_call b h' = Ok (ob_val ob) h' \<and> ob_home ob' = tmp \<and> tmp \<noteq> a"
proof -
  obtain h' where h': "fn_assign_copy tmp a b h = Ok () h'" "fn_wf h'" "dom (fns h') = dom (fns h)"
    "content h' = (content h)(a \<mapsto> ob\<lparr>ob_id := next_id h, ob_home := tmp\<rparr>)"
    using fn_assign_copy_Ok [OF assms(1-5)] assms(6) by auto
  then have "fns h' a \<noteq> None" "fns h' b \<noteq> None" using assms(3,4) by auto
  then show ?thesis using h' assms by (auto simp: fn_call_content [OF h'(2)])
qed

theorem copy_assignment_relocates_callable_witness:
  "let h = the_state (rfold fn_exec [Ctor_callable 1 7 (42::nat), Ctor_null 2] fn_heap_empty)
   in \<exists>h' ob'. fn_assign_copy 9 2 1 h = Ok () h' \<and> content h' 2 = Some ob' \<and>
     fn_call 2 h' = Ok (Some 42) h' \<and> ob_home ob' = 9"
proof -
  let ?ops = "[Ctor_callable 1 7 (42::nat), Ctor_null 2]"
  let ?h = "the_state (rfold fn_exec ?ops fn_heap_empty)"
  note defs = fn_ctor_callable_def fn_ctor_null_def fn_clear_def fn_set_def construct_def put_def
    function_default_def fn_heap_empty_def
  have "fn_prog_ok ?ops fn_heap_empty" by (simp add: defs)
  then have "fn_wf ?h" using fn_prog_Ok [OF fn_wf_empty_heap] by fastforce
  moreover have "fns ?h 9 = None" "fns ?h 2 \<noteq> None" "fns ?h 1 \<noteq> None" "(2::nat) \<noteq> 1"
    "content ?h 1 = Some \<lparr>ob_id = 0, ob_type = 7, ob_val = Some 42, ob_home = 1\<rparr>"
    by (simp_all add: defs content_def)
  ultimately show ?thesis
    using copy_assignment_relocates_callable [of ?h 9 2 1] by (fastforce simp: Let_def)
qed

section \<open>Storage\<close>

text \<open>The aliases of \<open>function\<close> and the size of their storage; \<open>set\<close> accepts a callable that fits.\<close>

datatype function_alias = Ulight_function | Light_function | Big_function | Large_function

fun storage_size :: "function_alias \<Rightarrow> nat" where
  "storage_size Ulight_function = 8"
| "storage_size Light_function = 24"
| "storage_size Big_function = 32"
| "storage_size Large_function = 64"

definition max_align :: nat where "max_align = 16"

definition callable_fits :: "function_alias \<Rightarrow> nat \<Rightarrow> nat \<Rightarrow> bool" where
  "callable_fits k sz al \<longleftrightarrow> storage_size k \<ge> sz \<and> max_align mod al = 0"

text \<open>The storage, four pointers, rounded up to the alignment.\<close>

definition sizeof_function :: "function_alias \<Rightarrow> nat" where
  "sizeof_function k = (storage_size k + 4 * 8 + max_align - 1) div max_align * max_align"

text \<open>
  A callable that captures a \<open>function\<close> of the same alias never fits into it, which is why the reactors queue
  removals instead of capturing the caller's \<open>done_cb\<close>; it fits into no smaller alias either.
\<close>

lemma function_never_fits_itself:
  "sizeof_function k \<le> sz \<Longrightarrow> storage_size k' \<le> storage_size k \<Longrightarrow> \<not> callable_fits k' sz al"
  by (cases k; cases k') (auto simp: callable_fits_def sizeof_function_def max_align_def)


end
