(* ===== verification/Bfc_Ordered_Map.thy ===== *)
theory Bfc_Ordered_Map
  imports Bfc_Prelude "HOL-Library.Product_Lexorder"
begin

text \<open>
  The associative containers of the C++ standard library that the components use.

  A \<open>std::map\<close> is the list of its nodes in iteration order, with strictly increasing keys; a
  \<open>std::unordered_map\<close> that is never iterated is a HOL map. What the components rely on is the locale
  \<open>keyed_store\<close>: what a lookup finds after an emplace and after an erase. Both containers are
  interpretations of it.
\<close>

section \<open>Ordered maps\<close>

type_synonym ('k, 'v) ordmap = "('k \<times> 'v) list"

definition om_wf :: "('k::linorder, 'v) ordmap \<Rightarrow> bool" where
  "om_wf m \<longleftrightarrow> sorted_wrt (<) (map fst m)"

fun om_find :: "'k \<Rightarrow> ('k::linorder, 'v) ordmap \<Rightarrow> 'v option" where
  "om_find k [] = None"
| "om_find k ((k', v) # m) = (if k = k' then Some v else om_find k m)"

text \<open>\<open>emplace\<close> and \<open>try_emplace\<close> leave an existing node alone; the result tells whether they inserted.\<close>

fun om_emplace :: "'k \<Rightarrow> 'v \<Rightarrow> ('k::linorder, 'v) ordmap \<Rightarrow> bool \<times> ('k, 'v) ordmap" where
  "om_emplace k v [] = (True, [(k, v)])"
| "om_emplace k v ((k', v') # m) =
     (if k < k' then (True, (k, v) # (k', v') # m)
      else if k = k' then (False, (k', v') # m)
      else (let (b, m) = om_emplace k v m in (b, (k', v') # m)))"

text \<open>\<open>erase(key)\<close> returns the number of nodes it removed, here whether there was one.\<close>

definition om_erase :: "'k \<Rightarrow> ('k::linorder, 'v) ordmap \<Rightarrow> bool \<times> ('k, 'v) ordmap" where
  "om_erase k m = (om_find k m \<noteq> None, filter (\<lambda>(k', v). k' \<noteq> k) m)"

section \<open>The interface of keyed containers\<close>

locale keyed_store =
  fixes lookup :: "'k \<Rightarrow> 'm \<Rightarrow> 'v option"
    and emplace :: "'k \<Rightarrow> 'v \<Rightarrow> 'm \<Rightarrow> bool \<times> 'm"
    and erase :: "'k \<Rightarrow> 'm \<Rightarrow> bool \<times> 'm"
    and invar :: "'m \<Rightarrow> bool"
  assumes emplace_invar: "invar m \<Longrightarrow> invar (snd (emplace k v m))"
    and erase_invar: "invar m \<Longrightarrow> invar (snd (erase k m))"
    and emplace_inserted: "invar m \<Longrightarrow> fst (emplace k v m) \<longleftrightarrow> lookup k m = None"
    and lookup_emplace: "invar m \<Longrightarrow>
      lookup k' (snd (emplace k v m)) = (if k' = k \<and> lookup k m = None then Some v else lookup k' m)"
    and erase_removed: "invar m \<Longrightarrow> fst (erase k m) \<longleftrightarrow> lookup k m \<noteq> None"
    and lookup_erase: "invar m \<Longrightarrow> lookup k' (snd (erase k m)) = (if k' = k then None else lookup k' m)"
begin

text \<open>The first emplace of a key wins until the key is erased.\<close>

lemma lookup_emplace_first:
  "invar m \<Longrightarrow> lookup k (snd (emplace k w (snd (emplace k v m)))) = lookup k (snd (emplace k v m))"
  by (simp add: lookup_emplace emplace_invar)

lemma lookup_emplace_other: "invar m \<Longrightarrow> k' \<noteq> k \<Longrightarrow> lookup k' (snd (emplace k v m)) = lookup k' m"
  by (simp add: lookup_emplace)

lemma emplace_after_erase:
  "invar m \<Longrightarrow> lookup k (snd (emplace k v (snd (erase k m)))) = Some v"
  by (simp add: lookup_emplace lookup_erase erase_invar)

lemma erase_twice: "invar m \<Longrightarrow> \<not> fst (erase k (snd (erase k m)))"
  by (simp add: erase_removed erase_invar lookup_erase)

lemma lookup_emplace_fold:
  "invar m \<Longrightarrow> lookup k m = Some v \<Longrightarrow> lookup k (fold (\<lambda>(a, b) m. snd (emplace a b m)) xs m) = Some v"
proof (induction xs arbitrary: m)
  case (Cons x xs)
  obtain a b where "x = (a, b)" by fastforce
  moreover have "invar (snd (emplace a b m))" using Cons.prems(1) by (rule emplace_invar)
  moreover have "lookup k (snd (emplace a b m)) = Some v" using Cons.prems by (auto simp: lookup_emplace)
  ultimately show ?case using Cons.IH by simp
qed simp

end

section \<open>Ordered maps are keyed stores\<close>

lemma om_wf_Cons: "om_wf ((k, v) # m) \<longleftrightarrow> (\<forall>k' \<in> fst ` set m. k < k') \<and> om_wf m"
  by (auto simp: om_wf_def)

lemma om_wf_Nil [simp]: "om_wf []"
  by (simp add: om_wf_def)

lemma om_find_None: "om_find k m = None \<longleftrightarrow> k \<notin> fst ` set m"
  by (induction k m rule: om_find.induct) auto

lemma om_find_Some: "om_wf m \<Longrightarrow> om_find k m = Some v \<longleftrightarrow> (k, v) \<in> set m"
  by (induction k m rule: om_find.induct) (force simp: om_wf_Cons)+

lemma set_om_emplace:
  "om_wf m \<Longrightarrow> set (snd (om_emplace k v m)) =
    (if k \<in> fst ` set m then set m else insert (k, v) (set m))"
proof (induction k v m rule: om_emplace.induct)
  case (2 k v k' v' m)
  show ?case
  proof (cases "k < k'")
    case True
    then have "k \<notin> fst ` set ((k', v') # m)" using "2.prems" by (fastforce simp: om_wf_Cons)
    with True show ?thesis by simp
  next
    case False
    with 2 show ?thesis by (cases "k = k'") (auto simp: om_wf_Cons case_prod_beta)
  qed
qed simp

lemma keys_om_emplace: "om_wf m \<Longrightarrow> fst ` set (snd (om_emplace k v m)) = insert k (fst ` set m)"
  by (auto simp: set_om_emplace image_iff)

lemma om_emplace_wf [wf_intros]: "om_wf m \<Longrightarrow> om_wf (snd (om_emplace k v m))"
proof (induction k v m rule: om_emplace.induct)
  case (2 k v k' v' m)
  then have wf: "om_wf m" by (simp add: om_wf_Cons)
  show ?case
  proof (cases "k \<le> k'")
    case True
    with "2.prems" show ?thesis by (fastforce simp: om_wf_Cons)
  next
    case False
    then have "k' < k" by simp
    with 2 wf show ?thesis
      by (auto simp: case_prod_beta om_wf_Cons [of k' v' "snd (om_emplace k v m)"] keys_om_emplace om_wf_Cons)
  qed
qed (simp add: om_wf_Cons)

lemma om_emplace_inserted: "om_wf m \<Longrightarrow> fst (om_emplace k v m) \<longleftrightarrow> om_find k m = None"
proof (induction k v m rule: om_emplace.induct)
  case (2 k v k' v' m)
  show ?case
  proof (cases "k < k'")
    case True
    then have "k \<notin> fst ` set ((k', v') # m)" using "2.prems" by (fastforce simp: om_wf_Cons)
    with True show ?thesis by (simp only: om_find_None) simp
  next
    case False
    with 2 show ?thesis by (auto simp: om_wf_Cons case_prod_beta)
  qed
qed simp

lemma om_erase_wf [wf_intros]: "om_wf m \<Longrightarrow> om_wf (snd (om_erase k m))"
  by (induction m) (auto simp: om_wf_Cons om_erase_def)

interpretation om: keyed_store om_find om_emplace om_erase om_wf
proof
  fix m :: "('k::linorder, 'v) ordmap" and k k' v
  assume wf: "om_wf m"
  show "om_wf (snd (om_emplace k v m))" by (rule om_emplace_wf [OF wf])
  show "om_wf (snd (om_erase k m))" by (rule om_erase_wf [OF wf])
  show "fst (om_emplace k v m) \<longleftrightarrow> om_find k m = None" by (rule om_emplace_inserted [OF wf])
  show "fst (om_erase k m) \<longleftrightarrow> om_find k m \<noteq> None" by (simp add: om_erase_def)
  have "om_find k' (snd (om_emplace k v m)) = Some w \<longleftrightarrow>
      (if k' = k \<and> om_find k m = None then Some v else om_find k' m) = Some w" for w
    using wf om_emplace_wf [OF wf, of k v]
    by (auto simp: om_find_Some set_om_emplace om_find_None split: if_splits) (force simp: om_find_Some)+
  then show "om_find k' (snd (om_emplace k v m)) =
      (if k' = k \<and> om_find k m = None then Some v else om_find k' m)"
    by (metis not_None_eq)
  have "om_find k' (snd (om_erase k m)) = Some w \<longleftrightarrow> (if k' = k then None else om_find k' m) = Some w" for w
    using wf om_erase_wf [OF wf, of k] by (auto simp: om_find_Some) (auto simp: om_erase_def)
  then show "om_find k' (snd (om_erase k m)) = (if k' = k then None else om_find k' m)"
    by (metis not_None_eq)
qed

section \<open>Unordered maps\<close>

definition um_find :: "'k \<Rightarrow> ('k \<rightharpoonup> 'v) \<Rightarrow> 'v option" where
  "um_find k m = m k"

definition um_emplace :: "'k \<Rightarrow> 'v \<Rightarrow> ('k \<rightharpoonup> 'v) \<Rightarrow> bool \<times> ('k \<rightharpoonup> 'v)" where
  "um_emplace k v m = (case m k of None \<Rightarrow> (True, m(k \<mapsto> v)) | Some _ \<Rightarrow> (False, m))"

definition um_erase :: "'k \<Rightarrow> ('k \<rightharpoonup> 'v) \<Rightarrow> bool \<times> ('k \<rightharpoonup> 'v)" where
  "um_erase k m = (m k \<noteq> None, m(k := None))"

interpretation um: keyed_store um_find um_emplace um_erase "\<lambda>_. True"
  by unfold_locales (auto simp: um_find_def um_emplace_def um_erase_def split: option.splits)

end
