(* ===== verification/Bfc_Timer.thy ===== *)
theory Bfc_Timer
  imports Bfc_Ordered_Map "HOL-Library.Multiset"
begin

text \<open>
  The timer of \<open>src/src/bfc/timer.hpp\<close>: an ordered map from identifiers (deadline, counter) to
  callbacks. A callback is an option, \<open>None\<close> for an empty \<open>light_function\<close>. Deadlines are \<open>int64_t\<close>:
  an addition or multiplication that leaves the range is undefined behaviour. The counter is a 64-bit
  word that wraps. Every operation runs under \<open>m_cb_map_mtx\<close>; \<open>schedule\<close> takes the due nodes out of the
  map under the lock and calls them after it released it, so the calls may use the timer again.
\<close>

type_synonym timer_id = "int \<times> u64"

record 'c timer =
  m_timer_ctr :: u64
  m_cb_map :: "(timer_id, 'c option) ordmap"

definition timer_new :: "'c timer" where
  "timer_new = \<lparr>m_timer_ctr = 0, m_cb_map = []\<rparr>"

definition wait_us :: "int \<Rightarrow> 'c option \<Rightarrow> int \<Rightarrow> 'c timer \<Rightarrow> ('c timer, timer_id) result" where
  "wait_us for_us cb now_us t =
     (let next_us = now_us + for_us in
      if \<not> int64_ok next_us then Throw Undefined_behaviour t
      else
        (let timer_id = m_timer_ctr t;
             t = t\<lparr>m_timer_ctr := m_timer_ctr t + 1\<rparr>;
             rv = (next_us, timer_id)
         in Ok rv (t\<lparr>m_cb_map := snd (om_emplace rv cb (m_cb_map t))\<rparr>)))"

definition wait_ms :: "int \<Rightarrow> 'c option \<Rightarrow> int \<Rightarrow> 'c timer \<Rightarrow> ('c timer, timer_id) result" where
  "wait_ms for_ms cb now_us t =
     (if \<not> int64_ok (for_ms * 1000) then Throw Undefined_behaviour t
      else wait_us (for_ms * 1000) cb now_us t)"

text \<open>The deadline written through the reference, \<open>None\<close> when the function returns false.\<close>

definition get_next_deadline_us :: "'c timer \<Rightarrow> int option" where
  "get_next_deadline_us t =
     (case m_cb_map t of [] \<Rightarrow> None | (((deadline, _), _) # _) \<Rightarrow> Some deadline)"

definition get_next_deadline_ms :: "'c timer \<Rightarrow> int option" where
  "get_next_deadline_ms t = get_next_deadline_us t"

definition cancel :: "timer_id \<Rightarrow> 'c timer \<Rightarrow> bool \<times> 'c timer" where
  "cancel i t = (let (b, m) = om_erase i (m_cb_map t) in (b, t\<lparr>m_cb_map := m\<rparr>))"

text \<open>The loop of \<open>schedule\<close> under the lock: nodes are extracted from the front while they are due.\<close>

fun extract_due :: "int \<Rightarrow> (timer_id, 'c) ordmap \<Rightarrow> (timer_id, 'c) ordmap \<times> (timer_id, 'c) ordmap" where
  "extract_due now_us [] = ([], [])"
| "extract_due now_us (((deadline, ctr), cb) # m) =
     (if now_us \<ge> deadline
      then (let (extracted, m) = extract_due now_us m in (((deadline, ctr), cb) # extracted, m))
      else ([], ((deadline, ctr), cb) # m))"

definition timer_extract :: "int \<Rightarrow> 'c timer \<Rightarrow> (timer_id, 'c option) ordmap \<times> 'c timer" where
  "timer_extract now_us t =
     (let (extracted, m) = extract_due now_us (m_cb_map t) in (extracted, t\<lparr>m_cb_map := m\<rparr>))"

text \<open>
  \<open>schedule\<close> for a timer that is a member of a host object: \<open>get\<close> and \<open>put\<close> reach the timer inside the
  host state, \<open>call\<close> is what a callback does to the host. Calling an empty callback throws.
\<close>

definition schedule ::
    "('s \<Rightarrow> 'c timer) \<Rightarrow> ('c timer \<Rightarrow> 's \<Rightarrow> 's) \<Rightarrow> ('c \<Rightarrow> 's \<Rightarrow> ('s, unit) result) \<Rightarrow> int \<Rightarrow> 's \<Rightarrow>
      ('s, unit) result" where
  "schedule get put call now_us s =
     (let (extracted, t) = timer_extract now_us (get s) in
      rfold (\<lambda>(_, cb) s. case cb of None \<Rightarrow> Throw Bad_function_call s | Some c \<Rightarrow> call c s)
        extracted (put t s))"

text \<open>
  The clock: \<open>steady_clock\<close> counts nanoseconds since its epoch, and \<open>duration_cast\<close> divides towards zero. The value of
  \<open>current_time_ms\<close> is in microseconds too.
\<close>

definition current_time_us :: "int \<Rightarrow> int" where
  "current_time_us steady_clock_ns = sgn steady_clock_ns * (\<bar>steady_clock_ns\<bar> div 1000)"

definition current_time_ms :: "int \<Rightarrow> int" where
  "current_time_ms steady_clock_ns = current_time_us steady_clock_ns"

section \<open>Sequences of operations\<close>

text \<open>
  A use of the timer by any number of threads and callbacks, in the steps in which it takes and releases the lock:
  \<open>wait_us\<close> and \<open>cancel\<close> are one critical section; \<open>schedule\<close> is one that takes the due nodes out, followed by
  one call after the other without the lock, so any step can fall between two of them. \<open>tu_passes\<close> holds for
  each call of \<open>schedule\<close> the nodes it took out and has not called yet; \<open>Fire n\<close> is the next call of pass \<open>n\<close>.
  \<open>tu_issued\<close>, \<open>tu_cancelled\<close> (by a \<open>cancel\<close> that returned true) and \<open>tu_fired\<close> are history.
\<close>

record 'c timer_use =
  tu_timer :: "'c timer"
  tu_passes :: "(timer_id, 'c option) ordmap list"
  tu_issued :: "timer_id list"
  tu_cancelled :: "timer_id list"
  tu_fired :: "(timer_id, 'c option) ordmap"

definition timer_start :: "'c timer_use" where
  "timer_start = \<lparr>tu_timer = timer_new, tu_passes = [], tu_issued = [], tu_cancelled = [], tu_fired = []\<rparr>"

datatype 'c timer_op = Wait int "'c option" int | Cancel timer_id | Schedule int | Fire nat

fun timer_step :: "'c timer_op \<Rightarrow> 'c timer_use \<Rightarrow> 'c timer_use" where
  "timer_step (Wait for_us cb now_us) u =
     (case wait_us for_us cb now_us (tu_timer u) of
        Ok i t \<Rightarrow> u\<lparr>tu_timer := t, tu_issued := tu_issued u @ [i]\<rparr>
      | Throw _ _ \<Rightarrow> u)"
| "timer_step (Cancel i) u =
     (let (b, t) = cancel i (tu_timer u)
      in u\<lparr>tu_timer := t, tu_cancelled := (if b then tu_cancelled u @ [i] else tu_cancelled u)\<rparr>)"
| "timer_step (Schedule now_us) u =
     (let (extracted, t) = timer_extract now_us (tu_timer u)
      in u\<lparr>tu_timer := t, tu_passes := tu_passes u @ [extracted]\<rparr>)"
| "timer_step (Fire n) u =
     (if n < length (tu_passes u) then
        (case tu_passes u ! n of
           [] \<Rightarrow> u
         | x # xs \<Rightarrow> u\<lparr>tu_passes := (tu_passes u)[n := xs], tu_fired := tu_fired u @ [x]\<rparr>)
      else u)"

definition timer_run :: "'c timer_op list \<Rightarrow> 'c timer_use \<Rightarrow> 'c timer_use" where
  "timer_run = fold timer_step"

text \<open>The nodes that some pass took out, called or not.\<close>

definition tu_taken :: "'c timer_use \<Rightarrow> (timer_id, 'c option) ordmap" where
  "tu_taken u = concat (tu_passes u) @ tu_fired u"

section \<open>Invariant\<close>

text \<open>
  The map is ordered and every identifier in it was issued, that is, its counter is below the next
  one. This holds until the 64-bit counter wraps.
\<close>

definition timer_wf :: "'c timer \<Rightarrow> bool" where
  "timer_wf t \<longleftrightarrow> om_wf (m_cb_map t) \<and> (\<forall>i \<in> fst ` set (m_cb_map t). snd i < m_timer_ctr t)"

definition room :: "nat \<Rightarrow> 'c timer \<Rightarrow> bool" where
  "room n t \<longleftrightarrow> unat (m_timer_ctr t) + n < 2 ^ 64"

lemma ctr_step:
  assumes "room (Suc n) t"
  shows "c < m_timer_ctr t + 1 \<longleftrightarrow> c \<le> m_timer_ctr t" "m_timer_ctr t < m_timer_ctr t + 1"
    "unat (m_timer_ctr t + 1) = Suc (unat (m_timer_ctr t))"
proof -
  show u: "unat (m_timer_ctr t + 1) = Suc (unat (m_timer_ctr t))"
    by (rule unat_plus1) (use assms in \<open>simp add: room_def\<close>)
  show "c < m_timer_ctr t + 1 \<longleftrightarrow> c \<le> m_timer_ctr t" "m_timer_ctr t < m_timer_ctr t + 1"
    by (simp_all add: word_less_nat_alt word_le_nat_alt u less_Suc_eq_le)
qed

lemma timer_wf_new: "timer_wf timer_new"
  by (simp add: timer_wf_def timer_new_def)

lemma timer_wf_fresh: "timer_wf t \<Longrightarrow> om_find (d, m_timer_ctr t) (m_cb_map t) = None"
  by (force simp: timer_wf_def om_find_None)

lemma wait_us_Ok:
  assumes "int64_ok (now_us + for_us)"
  shows "wait_us for_us cb now_us t =
    Ok (now_us + for_us, m_timer_ctr t)
      (t\<lparr>m_timer_ctr := m_timer_ctr t + 1,
         m_cb_map := snd (om_emplace (now_us + for_us, m_timer_ctr t) cb (m_cb_map t))\<rparr>)"
  using assms by (simp add: wait_us_def Let_def)

lemma wait_us_wf [wf_intros]:
  assumes "timer_wf t" "room (Suc n) t"
  shows "timer_wf (the_state (wait_us for_us cb now_us t))"
proof (cases "int64_ok (now_us + for_us)")
  case True
  have "om_wf (m_cb_map t)" using assms(1) by (simp add: timer_wf_def)
  then show ?thesis using assms(1) unfolding wait_us_Ok [OF True]
    by (auto simp: timer_wf_def keys_om_emplace om_emplace_wf ctr_step [OF assms(2)])
qed (use assms(1) in \<open>simp add: wait_us_def\<close>)

lemma cancel_wf [wf_intros]: "timer_wf t \<Longrightarrow> timer_wf (snd (cancel i t))"
  by (auto simp: timer_wf_def cancel_def om_erase_def om_wf_def sorted_wrt_filter sorted_wrt_map
      case_prod_beta split: prod.splits)

text \<open>Extraction splits the ordered map at the clock.\<close>

lemma extract_due_split:
  assumes "om_wf m"
  shows "extract_due now_us m =
    (filter (\<lambda>((d, _), _). d \<le> now_us) m, filter (\<lambda>((d, _), _). \<not> d \<le> now_us) m)"
  using assms
proof (induction now_us m rule: extract_due.induct)
  case (2 now_us deadline ctr cb m)
  show ?case
  proof (cases "deadline \<le> now_us")
    case True
    with 2 show ?thesis by (simp add: om_wf_Cons)
  next
    case False
    have "deadline \<le> d" if "((d, c), x) \<in> set m" for d c x
      using "2.prems" that by (force simp: om_wf_Cons less_prod_def)
    with False have none: "\<forall>x \<in> set m. \<not> (case x of ((d, _), _) \<Rightarrow> d \<le> now_us)" by force
    have "filter (\<lambda>((d, _), _). d \<le> now_us) m = []" "filter (\<lambda>((d, _), _). \<not> d \<le> now_us) m = m"
      using none by (auto simp: filter_empty_conv filter_id_conv)
    with False show ?thesis by simp
  qed
qed simp

lemma timer_extract_split:
  assumes "timer_wf t"
  shows "timer_extract now_us t =
    (filter (\<lambda>((d, _), _). d \<le> now_us) (m_cb_map t),
     t\<lparr>m_cb_map := filter (\<lambda>((d, _), _). \<not> d \<le> now_us) (m_cb_map t)\<rparr>)"
  using assms by (simp add: timer_extract_def extract_due_split timer_wf_def)

lemma om_wf_filter: "om_wf m \<Longrightarrow> om_wf (filter P m)"
  by (simp add: om_wf_def sorted_wrt_filter sorted_wrt_map)

lemma timer_extract_wf [wf_intros]: "timer_wf t \<Longrightarrow> timer_wf (snd (timer_extract now_us t))"
  by (auto simp: timer_extract_split) (auto simp: timer_wf_def om_wf_filter)

section \<open>Accounts\<close>

text \<open>
  Every issued identifier is pending, taken out, fired or cancelled, exactly one of these and once.
\<close>

definition timer_accounts :: "'c timer_use \<Rightarrow> bool" where
  "timer_accounts u \<longleftrightarrow> timer_wf (tu_timer u) \<and> distinct (tu_issued u) \<and>
     (\<forall>i \<in> set (tu_issued u). snd i < m_timer_ctr (tu_timer u)) \<and>
     mset (tu_issued u) = mset (map fst (m_cb_map (tu_timer u))) + mset (map fst (tu_taken u)) + mset (tu_cancelled u)"

lemma om_keys_mset: "om_wf m \<Longrightarrow> image_mset fst (mset m) = mset_set (fst ` set m)"
  by (metis list.set_map mset_map mset_set_set om_wf_def strict_sorted_iff)

lemma emplace_keys_mset:
  assumes "om_wf m" "k \<notin> fst ` set m"
  shows "mset (map fst (snd (om_emplace k v m))) = add_mset k (mset (map fst m))"
  using assms by (simp add: om_keys_mset om_emplace_wf keys_om_emplace)

lemma erase_keys_mset:
  assumes "om_wf m" "om_erase k m = (b, m')"
  shows "mset (map fst m) = mset (map fst m') + (if b then {#k#} else {#})" "b \<longleftrightarrow> k \<in> fst ` set m"
proof -
  have m': "m' = filter (\<lambda>(k', _). k' \<noteq> k) m" and b: "b \<longleftrightarrow> k \<in> fst ` set m"
    using assms(2) by (auto simp: om_erase_def om_find_None)
  have "om_wf m'" using assms(1) unfolding m' by (simp add: om_wf_def sorted_wrt_filter sorted_wrt_map)
  moreover have "fst ` set m' = fst ` set m - {k}" unfolding m' by auto
  ultimately show "mset (map fst m) = mset (map fst m') + (if b then {#k#} else {#})"
    using assms(1) b mset_set.remove [of "fst ` set m" k] by (simp add: om_keys_mset)
  show "b \<longleftrightarrow> k \<in> fst ` set m" by (rule b)
qed

lemma mset_concat_update:
  "n < length xss \<Longrightarrow> mset (concat (xss[n := ys])) + mset (xss ! n) = mset (concat xss) + mset ys"
  by (induction xss arbitrary: n) (auto split: nat.split)

lemma concat_update_keys:
  "n < length xss \<Longrightarrow> xss ! n = x # xs \<Longrightarrow>
    image_mset f (mset (concat xss)) = add_mset (f x) (image_mset f (mset (concat (xss[n := xs]))))"
  using arg_cong [OF mset_concat_update, of n xss "image_mset f" xs] by simp

lemma extract_keys_mset:
  assumes "timer_wf t" "timer_extract now_us t = (ex, t')"
  shows "mset (map fst (m_cb_map t)) = mset (map fst ex) + mset (map fst (m_cb_map t'))" "m_timer_ctr t' = m_timer_ctr t"
proof -
  let ?due = "\<lambda>((d, _), _). d \<le> now_us"
  have "mset (m_cb_map t) = filter_mset ?due (mset (m_cb_map t)) + filter_mset (\<lambda>x. \<not> ?due x) (mset (m_cb_map t))"
    by (rule multiset_partition)
  then have "mset (m_cb_map t) = mset ex + mset (m_cb_map t')"
    using assms(2) by (auto simp: timer_extract_split [OF assms(1)] case_prod_beta)
  then show "mset (map fst (m_cb_map t)) = mset (map fst ex) + mset (map fst (m_cb_map t'))" by simp
  show "m_timer_ctr t' = m_timer_ctr t" using assms(2) by (auto simp: timer_extract_def split: prod.splits)
qed

lemma accounts_wait:
  assumes "timer_accounts u" "room (Suc n) (tu_timer u)" "wait_us for_us cb now_us (tu_timer u) = Ok i t"
  shows "timer_accounts (u\<lparr>tu_timer := t, tu_issued := tu_issued u @ [i]\<rparr>)" "room n t"
proof -
  let ?t = "tu_timer u"
  have ok: "int64_ok (now_us + for_us)" using assms(3) by (auto simp: wait_us_def Let_def split: if_splits)
  have i: "i = (now_us + for_us, m_timer_ctr ?t)" and t: "t = the_state (wait_us for_us cb now_us ?t)"
    and ctr: "m_timer_ctr t = m_timer_ctr ?t + 1" and m: "m_cb_map t = snd (om_emplace i cb (m_cb_map ?t))"
    using assms(3) unfolding wait_us_Ok [OF ok] by auto
  have wf: "timer_wf ?t" "om_wf (m_cb_map ?t)" using assms(1) by (simp_all add: timer_accounts_def timer_wf_def)
  have new: "i \<notin> set (tu_issued u)" "i \<notin> fst ` set (m_cb_map ?t)"
    using assms(1) wf(1) by (auto simp: timer_accounts_def timer_wf_def i)
  have "timer_wf t" unfolding t by (rule wait_us_wf [OF wf(1) assms(2)])
  then show "timer_accounts (u\<lparr>tu_timer := t, tu_issued := tu_issued u @ [i]\<rparr>)"
    using assms(1) new emplace_keys_mset [OF wf(2) new(2), of cb] ctr_step(1) [OF assms(2)]
    by (auto simp: timer_accounts_def m ctr i tu_taken_def less_imp_le)
  show "room n t" using assms(2) ctr_step(3) [OF assms(2)] by (simp add: room_def ctr)
qed

lemma timer_step_accounts:
  assumes "timer_accounts u" "room (Suc n) (tu_timer u)"
  shows "timer_accounts (timer_step op u) \<and> room n (tu_timer (timer_step op u))"
proof (cases op)
  case (Wait for_us cb now_us)
  then show ?thesis using assms accounts_wait [OF assms, of for_us cb now_us]
    by (auto simp: room_def split: result.split)
next
  case (Cancel i)
  obtain b m where e: "om_erase i (m_cb_map (tu_timer u)) = (b, m)" by fastforce
  have "om_wf (m_cb_map (tu_timer u))" using assms(1) by (simp add: timer_accounts_def timer_wf_def)
  then show ?thesis
    using Cancel assms erase_keys_mset [OF _ e] cancel_wf [of "tu_timer u" i]
    by (auto simp: cancel_def e timer_accounts_def tu_taken_def room_def)
next
  case (Schedule now_us)
  obtain ex t where e: "timer_extract now_us (tu_timer u) = (ex, t)" by fastforce
  have "timer_wf (tu_timer u)" using assms(1) by (simp add: timer_accounts_def)
  then show ?thesis
    using Schedule assms extract_keys_mset [OF _ e] timer_extract_wf [of "tu_timer u" now_us]
    by (auto simp: e timer_accounts_def tu_taken_def room_def)
next
  case (Fire k)
  then show ?thesis
    using assms concat_update_keys [of k "tu_passes u" _ _ fst]
    by (auto simp: timer_accounts_def tu_taken_def room_def split: list.split)
qed

lemma timer_run_accounts:
  assumes "timer_accounts u" "room (length ops + n) (tu_timer u)"
  shows "timer_accounts (timer_run ops u) \<and> room n (tu_timer (timer_run ops u))"
  using assms
proof (induction ops arbitrary: u)
  case (Cons op ops)
  then have "timer_accounts (timer_step op u) \<and> room (length ops + n) (tu_timer (timer_step op u))"
    by (intro timer_step_accounts) auto
  then show ?case using Cons.IH by (simp add: timer_run_def)
qed (simp add: timer_run_def)

lemma timer_start_accounts: "timer_accounts timer_start"
  by (simp add: timer_accounts_def timer_start_def timer_new_def timer_wf_def tu_taken_def)

lemma timer_start_run:
  assumes "length ops + n < 2 ^ 64"
  shows "timer_accounts (timer_run ops timer_start)" "room n (tu_timer (timer_run ops timer_start))"
  using timer_run_accounts [OF timer_start_accounts, of ops n] assms
  by (simp_all add: room_def timer_start_def timer_new_def)

lemma accounts_disjoint:
  assumes "timer_accounts u"
  shows "distinct (map fst (m_cb_map (tu_timer u)) @ map fst (tu_taken u) @ tu_cancelled u)"
    and "set (tu_issued u) = fst ` set (m_cb_map (tu_timer u)) \<union> fst ` set (tu_taken u) \<union> set (tu_cancelled u)"
proof -
  have m: "mset (tu_issued u) = mset (map fst (m_cb_map (tu_timer u)) @ map fst (tu_taken u) @ tu_cancelled u)"
    using assms by (simp add: timer_accounts_def)
  show "distinct (map fst (m_cb_map (tu_timer u)) @ map fst (tu_taken u) @ tu_cancelled u)"
    using assms mset_eq_imp_distinct_iff [OF m] by (simp add: timer_accounts_def)
  show "set (tu_issued u) = fst ` set (m_cb_map (tu_timer u)) \<union> fst ` set (tu_taken u) \<union> set (tu_cancelled u)"
    using mset_eq_setD [OF m] by auto
qed

text \<open>What a pass took out stays taken out, and what was cancelled stays cancelled.\<close>

lemma timer_step_keeps:
  "set (tu_taken u) \<subseteq> set (tu_taken (timer_step op u)) \<and> set (tu_cancelled u) \<subseteq> set (tu_cancelled (timer_step op u))"
proof (cases op)
  case (Fire n)
  show ?thesis
  proof (cases "n < length (tu_passes u) \<and> tu_passes u ! n \<noteq> []")
    case True
    then obtain x xs where x: "tu_passes u ! n = x # xs" by (cases "tu_passes u ! n") auto
    have "set_mset (mset (concat ((tu_passes u)[n := xs])) + mset (tu_passes u ! n)) = set_mset (mset (concat (tu_passes u)) + mset xs)"
      using mset_concat_update [of n "tu_passes u" xs] True by simp
    then have "set (concat (tu_passes u)) \<subseteq> set (concat ((tu_passes u)[n := xs])) \<union> {x}"
      using nth_mem [of n "(tu_passes u)[n := xs]"] True by (auto simp: x)
    then show ?thesis using Fire True x by (auto simp: tu_taken_def)
  qed (use Fire in \<open>auto split: list.split\<close>)
qed (auto simp: tu_taken_def split: result.split prod.split)

lemma timer_run_keeps:
  "set (tu_taken u) \<subseteq> set (tu_taken (timer_run ops u)) \<and> set (tu_cancelled u) \<subseteq> set (tu_cancelled (timer_run ops u))"
  by (induction ops arbitrary: u) (use timer_step_keeps in \<open>fastforce simp: timer_run_def\<close>)+

section \<open>Properties\<close>

lemma rfold_calls:
  assumes "\<forall>(i, cb) \<in> set xs. cb \<noteq> None"
  shows "rfold (\<lambda>(_, cb) s. case cb of None \<Rightarrow> Throw Bad_function_call s
      | Some c \<Rightarrow> (\<lambda>(t, log). Ok () (effect c t, log @ [c])) s) xs (t, log) =
    Ok () (fold effect (map (the \<circ> snd) xs) t, log @ map (the \<circ> snd) xs)"
  using assms
proof (induction xs arbitrary: t log)
  case (Cons x xs)
  then obtain i c where "x = (i, Some c)" by (cases x) auto
  with Cons show ?case by simp
qed simp

text \<open>C7. \<open>schedule\<close> takes exactly the timers whose deadline has passed out of the map and calls their callbacks, in the
  order of their deadlines and of their registration among equal deadlines, whatever the callbacks do to
  the timer: the first one finds the timer without any of the due ones, each later one what those before
  it left, and one that re-arms itself is not called again in the same pass.\<close>

theorem schedule_calls_due_in_order:
  assumes "timer_wf t" "\<forall>(i, cb) \<in> set (m_cb_map t). fst i \<le> now_us \<longrightarrow> cb \<noteq> None"
  shows "schedule fst (\<lambda>t s. (t, snd s)) (\<lambda>c (t, log). Ok () (effect c t, log @ [c])) now_us (t, []) =
      Ok () (fold effect (map (the \<circ> snd) (filter (\<lambda>(i, _). fst i \<le> now_us) (m_cb_map t)))
               (t\<lparr>m_cb_map := filter (\<lambda>(i, _). \<not> fst i \<le> now_us) (m_cb_map t)\<rparr>),
             map (the \<circ> snd) (filter (\<lambda>(i, _). fst i \<le> now_us) (m_cb_map t)))
    \<and> sorted_wrt (<) (map fst (filter (\<lambda>(i, _). fst i \<le> now_us) (m_cb_map t)))"
proof -
  let ?due = "filter (\<lambda>(i, _). fst i \<le> now_us) (m_cb_map t)"
  have eq: "filter (\<lambda>((d, _), _). d \<le> now_us) (m_cb_map t) = ?due"
    "filter (\<lambda>((d, _), _). \<not> d \<le> now_us) (m_cb_map t) = filter (\<lambda>(i, _). \<not> fst i \<le> now_us) (m_cb_map t)"
    by (rule filter_cong; auto)+
  have "\<forall>(i, cb) \<in> set ?due. cb \<noteq> None" using assms(2) by auto
  then have "schedule fst (\<lambda>t s. (t, snd s)) (\<lambda>c (t, log). Ok () (effect c t, log @ [c])) now_us (t, []) =
      Ok () (fold effect (map (the \<circ> snd) ?due) (t\<lparr>m_cb_map := filter (\<lambda>(i, _). \<not> fst i \<le> now_us) (m_cb_map t)\<rparr>),
        map (the \<circ> snd) ?due)"
    unfolding schedule_def timer_extract_split [OF assms(1)] eq fst_conv by (simp add: rfold_calls)
  moreover have "om_wf ?due" using assms(1) by (simp add: timer_wf_def om_wf_filter)
  ultimately show ?thesis by (simp add: om_wf_def)
qed

text \<open>Two timers are due, a third is not; each callback arms itself again.\<close>

theorem schedule_calls_due_in_order_witness:
  "let t = the_state (wait_us 50 (Some 7) 10 (the_state (wait_us 200 (Some (2::nat)) 10 (the_state (wait_us 900 (Some 3) 10 timer_new)))));
       arm = \<lambda>c t. the_state (wait_us 0 (Some c) 10 t)
   in schedule fst (\<lambda>t s. (t, snd s)) (\<lambda>c (t, log). Ok () (arm c t, log @ [c])) 310 (t, []) =
      Ok () (arm 2 (arm 7 (t\<lparr>m_cb_map := [((910, 0), Some 3)]\<rparr>)), [7, 2])"
proof -
  let ?t0 = "timer_new :: nat timer"
  let ?t = "the_state (wait_us 50 (Some 7) 10 (the_state (wait_us 200 (Some 2) 10 (the_state (wait_us 900 (Some 3) 10 ?t0)))))"
  have m: "m_cb_map ?t = [((60, 2), Some 7), ((210, 1), Some 2), ((910, 0), Some 3)]"
    by (simp add: wait_us_Ok timer_new_def int64_ok_def)
  have "timer_wf ?t"
    by (intro wait_us_wf [of _ 1] wait_us_wf [of _ 2] wait_us_wf [of _ 3] timer_wf_new)
      (simp_all add: wait_us_Ok room_def timer_new_def int64_ok_def)
  moreover have "\<forall>(i, cb) \<in> set (m_cb_map ?t). fst i \<le> 310 \<longrightarrow> cb \<noteq> None" unfolding m by simp
  ultimately show ?thesis
    using schedule_calls_due_in_order [of ?t 310 "\<lambda>c t. the_state (wait_us 0 (Some c) 10 t)"]
    unfolding m by (simp add: Let_def)
qed

text \<open>C21. Over any sequence of fewer than \<open>2 ^ 64\<close> uses of a new timer, by any threads and callbacks, every identifier
  fires at most once.\<close>

theorem timers_fire_at_most_once:
  assumes "length ops < 2 ^ 64"
  shows "distinct (map fst (tu_fired (timer_run ops timer_start)))"
  using accounts_disjoint(1) [OF timer_start_run(1) [of ops 0]] assms by (simp add: tu_taken_def)

theorem timers_fire_at_most_once_witness:
  "distinct (map fst (tu_fired (timer_run [Wait 5 (Some (7::nat)) 0, Schedule 10, Schedule 20, Fire 0, Fire 1] timer_start)))"
  by (rule timers_fire_at_most_once) simp

text \<open>C22. What \<open>cancel\<close> returns decides whether the timer fires. After any uses of the timer, with any passes of
  \<open>schedule\<close> under way, and for an identifier that was issued: when \<open>cancel\<close> returns true the timer has not
  fired and no later use fires it; when it returns false and the timer was not cancelled before, a pass
  has already taken it out, it has fired or that pass will still call it, and nothing done later
  prevents that: once the passes are through it has fired.\<close>

theorem cancel_decides_firing:
  assumes "u = timer_run ops timer_start" "length ops + length later + 1 < 2 ^ 64" "i \<in> set (tu_issued u)"
    and "v = timer_run later (timer_step (Cancel i) u)"
  shows "(fst (cancel i (tu_timer u)) \<longrightarrow> i \<notin> fst ` set (tu_fired v)) \<and>
    (\<not> fst (cancel i (tu_timer u)) \<and> i \<notin> set (tu_cancelled u) \<longrightarrow>
      i \<in> fst ` set (concat (tu_passes u)) \<union> fst ` set (tu_fired u) \<and>
      (concat (tu_passes v) = [] \<longrightarrow> i \<in> fst ` set (tu_fired v)))"
proof -
  have u: "timer_accounts u" "room (Suc (length later)) (tu_timer u)"
    using timer_start_run [of ops "Suc (length later)"] assms(1,2) by simp_all
  have "timer_accounts (timer_step (Cancel i) u) \<and> room (length later + 0) (tu_timer (timer_step (Cancel i) u))"
    using timer_step_accounts [OF u, of "Cancel i"] unfolding add_0_right .
  then have v: "timer_accounts v" using timer_run_accounts [of _ later 0] unfolding assms(4) by blast
  note kept = timer_run_keeps [of "timer_step (Cancel i) u" later, folded assms(4)]
  obtain b m where e: "om_erase i (m_cb_map (tu_timer u)) = (b, m)" by fastforce
  have b: "fst (cancel i (tu_timer u)) = b" by (simp add: cancel_def e)
  show ?thesis unfolding b
  proof (intro conjI impI; (elim conjE)?)
    assume b
    then have "i \<in> set (tu_cancelled v)" using kept by (auto simp: cancel_def e)
    then show "i \<notin> fst ` set (tu_fired v)" using accounts_disjoint(1) [OF v] by (auto simp: tu_taken_def)
  next
    assume n: "\<not> b" "i \<notin> set (tu_cancelled u)"
    then have i: "i \<in> fst ` set (tu_taken u)"
      using accounts_disjoint(2) [OF u(1)] assms(3) erase_keys_mset(2) [OF _ e] u(1)
      by (auto simp: timer_accounts_def timer_wf_def)
    then show "i \<in> fst ` set (concat (tu_passes u)) \<union> fst ` set (tu_fired u)"
      by (simp only: tu_taken_def set_append image_Un)
    have "set (tu_taken u) \<subseteq> set (tu_taken v)" using kept timer_step_keeps [of u "Cancel i"] by (meson order_trans)
    with i have "i \<in> fst ` set (tu_taken v)" by (meson image_mono subsetD)
    then show "i \<in> fst ` set (tu_fired v)" if "concat (tu_passes v) = []"
      using that by (simp only: tu_taken_def append_Nil)
  qed
qed

text \<open>Two timers are due in the same pass; between its two calls the second is cancelled, too late, and a third in time.\<close>

definition cancel_demo :: "nat timer_use" where
  "cancel_demo = timer_run [Wait 5 (Some 7) 0, Wait 6 (Some 8) 0, Wait 50 (Some 9) 0, Schedule 10, Fire 0] timer_start"

theorem cancel_decides_firing_witness:
  "fst (cancel (50, 2) (tu_timer cancel_demo)) \<and>
   (50, 2) \<notin> fst ` set (tu_fired (timer_run [Fire 0, Schedule 100, Fire 1] (timer_step (Cancel (50, 2)) cancel_demo))) \<and>
   \<not> fst (cancel (6, 1) (tu_timer cancel_demo)) \<and>
   (6, 1) \<in> fst ` set (tu_fired (timer_run [Fire 0] (timer_step (Cancel (6, 1)) cancel_demo)))"
proof -
  have d: "cancel_demo = \<lparr>tu_timer = \<lparr>m_timer_ctr = 3, m_cb_map = [((50, 2), Some 9)]\<rparr>, tu_passes = [[((6, 1), Some 8)]],
      tu_issued = [(5, 0), (6, 1), (50, 2)], tu_cancelled = [], tu_fired = [((5, 0), Some 7)]\<rparr>"
    by (simp add: cancel_demo_def timer_run_def timer_start_def timer_new_def wait_us_def int64_ok_def timer_extract_def Let_def)
  have c: "fst (cancel (50, 2) (tu_timer cancel_demo))" "\<not> fst (cancel (6, 1) (tu_timer cancel_demo))"
    by (simp_all add: d cancel_def om_erase_def)
  have p: "concat (tu_passes (timer_run [Fire 0] (timer_step (Cancel (6, 1)) cancel_demo))) = []"
    by (simp add: d timer_run_def cancel_def om_erase_def)
  have i: "(50, 2) \<in> set (tu_issued cancel_demo)" "(6, 1) \<in> set (tu_issued cancel_demo)" "(6, 1) \<notin> set (tu_cancelled cancel_demo)"
    by (simp_all add: d)
  show ?thesis
    using cancel_decides_firing [OF cancel_demo_def _ i(1) refl, of "[Fire 0, Schedule 100, Fire 1]"]
      cancel_decides_firing [OF cancel_demo_def _ i(2) refl, of "[Fire 0]"] c p i(3) by simp
qed

text \<open>The reported next deadline is the earliest one, it is reported exactly when a timer is pending,
  and once the due timers are taken out it lies in the future.\<close>

theorem next_deadline_is_earliest:
  assumes "timer_wf t"
  shows "get_next_deadline_us t =
      (if m_cb_map t = [] then None else Some (Min ((fst \<circ> fst) ` set (m_cb_map t))))
    \<and> (\<forall>d. get_next_deadline_us (snd (timer_extract now_us t)) = Some d \<longrightarrow> now_us < d)"
proof -
  have "get_next_deadline_us t =
      (if m_cb_map t = [] then None else Some (Min ((fst \<circ> fst) ` set (m_cb_map t))))"
  proof (cases "m_cb_map t")
    case (Cons x m)
    obtain d c cb where x: "x = ((d, c), cb)" by (metis surj_pair)
    have "d \<le> e" if "((e, c'), cb') \<in> set m" for e c' cb'
      using assms that by (force simp: timer_wf_def Cons x om_wf_Cons less_prod_def)
    then have "Min ((fst \<circ> fst) ` set (m_cb_map t)) = d"
      by (intro Min_eqI) (auto simp: Cons x)
    then show ?thesis by (simp add: get_next_deadline_us_def Cons x)
  qed (simp add: get_next_deadline_us_def)
  moreover have "now_us < d" if nd: "get_next_deadline_us (snd (timer_extract now_us t)) = Some d" for d
  proof -
    obtain c cb m where "m_cb_map (snd (timer_extract now_us t)) = ((d, c), cb) # m"
      using nd by (auto simp: get_next_deadline_us_def split: list.splits prod.splits)
    then have "((d, c), cb) \<in> set (filter (\<lambda>((d, _), _). \<not> d \<le> now_us) (m_cb_map t))"
      by (simp add: timer_extract_split [OF assms])
    then show ?thesis by auto
  qed
  ultimately show ?thesis by blast
qed

theorem next_deadline_is_earliest_witness:
  "let t = the_state (wait_us 50 (Some (7::nat)) 10 timer_new)
   in get_next_deadline_us t = Some 60 \<and>
     (\<forall>d. get_next_deadline_us (snd (timer_extract 70 t)) = Some d \<longrightarrow> 70 < d)"
proof -
  let ?t = "the_state (wait_us 50 (Some (7::nat)) 10 timer_new)"
  have "timer_wf ?t" by (rule wait_us_wf [OF timer_wf_new, of 0]) (simp add: room_def timer_new_def)
  note earliest = next_deadline_is_earliest [OF this, of 70]
  have m: "m_cb_map ?t = [((60, 0), Some 7)]" by (simp add: wait_us_Ok timer_new_def int64_ok_def)
  from earliest have "get_next_deadline_us ?t = Some 60" unfolding m by (simp only: list.set) simp
  with earliest show ?thesis unfolding Let_def by blast
qed

text \<open>A timer that is armed at clock reading \<open>t0\<close> and taken out at reading \<open>t1\<close> fires less than a microsecond before its
  delay has passed, the part both readings were truncated by, and a pass whose reading is past the delay
  by a microsecond takes it out.\<close>

lemma current_time_us_bounds:
  assumes "0 \<le> ns"
  shows "current_time_us ns * 1000 \<le> ns \<and> ns < current_time_us ns * 1000 + 1000"
proof -
  have "current_time_us ns = ns div 1000" using assms by (cases "ns = 0") (simp_all add: current_time_us_def)
  then show ?thesis using div_mult_mod_eq [of ns 1000] pos_mod_bound [of 1000 ns] pos_mod_sign [of 1000 ns] by linarith
qed

theorem timer_fires_after_its_delay:
  assumes "timer_wf t" "room 1 t" "0 \<le> t0" "0 \<le> t1" "wait_us for_us cb (current_time_us t0) t = Ok i t'"
  shows "(i \<in> fst ` set (fst (timer_extract (current_time_us t1) t')) \<longrightarrow> for_us * 1000 - 1000 < t1 - t0) \<and>
    (for_us * 1000 + 1000 \<le> t1 - t0 \<longrightarrow> i \<in> fst ` set (fst (timer_extract (current_time_us t1) t')))"
proof -
  have ok: "int64_ok (current_time_us t0 + for_us)" using assms(5) by (auto simp: wait_us_def Let_def split: if_splits)
  have i: "i = (current_time_us t0 + for_us, m_timer_ctr t)" and t': "t' = the_state (wait_us for_us cb (current_time_us t0) t)"
    using assms(5) unfolding wait_us_Ok [OF ok] by auto
  have "om_wf (m_cb_map t)" using assms(1) by (simp add: timer_wf_def)
  then have "i \<in> fst ` set (m_cb_map t')" using i unfolding t' wait_us_Ok [OF ok] by (simp add: keys_om_emplace)
  moreover have "timer_wf t'" unfolding t' using assms(1,2) wait_us_wf [of t 0] by simp
  ultimately have "i \<in> fst ` set (fst (timer_extract (current_time_us t1) t')) \<longleftrightarrow> current_time_us t0 + for_us \<le> current_time_us t1"
    unfolding i by (force simp: timer_extract_split)
  then show ?thesis using current_time_us_bounds [OF assms(3)] current_time_us_bounds [OF assms(4)] by linarith
qed

theorem timer_fires_after_its_delay_witness:
  "\<exists>i t'. wait_us 5 (Some 1) (current_time_us 1999) (timer_new :: nat timer) = Ok i t' \<and>
    i \<in> fst ` set (fst (timer_extract (current_time_us 6000) t')) \<and> (5 * 1000 - 1000 :: int) < 6000 - 1999"
proof -
  have ok: "int64_ok (current_time_us 1999 + 5)" by (simp add: current_time_us_def int64_ok_def)
  obtain i t' where w: "wait_us 5 (Some 1) (current_time_us 1999) (timer_new :: nat timer) = Ok i t'"
    unfolding wait_us_Ok [OF ok] by simp
  have "i \<in> fst ` set (fst (timer_extract (current_time_us 6000) t'))"
    using w unfolding wait_us_Ok [OF ok] by (auto simp: timer_new_def timer_extract_def current_time_us_def)
  then show ?thesis using w timer_fires_after_its_delay [OF timer_wf_new _ _ _ w, of 6000] by (simp add: room_def timer_new_def)
qed

end
