(* ===== verification/Bfc_Reactor_Queues.thy ===== *)
theory Bfc_Reactor_Queues
  imports Bfc_Prelude
begin

text \<open>
  The queues an fd reactor serves besides its descriptors, \<open>src/src/bfc/reactor_queues.hpp\<close>. A queue is
  named by its address (a natural number); an entry pairs it with the callback the reactor keeps. What
  \<open>has_data\<close> says of a queue and what a callback does are arguments, since both belong to the state of the
  reactor that owns the table: the snapshot that \<open>notify\<close> walks over is taken before the first callback,
  so callbacks may change the table.
\<close>

section \<open>The table\<close>

record 'c rq_entry =
  rq_key :: nat
  rq_cb :: "'c option"

type_synonym 'c reactor_queues = "'c rq_entry list"

text \<open>\<open>add\<close> replaces the callback of a queue that is already there, else appends an entry.\<close>

fun rq_add :: "nat \<Rightarrow> 'c option \<Rightarrow> 'c reactor_queues \<Rightarrow> 'c reactor_queues" where
  "rq_add queue cb [] = [\<lparr>rq_key = queue, rq_cb = cb\<rparr>]"
| "rq_add queue cb (e # es) =
     (if rq_key e = queue then e\<lparr>rq_cb := cb\<rparr> # es else e # rq_add queue cb es)"

definition rq_rem :: "nat \<Rightarrow> 'c reactor_queues \<Rightarrow> 'c reactor_queues" where
  "rq_rem queue es = filter (\<lambda>e. rq_key e \<noteq> queue) es"

section \<open>Notification\<close>

primrec notify_snapshot ::
    "(nat \<Rightarrow> 's \<Rightarrow> bool) \<Rightarrow> ('c \<Rightarrow> 's \<Rightarrow> ('s, unit) result) \<Rightarrow> 'c rq_entry list \<Rightarrow> bool \<Rightarrow> 's \<Rightarrow>
      ('s, bool) result" where
  "notify_snapshot has_data call [] backlog s = Ok backlog s"
| "notify_snapshot has_data call (e # es) backlog s =
     (if has_data (rq_key e) s then
        (case rq_cb e of
           None \<Rightarrow> Throw Bad_function_call s
         | Some c \<Rightarrow>
             rbind (call c s)
               (\<lambda>_ s. notify_snapshot has_data call es (backlog \<or> has_data (rq_key e) s) s))
      else notify_snapshot has_data call es backlog s)"

definition rq_notify ::
    "(nat \<Rightarrow> 's \<Rightarrow> bool) \<Rightarrow> ('c \<Rightarrow> 's \<Rightarrow> ('s, unit) result) \<Rightarrow> ('s \<Rightarrow> 'c reactor_queues) \<Rightarrow> 's \<Rightarrow>
      ('s, bool) result" where
  "rq_notify has_data call m_entries s =
     (if m_entries s = [] then Ok False s
      else notify_snapshot has_data call (m_entries s) False s)"

section \<open>Lemmas\<close>

definition rq_wf :: "'c reactor_queues \<Rightarrow> bool" where
  "rq_wf es \<longleftrightarrow> distinct (map rq_key es)"

definition rq_lookup :: "nat \<Rightarrow> 'c reactor_queues \<Rightarrow> 'c option option" where
  "rq_lookup queue es = map_option rq_cb (find (\<lambda>e. rq_key e = queue) es)"

lemma keys_rq_add: "rq_key ` set (rq_add queue cb es) = insert queue (rq_key ` set es)"
  by (induction queue cb es rule: rq_add.induct) auto

lemma rq_add_wf [wf_intros]: "rq_wf es \<Longrightarrow> rq_wf (rq_add queue cb es)"
proof (induction queue cb es rule: rq_add.induct)
  case (2 queue cb e es)
  have "rq_key ` set (rq_add queue cb es) = insert queue (rq_key ` set es)" by (rule keys_rq_add)
  with 2 show ?case by (auto simp: rq_wf_def)
qed (simp add: rq_wf_def)

lemma rq_rem_wf [wf_intros]: "rq_wf es \<Longrightarrow> rq_wf (rq_rem queue es)"
  by (simp add: rq_wf_def rq_rem_def distinct_map_filter)

lemma rq_lookup_add: "rq_lookup q (rq_add queue cb es) = (if q = queue then Some cb else rq_lookup q es)"
  by (induction queue cb es rule: rq_add.induct) (auto simp: rq_lookup_def)

lemma rq_lookup_rem: "rq_lookup q (rq_rem queue es) = (if q = queue then None else rq_lookup q es)"
  by (induction es) (auto simp: rq_lookup_def rq_rem_def)

lemma notify_snapshot_inv:
  assumes "\<And>c s. I s \<Longrightarrow> I (the_state (call c s))"
  shows "I s \<Longrightarrow> I (the_state (notify_snapshot has_data call es backlog s))"
proof (induction es arbitrary: backlog s)
  case (Cons e es)
  show ?case
  proof (cases "rq_cb e")
    case (Some c)
    have "I (the_state (call c s))" using Cons.prems by (rule assms)
    with Some Cons show ?thesis by (cases "call c s") auto
  qed (use Cons in auto)
qed simp

lemma rq_notify_inv:
  assumes "\<And>c s. I s \<Longrightarrow> I (the_state (call c s))"
  shows "I s \<Longrightarrow> I (the_state (rq_notify has_data call m_entries s))"
  unfolding rq_notify_def using notify_snapshot_inv [of I call, OF assms] by simp

text \<open>
  When callbacks only consume, a snapshot that reports no backlog has left none of its queues with data.
\<close>

lemma notify_snapshot_backlog:
  assumes consume: "\<And>c s k. has_data k (the_state (call c s)) \<Longrightarrow> has_data k s"
    and "notify_snapshot has_data call es backlog s = Ok b s'"
  shows "(\<forall>k. has_data k s' \<longrightarrow> has_data k s) \<and>
    (\<not> b \<longrightarrow> \<not> backlog \<and> (\<forall>e \<in> set es. \<not> has_data (rq_key e) s'))"
  using assms(2)
proof (induction es arbitrary: backlog s)
  case (Cons e es)
  show ?case
  proof (cases "has_data (rq_key e) s")
    case False
    with Cons.prems Cons.IH [of backlog s] show ?thesis by auto
  next
    case True
    with Cons.prems obtain c s1 where c: "rq_cb e = Some c" "call c s = Ok () s1"
      "notify_snapshot has_data call es (backlog \<or> has_data (rq_key e) s1) s1 = Ok b s'"
      by (auto split: option.splits simp: rbind_eq_Ok)
    have "has_data k s" if "has_data k s1" for k using consume [of k c s] that c(2) by simp
    with Cons.IH [OF c(3)] show ?thesis by auto
  qed
qed simp

section \<open>Serving bound queues\<close>

text \<open>
  The queues a reactor has to attend to: registered, bound to it, and holding data.
\<close>

definition waiting ::
    "('s \<Rightarrow> 'c reactor_queues) \<Rightarrow> (nat \<Rightarrow> 's \<Rightarrow> bool) \<Rightarrow> (nat \<Rightarrow> 's \<Rightarrow> bool) \<Rightarrow> 's \<Rightarrow> nat set" where
  "waiting entries bound has_data s = {q \<in> rq_key ` set (entries s). bound q s \<and> has_data q s}"

text \<open>
  What everything that runs on or beside the reactor keeps: the wake-up channel stays sound and signalled, and
  a queue starts to wait only together with a signal.
\<close>

definition attends :: "('s \<Rightarrow> bool) \<Rightarrow> ('s \<Rightarrow> bool) \<Rightarrow> ('s \<Rightarrow> nat set) \<Rightarrow> 's \<Rightarrow> 's \<Rightarrow> bool" where
  "attends sound signalled wq s t \<longleftrightarrow>
     (sound s \<longrightarrow> sound t \<and> (signalled s \<longrightarrow> signalled t) \<and> (signalled t \<or> wq t \<subseteq> wq s))"

lemma attends_refl [simp]: "attends sound signalled wq s s"
  by (simp add: attends_def)

lemma attends_trans: "attends sound signalled wq s t \<Longrightarrow> attends sound signalled wq t u \<Longrightarrow> attends sound signalled wq s u"
  unfolding attends_def by blast

text \<open>
  The interface between a reactor and its queues. The provider is the reactor with its callbacks: each keeps
  \<open>attends\<close>. The client is \<open>notify\<close>: after a pass every waiting queue is covered by the backlog it reports or by
  a signal that is under way.
\<close>

locale queue_service =
  fixes entries :: "'s \<Rightarrow> 'c reactor_queues" and bound has_data :: "nat \<Rightarrow> 's \<Rightarrow> bool"
    and sound signalled :: "'s \<Rightarrow> bool" and call :: "'c \<Rightarrow> 's \<Rightarrow> ('s, unit) result"
  assumes call_attends: "attends sound signalled (waiting entries bound has_data) s (the_state (call c s))"
begin

lemma snapshot_covers:
  assumes "notify_snapshot has_data call es backlog s = Ok b t" "sound s"
  shows "sound t \<and> (signalled s \<longrightarrow> signalled t) \<and> (backlog \<longrightarrow> b) \<and>
    (signalled t \<or> b \<or> waiting entries bound has_data t \<subseteq> waiting entries bound has_data s - rq_key ` set es)"
  using assms
proof (induction es arbitrary: backlog s)
  case (Cons e es)
  let ?W = "waiting entries bound has_data"
  show ?case
  proof (cases "has_data (rq_key e) s")
    case False
    then have "rq_key e \<notin> ?W s" by (simp add: waiting_def)
    with False Cons.prems Cons.IH [of backlog s] show ?thesis by auto
  next
    case True
    with Cons.prems obtain c s1 where c: "call c s = Ok () s1"
      "notify_snapshot has_data call es (backlog \<or> has_data (rq_key e) s1) s1 = Ok b t"
      by (auto split: option.splits simp: rbind_eq_Ok)
    have s1: "sound s1" "signalled s \<longrightarrow> signalled s1" "signalled s1 \<or> ?W s1 \<subseteq> ?W s"
      using call_attends [of s c] c(1) Cons.prems(2) by (simp_all add: attends_def)
    have "rq_key e \<notin> ?W s1" if "\<not> has_data (rq_key e) s1" using that by (simp add: waiting_def)
    with Cons.IH [OF c(2) s1(1)] s1 show ?thesis by auto
  qed
qed simp

lemma notify_covers:
  assumes "rq_notify has_data call entries s = Ok b t" "sound s"
  shows "sound t \<and> (signalled t \<or> b \<or> waiting entries bound has_data t = {})"
proof (cases "entries s = []")
  case True
  then show ?thesis using assms by (auto simp: rq_notify_def waiting_def)
next
  case False
  have "waiting entries bound has_data s \<subseteq> rq_key ` set (entries s)" by (auto simp: waiting_def)
  then show ?thesis using assms False snapshot_covers [of "entries s" False s b t] by (auto simp: rq_notify_def)
qed

end

section \<open>Properties\<close>

text \<open>No queue is left behind: when the callbacks only take data out of the queues, a pass of \<open>notify\<close>
  that reports no backlog leaves no registered queue with data, so a wait that blocks afterwards
  strands nothing.\<close>

theorem notify_without_backlog_drains:
  assumes consume: "\<forall>c s k. has_data k (the_state (call c s)) \<longrightarrow> has_data k s"
    and "rq_notify has_data call m_entries s = Ok False s'"
  shows "\<forall>e \<in> set (m_entries s). \<not> has_data (rq_key e) s'"
proof (cases "m_entries s = []")
  case False
  with assms(2) have "notify_snapshot has_data call (m_entries s) False s = Ok False s'"
    by (simp add: rq_notify_def)
  with notify_snapshot_backlog [where has_data = has_data and call = call] consume show ?thesis by blast
qed simp

theorem notify_without_backlog_drains_witness:
  "rq_notify (\<lambda>k s. k < s) (\<lambda>c s. Ok () (s - c)) (\<lambda>_. [\<lparr>rq_key = 3, rq_cb = Some 5\<rparr>]) 7 = Ok False 2 \<and>
    \<not> 3 < (2 :: nat)"
  using notify_without_backlog_drains [where has_data = "\<lambda>k s. k < (s :: nat)" and
      call = "\<lambda>c s. Ok () (s - c)" and s = 7 and s' = 2 and
      m_entries = "\<lambda>_. [\<lparr>rq_key = 3, rq_cb = Some 5\<rparr>]"]
  by (simp add: rq_notify_def)

text \<open>The table maps a queue to the callback of its last \<open>add\<close>, one entry per queue; \<open>rem\<close> removes
  exactly that queue.\<close>

theorem queue_table_laws:
  assumes "rq_wf es"
  shows "rq_wf (rq_add queue cb es) \<and> rq_wf (rq_rem queue es) \<and>
    rq_lookup q (rq_add queue cb es) = (if q = queue then Some cb else rq_lookup q es) \<and>
    rq_lookup q (rq_rem queue es) = (if q = queue then None else rq_lookup q es)"
  using assms by (simp add: rq_lookup_add rq_lookup_rem wf_intros)

theorem queue_table_laws_witness:
  "rq_lookup 1 (rq_add 1 (Some 9) (rq_add 2 (Some 8) [])) = Some (Some (9::nat))"
  using queue_table_laws [of "rq_add 2 (Some 8) []" 1 "Some (9::nat)" 1] by (simp add: rq_wf_def)

end
