(* ===== verification/Bfc_Poll_Tables.thy ===== *)
theory Bfc_Poll_Tables
  imports Bfc_Prelude "HOL-Library.Multiset"
begin

text \<open>
  The registration tables of \<open>detail::poll_reactor\<close> in \<open>src/src/bfc/poll_reactor.hpp\<close>: the vector of poll
  entries, the map of fd entries that points into it by index, the generation counter, and the
  operations \<open>add_read\<close>, \<open>rem_read\<close>, \<open>add_write\<close>, \<open>rem_write\<close> and \<open>req_write\<close> with their private helpers.

  The record \<open>poll_tables\<close> is the part of the object these operations use; the rest of the reactor
  extends it. Callbacks are named by natural numbers, an empty \<open>cb_t\<close> is \<open>None\<close>. The operating system is
  part of the state: the results of the coming \<open>dup\<close> calls and the descriptors opened and closed so
  far. The field \<open>trace\<close> is a history variable: the operations append what they did and nothing reads
  it.
\<close>

section \<open>Data\<close>

datatype poll_kind = Wake | Read | Write

record fd_ctx =
  ctx_fd :: fd_t
  ctx_cb :: "nat option"

record fd_entry =
  en_fd :: fd_t
  read_ctx :: fd_ctx
  write_ctx :: fd_ctx
  read_active :: bool
  write_active :: bool
  read_poll_index :: size_t
  write_poll_index :: size_t
  read_gen :: u64
  write_gen :: u64

definition invalid_index :: size_t where
  "invalid_index = size_max"

definition fd_ctx_default :: fd_ctx where
  "fd_ctx_default = \<lparr>ctx_fd = -1, ctx_cb = None\<rparr>"

definition fd_entry_default :: fd_entry where
  "fd_entry_default =
     \<lparr>en_fd = -1, read_ctx = fd_ctx_default, write_ctx = fd_ctx_default,
      read_active = False, write_active = False,
      read_poll_index = invalid_index, write_poll_index = invalid_index, read_gen = 0, write_gen = 0\<rparr>"

record pollfd =
  pfd_fd :: fd_t
  pfd_events :: short
  pfd_revents :: short

record poll_entry =
  pfd :: pollfd
  owner_fd :: fd_t
  pe_kind :: poll_kind
  pe_gen :: u64

text \<open>A callback given to \<open>wake_up\<close>: the user's, or the closure \<open>[this]() { run_removals(); }\<close>.\<close>

datatype wake_fn = User nat | Run_removals

text \<open>What the history records; the run loop adds polls, dispatches and posted callbacks.\<close>

datatype event =
    Ev_add poll_kind fd_t u64 "nat option"   \<comment> \<open>a new registration with its generation\<close>
  | Ev_set poll_kind fd_t "nat option"       \<comment> \<open>a new callback for a live registration\<close>
  | Ev_rem poll_kind fd_t                    \<comment> \<open>a registration removed\<close>
  | Ev_poll int                              \<comment> \<open>the poll set was snapshot for \<open>poll\<close> with this timeout\<close>
  | Ev_dispatch poll_kind fd_t u64 nat       \<comment> \<open>a callback called for a polled registration\<close>
  | Ev_post wake_fn                          \<comment> \<open>a wake-up callback queued\<close>
  | Ev_wake wake_fn                          \<comment> \<open>a wake-up callback called\<close>
  | Ev_ask fd_t bool "nat option"            \<comment> \<open>a removal asked for from another thread\<close>
  | Ev_done fd_t bool "nat option"           \<comment> \<open>that removal carried out\<close>

record poll_tables =
  m_poll_entries :: "poll_entry list"
  m_fd_entries :: "fd_t \<rightharpoonup> fd_entry"
  m_pending_cleanup :: "fd_t list"
  m_gen :: u64
  m_retired_cbs :: "nat list"
  os_dup :: "fd_t list"
  os_opened :: "fd_t list"
  os_closed :: "fd_t list"
  trace :: "event list"

definition log :: "event \<Rightarrow> 'z poll_tables_scheme \<Rightarrow> 'z poll_tables_scheme" where
  "log ev s = s\<lparr>trace := trace s @ [ev]\<rparr>"

text \<open>\<open>dup\<close> returns the next result of the oracle, \<open>-1\<close> when it has none; \<open>close\<close> is recorded.\<close>

definition sys_dup :: "'z poll_tables_scheme \<Rightarrow> fd_t \<times> 'z poll_tables_scheme" where
  "sys_dup s =
     (case os_dup s of
        [] \<Rightarrow> (-1, s)
      | d # ds \<Rightarrow> (d, s\<lparr>os_dup := ds, os_opened := os_opened s @ (if d = -1 then [] else [d])\<rparr>))"

definition sys_close :: "fd_t \<Rightarrow> 'z poll_tables_scheme \<Rightarrow> 'z poll_tables_scheme" where
  "sys_close fd s = s\<lparr>os_closed := os_closed s @ [fd]\<rparr>"

section \<open>Helpers of the reactor\<close>

text \<open>\<open>m_fd_entries[fd]\<close> inserts a default entry when there is none.\<close>

definition entry_ref :: "fd_t \<Rightarrow> 'z poll_tables_scheme \<Rightarrow> fd_entry \<times> 'z poll_tables_scheme" where
  "entry_ref fd s =
     (case m_fd_entries s fd of
        Some en \<Rightarrow> (en, s)
      | None \<Rightarrow> (fd_entry_default, s\<lparr>m_fd_entries := (m_fd_entries s)(fd \<mapsto> fd_entry_default)\<rparr>))"

text \<open>A write through the reference \<open>entry\<close>.\<close>

definition mod_entry :: "fd_t \<Rightarrow> (fd_entry \<Rightarrow> fd_entry) \<Rightarrow> 'z poll_tables_scheme \<Rightarrow> 'z poll_tables_scheme" where
  "mod_entry fd f s =
     s\<lparr>m_fd_entries := (m_fd_entries s)(fd := map_option f (m_fd_entries s fd))\<rparr>"

definition retire_cb :: "nat option \<Rightarrow> 'z poll_tables_scheme \<Rightarrow> 'z poll_tables_scheme" where
  "retire_cb cb s =
     (case cb of Some c \<Rightarrow> s\<lparr>m_retired_cbs := m_retired_cbs s @ [c]\<rparr> | None \<Rightarrow> s)"

definition add_poll_entry ::
    "fd_t \<Rightarrow> fd_t \<Rightarrow> poll_kind \<Rightarrow> short \<Rightarrow> 'z poll_tables_scheme \<Rightarrow> size_t \<times> 'z poll_tables_scheme" where
  "add_poll_entry watched_fd owner kind events s =
     (let s = s\<lparr>m_gen := m_gen s + 1\<rparr>;
          entry = \<lparr>pfd = \<lparr>pfd_fd = watched_fd, pfd_events = events, pfd_revents = 0\<rparr>,
                   owner_fd = owner, pe_kind = kind, pe_gen = m_gen s\<rparr>;
          s = s\<lparr>m_poll_entries := m_poll_entries s @ [entry]\<rparr>
      in (length (m_poll_entries s) - 1, s))"

definition set_poll_entry :: "size_t \<Rightarrow> fd_t \<Rightarrow> short \<Rightarrow> 'z poll_tables_scheme \<Rightarrow> 'z poll_tables_scheme" where
  "set_poll_entry index watched_fd events s =
     (if index \<ge> length (m_poll_entries s) then s
      else s\<lparr>m_poll_entries := (m_poll_entries s)[index :=
               (m_poll_entries s ! index)\<lparr>pfd :=
                  \<lparr>pfd_fd = watched_fd, pfd_events = events, pfd_revents = 0\<rparr>\<rparr>]\<rparr>)"

definition set_poll_events :: "size_t \<Rightarrow> short \<Rightarrow> 'z poll_tables_scheme \<Rightarrow> 'z poll_tables_scheme" where
  "set_poll_events index events s =
     (if index \<ge> length (m_poll_entries s) then s
      else s\<lparr>m_poll_entries := (m_poll_entries s)[index :=
               (m_poll_entries s ! index)\<lparr>pfd :=
                  (pfd (m_poll_entries s ! index))\<lparr>pfd_events := events, pfd_revents := 0\<rparr>\<rparr>]\<rparr>)"

definition update_poll_index ::
    "fd_t \<Rightarrow> poll_kind \<Rightarrow> size_t \<Rightarrow> 'z poll_tables_scheme \<Rightarrow> 'z poll_tables_scheme" where
  "update_poll_index owner kind new_index s =
     (case m_fd_entries s owner of
        None \<Rightarrow> s
      | Some _ \<Rightarrow>
          (if kind = Read then mod_entry owner (\<lambda>en. en\<lparr>read_poll_index := new_index\<rparr>) s
           else if kind = Write then mod_entry owner (\<lambda>en. en\<lparr>write_poll_index := new_index\<rparr>) s
           else s))"

definition remove_poll_entry_by_index :: "size_t \<Rightarrow> 'z poll_tables_scheme \<Rightarrow> 'z poll_tables_scheme" where
  "remove_poll_entry_by_index index s =
     (if index \<ge> length (m_poll_entries s) then s
      else
        (let last = length (m_poll_entries s) - 1;
             s = (if index \<noteq> last then
                    (let moved = m_poll_entries s ! last;
                         s = s\<lparr>m_poll_entries := (m_poll_entries s)[index := moved]\<rparr>
                     in update_poll_index (owner_fd moved) (pe_kind moved) index s)
                  else s)
         in s\<lparr>m_poll_entries := butlast (m_poll_entries s)\<rparr>))"

section \<open>Registration\<close>

definition add_read :: "fd_t \<Rightarrow> 32 word \<Rightarrow> nat option \<Rightarrow> 'z poll_tables_scheme \<Rightarrow> bool \<times> 'z poll_tables_scheme" where
  "add_read fd events cb s =
     (let (_, s) = entry_ref fd s;
          s = mod_entry fd (\<lambda>en. en\<lparr>en_fd := (if en_fd en = -1 then fd else en_fd en)\<rparr>) s;
          s = mod_entry fd (\<lambda>en. en\<lparr>read_ctx := \<lparr>ctx_fd = fd, ctx_cb = cb\<rparr>, read_active := True\<rparr>) s;
          index = read_poll_index (the (m_fd_entries s fd))
      in if index = invalid_index then
           (let (i, s) = add_poll_entry fd fd Read (ucast events) s;
                g = pe_gen (m_poll_entries s ! i);
                s = mod_entry fd (\<lambda>en. en\<lparr>read_poll_index := i, read_gen := g\<rparr>) s
            in (True, log (Ev_add Read fd g cb) s))
         else (True, log (Ev_set Read fd cb) (set_poll_entry index fd (ucast events) s)))"

definition rem_read :: "fd_t \<Rightarrow> 'z poll_tables_scheme \<Rightarrow> bool \<times> 'z poll_tables_scheme" where
  "rem_read fd s =
     (case m_fd_entries s fd of
        None \<Rightarrow> (False, s)
      | Some en \<Rightarrow>
          (let s = (if read_active en \<and> ctx_fd (read_ctx en) \<noteq> -1 then
                      (let s = remove_poll_entry_by_index (read_poll_index en) s;
                           s = mod_entry fd (\<lambda>en. en\<lparr>read_active := False\<rparr>) s;
                           s = retire_cb (ctx_cb (read_ctx en)) s;
                           s = mod_entry fd (\<lambda>en. en\<lparr>read_ctx := \<lparr>ctx_fd = -1, ctx_cb = None\<rparr>,
                                                      read_poll_index := invalid_index\<rparr>) s
                       in log (Ev_rem Read fd) s)
                    else s);
               en = the (m_fd_entries s fd)
           in if \<not> read_active en \<and> \<not> write_active en
              then (True, s\<lparr>m_pending_cleanup := m_pending_cleanup s @ [fd]\<rparr>)
              else (True, s)))"

definition add_write :: "fd_t \<Rightarrow> nat option \<Rightarrow> 'z poll_tables_scheme \<Rightarrow> bool \<times> 'z poll_tables_scheme" where
  "add_write fd cb s =
     (let (_, s) = entry_ref fd s;
          s = mod_entry fd (\<lambda>en. en\<lparr>en_fd := (if en_fd en = -1 then fd else en_fd en)\<rparr>) s;
          ctx = write_ctx (the (m_fd_entries s fd));
          (d, s) = (if ctx_fd ctx = -1 then sys_dup s else (ctx_fd ctx, s));
          s = mod_entry fd (\<lambda>en. en\<lparr>write_ctx := (write_ctx en)\<lparr>ctx_fd := d\<rparr>\<rparr>) s
      in if d = -1 then (False, s)
         else
           (let s = mod_entry fd (\<lambda>en. en\<lparr>write_ctx := (write_ctx en)\<lparr>ctx_cb := cb\<rparr>, write_active := True\<rparr>) s;
                index = write_poll_index (the (m_fd_entries s fd))
            in if index = invalid_index then
                 (let (i, s) = add_poll_entry d fd Write 0 s;
                      g = pe_gen (m_poll_entries s ! i);
                      s = mod_entry fd (\<lambda>en. en\<lparr>write_poll_index := i, write_gen := g\<rparr>) s
                  in (True, log (Ev_add Write fd g cb) s))
               else (True, log (Ev_set Write fd cb) (set_poll_entry index d 0 s))))"

definition rem_write :: "fd_t \<Rightarrow> 'z poll_tables_scheme \<Rightarrow> bool \<times> 'z poll_tables_scheme" where
  "rem_write fd s =
     (case m_fd_entries s fd of
        None \<Rightarrow> (False, s)
      | Some en \<Rightarrow>
          (let s = (if write_active en \<and> ctx_fd (write_ctx en) \<noteq> -1 then
                      (let s = remove_poll_entry_by_index (write_poll_index en) s;
                           s = sys_close (ctx_fd (write_ctx en)) s;
                           s = retire_cb (ctx_cb (write_ctx en)) s;
                           s = mod_entry fd (\<lambda>en. en\<lparr>write_ctx := \<lparr>ctx_fd = -1, ctx_cb = None\<rparr>,
                                                      write_active := False,
                                                      write_poll_index := invalid_index\<rparr>) s
                       in log (Ev_rem Write fd) s)
                    else s);
               en = the (m_fd_entries s fd)
           in if \<not> read_active en \<and> \<not> write_active en
              then (True, s\<lparr>m_pending_cleanup := m_pending_cleanup s @ [fd]\<rparr>)
              else (True, s)))"

definition req_write :: "fd_t \<Rightarrow> 32 word \<Rightarrow> 'z poll_tables_scheme \<Rightarrow> bool \<times> 'z poll_tables_scheme" where
  "req_write fd events s =
     (case m_fd_entries s fd of
        None \<Rightarrow> (False, s)
      | Some en \<Rightarrow>
          (if \<not> write_active en \<or> ctx_fd (write_ctx en) = -1 then (False, s)
           else (True, set_poll_events (write_poll_index en) (ucast events) s)))"

text \<open>
  The cleanup loop at the end of an iteration: an fd number that was added again since its removal is
  skipped.
\<close>

definition cleanup_fd :: "fd_t \<Rightarrow> 'z poll_tables_scheme \<Rightarrow> 'z poll_tables_scheme" where
  "cleanup_fd fd s =
     (case m_fd_entries s fd of
        None \<Rightarrow> s
      | Some en \<Rightarrow>
          (if \<not> read_active en \<and> \<not> write_active en then
             (let s = (if ctx_fd (write_ctx en) \<noteq> -1 then sys_close (ctx_fd (write_ctx en)) s else s)
              in s\<lparr>m_fd_entries := (m_fd_entries s)(fd := None)\<rparr>)
           else s))"

definition run_cleanup :: "'z poll_tables_scheme \<Rightarrow> 'z poll_tables_scheme" where
  "run_cleanup s =
     (fold cleanup_fd (m_pending_cleanup s) s)\<lparr>m_pending_cleanup := [], m_retired_cbs := []\<rparr>"

section \<open>Invariant: indices and registrations agree\<close>

definition poll_key :: "poll_entry \<Rightarrow> poll_kind \<times> fd_t" where
  "poll_key e = (pe_kind e, owner_fd e)"

definition idx_of :: "poll_kind \<Rightarrow> fd_entry \<Rightarrow> size_t option" where
  "idx_of k en =
     (case k of
        Wake \<Rightarrow> None
      | Read \<Rightarrow> (if read_active en then Some (read_poll_index en) else None)
      | Write \<Rightarrow> (if write_active en then Some (write_poll_index en) else None))"

text \<open>The position of a registration in the vector of poll entries; the wake pipe has position 0.\<close>

definition slot :: "(fd_t \<rightharpoonup> fd_entry) \<Rightarrow> poll_kind \<times> fd_t \<Rightarrow> size_t option" where
  "slot m = (\<lambda>(k, fd).
     if k = Wake then (if fd = -1 then Some 0 else None) else Option.bind (m fd) (idx_of k))"

text \<open>The generation and the descriptor a registration is polled with.\<close>

definition watch :: "poll_kind \<Rightarrow> fd_entry \<Rightarrow> u64 \<times> fd_t" where
  "watch k en =
     (if k = Read then (read_gen en, ctx_fd (read_ctx en)) else (write_gen en, ctx_fd (write_ctx en)))"

definition pe_watch :: "poll_entry \<Rightarrow> u64 \<times> fd_t" where
  "pe_watch e = (pe_gen e, pfd_fd (pfd e))"

definition static_ok :: "fd_t \<Rightarrow> fd_entry \<Rightarrow> bool" where
  "static_ok fd en \<longleftrightarrow>
     (read_active en \<longrightarrow> ctx_fd (read_ctx en) = fd) \<and>
     (\<not> read_active en \<longrightarrow> read_poll_index en = invalid_index \<and> read_ctx en = fd_ctx_default) \<and>
     (write_active en \<longrightarrow> ctx_fd (write_ctx en) \<noteq> -1) \<and>
     (\<not> write_active en \<longrightarrow> write_poll_index en = invalid_index \<and> write_ctx en = fd_ctx_default)"

definition entry_ok :: "poll_entry list \<Rightarrow> fd_t \<Rightarrow> fd_entry \<Rightarrow> bool" where
  "entry_ok es fd en \<longleftrightarrow>
     (\<forall>k i. idx_of k en = Some i \<longrightarrow> pe_watch (es ! i) = watch k en) \<and> static_ok fd en"

definition tables_ok :: "poll_entry list \<Rightarrow> (fd_t \<rightharpoonup> fd_entry) \<Rightarrow> bool" where
  "tables_ok es m \<longleftrightarrow> indexed poll_key es (slot m) \<and> (\<forall>fd en. m fd = Some en \<longrightarrow> entry_ok es fd en)"

definition tables_wf :: "'z poll_tables_scheme \<Rightarrow> bool" where
  "tables_wf s \<longleftrightarrow> tables_ok (m_poll_entries s) (m_fd_entries s)"

lemma UNIV_poll_kind: "UNIV = {Wake, Read, Write}"
  using poll_kind.exhaust by auto

instance poll_kind :: finite
  by standard (simp add: UNIV_poll_kind)

lemma card_poll_key: "card (UNIV :: (poll_kind \<times> fd_t) set) \<le> 3 * 2 ^ 32"
proof -
  have "card (UNIV :: (poll_kind \<times> fd_t) set) = card (UNIV :: poll_kind set) * card (UNIV :: fd_t set)"
    by (simp add: card_cartesian_product flip: UNIV_Times_UNIV)
  also have "card (UNIV :: poll_kind set) = 3" by (simp add: UNIV_poll_kind)
  finally show ?thesis using card_word [where 'a = 32] by simp
qed

lemma tables_ok_index:
  assumes "tables_ok es m" "slot m k = Some i"
  shows "i < length es" "poll_key (es ! i) = k" "i \<noteq> invalid_index"
proof -
  have ix: "indexed poll_key es (slot m)" using assms(1) by (simp add: tables_ok_def)
  show "i < length es" "poll_key (es ! i) = k" using indexed_at [OF ix assms(2)] by auto
  moreover have "length es \<le> 3 * 2 ^ 32"
    using order_trans [OF indexed_length [OF ix] card_poll_key] .
  ultimately show "i \<noteq> invalid_index" by (simp add: invalid_index_def size_max_def)
qed

lemma tables_ok_length: "tables_ok es m \<Longrightarrow> length es \<le> 3 * 2 ^ 32"
  using order_trans [OF indexed_length card_poll_key] by (auto simp: tables_ok_def)

lemma tables_ok_entry: "tables_ok es m \<Longrightarrow> m fd = Some en \<Longrightarrow> entry_ok es fd en"
  by (simp add: tables_ok_def)

lemma slot_simps [simp]:
  "slot m (Wake, fd) = (if fd = -1 then Some 0 else None)"
  "m fd = Some en \<Longrightarrow> slot m (Read, fd) = (if read_active en then Some (read_poll_index en) else None)"
  "m fd = Some en \<Longrightarrow> slot m (Write, fd) = (if write_active en then Some (write_poll_index en) else None)"
  "m fd = None \<Longrightarrow> k \<noteq> Wake \<Longrightarrow> slot m (k, fd) = None"
  by (simp_all add: slot_def idx_of_def)

lemma tables_ok_invalid:
  assumes "tables_ok es m" "m fd = Some en"
  shows "read_poll_index en = invalid_index \<longleftrightarrow> \<not> read_active en"
    and "write_poll_index en = invalid_index \<longleftrightarrow> \<not> write_active en"
    and "ctx_fd (write_ctx en) = -1 \<longleftrightarrow> \<not> write_active en"
  using tables_ok_entry [OF assms] tables_ok_index [OF assms(1), of "(Read, fd)"]
    tables_ok_index [OF assms(1), of "(Write, fd)"] assms(2)
  by (auto simp: entry_ok_def static_ok_def fd_ctx_default_def)

text \<open>Replacing an entry by one with the same positions, and writing to a poll entry in place.\<close>

lemma slot_upd_other: "fst key = Wake \<or> snd key \<noteq> fd \<Longrightarrow> slot (m(fd := v)) key = slot m key"
  by (auto simp: slot_def split: prod.splits)

lemma slot_upd_same:
  assumes "m fd = Some en" "\<And>k. idx_of k en' = idx_of k en"
  shows "slot (m(fd \<mapsto> en')) = slot m"
proof
  fix key show "slot (m(fd \<mapsto> en')) key = slot m key"
    using assms by (cases key) (auto simp: slot_def)
qed

lemma tables_ok_mod:
  assumes ok: "tables_ok es m" and en: "m fd = Some en"
    and idx: "\<And>k. idx_of k en' = idx_of k en" and new: "entry_ok es fd en'"
  shows "tables_ok es (m(fd \<mapsto> en'))"
  using assms slot_upd_same [of m fd en en', OF en idx] by (auto simp: tables_ok_def)

lemma tables_ok_insert:
  assumes "tables_ok es m" "m fd = None" "\<And>k. idx_of k en = None" "entry_ok es fd en"
  shows "tables_ok es (m(fd \<mapsto> en))"
proof -
  have "slot (m(fd \<mapsto> en)) = slot m"
    using assms(2,3) by (auto simp: slot_def fun_eq_iff)
  with assms show ?thesis by (auto simp: tables_ok_def)
qed

lemma tables_ok_delete:
  assumes "tables_ok es m" "m fd = Some en" "\<And>k. idx_of k en = None"
  shows "tables_ok es (m(fd := None))"
proof -
  have "slot (m(fd := None)) = slot m"
    using assms(2,3) by (auto simp: slot_def fun_eq_iff)
  with assms show ?thesis by (auto simp: tables_ok_def)
qed

lemma tables_ok_write:
  assumes "tables_ok es m" "i < length es" "poll_key e = poll_key (es ! i)" "pe_watch e = pe_watch (es ! i)"
  shows "tables_ok (es[i := e]) m"
proof -
  have "pe_watch (es[i := e] ! j) = pe_watch (es ! j)" for j
    using assms(2,4) by (cases "i = j") auto
  then have "entry_ok (es[i := e]) fd en = entry_ok es fd en" for fd en
    by (simp add: entry_ok_def)
  with assms indexed_update [of poll_key es "slot m" i e] show ?thesis by (auto simp: tables_ok_def)
qed

text \<open>A new registration at the end of the vector.\<close>

lemma tables_ok_add:
  assumes ok: "tables_ok es m" and en: "m fd = Some en" and k: "k \<noteq> Wake" "idx_of k en = None"
    and e: "poll_key e = (k, fd)" "pe_watch e = watch k en'"
    and idx: "\<And>k'. idx_of k' en' = (if k' = k then Some (length es) else idx_of k' en)"
    and same: "\<And>k'. k' \<noteq> k \<Longrightarrow> k' \<noteq> Wake \<Longrightarrow> watch k' en' = watch k' en" and st: "static_ok fd en'"
  shows "tables_ok (es @ [e]) (m(fd \<mapsto> en'))"
proof -
  have ix: "indexed poll_key es (slot m)" using ok by (simp add: tables_ok_def)
  have sl: "slot (m(fd \<mapsto> en')) = (slot m)(poll_key e \<mapsto> length es)"
  proof
    fix key show "slot (m(fd \<mapsto> en')) key = ((slot m)(poll_key e \<mapsto> length es)) key"
      using en k idx by (cases key) (auto simp: slot_def e)
  qed
  have "slot m (poll_key e) = None" using en k by (simp add: slot_def e)
  from indexed_append [OF ix this] have "indexed poll_key (es @ [e]) (slot (m(fd \<mapsto> en')))"
    by (simp add: sl)
  moreover have "entry_ok (es @ [e]) fd' en2" if "(m(fd \<mapsto> en')) fd' = Some en2" for fd' en2
  proof -
    have old: "pe_watch ((es @ [e]) ! i) = watch k' en3" if "m fd' = Some en3" "idx_of k' en3 = Some i" for k' i en3
    proof -
      have "k' \<noteq> Wake" using that(2) by (auto simp: idx_of_def)
      then have "slot m (k', fd') = Some i" using that by (simp add: slot_def)
      then show ?thesis using tables_ok_index(1) [OF ok] tables_ok_entry [OF ok that(1)] that(2)
        by (simp add: nth_append entry_ok_def)
    qed
    show ?thesis
    proof (cases "fd' = fd")
      case True
      then have en2: "en2 = en'" using that by simp
      have "pe_watch ((es @ [e]) ! i) = watch k' en'" if "idx_of k' en' = Some i" for k' i
        using that idx [of k'] e(2) old [of en k' i] same [of k'] en True
        by (cases "k' = Wake") (auto simp: idx_of_def [of Wake] split: if_splits)
      then show ?thesis using st True by (simp add: entry_ok_def en2)
    next
      case False
      with that have "m fd' = Some en2" by simp
      with old tables_ok_entry [OF ok this] show ?thesis by (auto simp: entry_ok_def)
    qed
  qed
  ultimately show ?thesis by (simp add: tables_ok_def)
qed

text \<open>A registration removed by moving the last poll entry into its place.\<close>

lemma tables_ok_remove:
  assumes ok: "tables_ok es m" and i: "slot m (k, fd) = Some i"
    and sl: "\<And>key. slot m' key = (if key = (k, fd) then None
        else if slot m key = Some (length es - 1) then Some i else slot m key)"
    and ent: "\<And>fd' en'. m' fd' = Some en' \<Longrightarrow>
      \<exists>en0. m fd' = Some en0 \<and> (\<forall>k'. idx_of k' en' \<noteq> None \<longrightarrow> watch k' en' = watch k' en0) \<and> static_ok fd' en'"
  shows "tables_ok (swap_remove i es) m'"
proof -
  have ix: "indexed poll_key es (slot m)" using ok by (simp add: tables_ok_def)
  have lt: "i < length es" and ki: "poll_key (es ! i) = (k, fd)" using tables_ok_index [OF ok i] by auto
  have "slot m' = (\<lambda>key. if key = (k, fd) then None
      else if slot m key = Some (length es - 1) then Some i else slot m key)"
    by (rule ext) (rule sl)
  with indexed_swap_remove [OF ix i] have ix': "indexed poll_key (swap_remove i es) (slot m')" by simp
  moreover have "entry_ok (swap_remove i es) fd' en'" if en': "m' fd' = Some en'" for fd' en'
  proof -
    obtain en0 where en0: "m fd' = Some en0" "static_ok fd' en'"
      "\<And>k'. idx_of k' en' \<noteq> None \<Longrightarrow> watch k' en' = watch k' en0"
      using ent [OF en'] by blast
    have "pe_watch (swap_remove i es ! j) = watch k' en'" if j: "idx_of k' en' = Some j" for k' j
    proof -
      have kw: "k' \<noteq> Wake" using j by (auto simp: idx_of_def)
      with en' j have s': "slot m' (k', fd') = Some j" by (simp add: slot_def)
      then have nk: "(k', fd') \<noteq> (k, fd)" using sl [of "(k', fd')"] by auto
      have jl: "j < length es - 1" using indexed_at [OF ix' s'] by simp
      obtain i0 where i0: "slot m (k', fd') = Some i0" "swap_remove i es ! j = es ! i0"
      proof (cases "slot m (k', fd') = Some (length es - 1)")
        case True
        with s' sl [of "(k', fd')"] nk have "j = i" by (auto split: if_splits)
        with that [OF True] lt jl show ?thesis by (cases es rule: rev_cases) (auto simp: nth_swap_remove nth_append)
      next
        case False
        with s' sl [of "(k', fd')"] nk have "slot m (k', fd') = Some j" by (auto split: if_splits)
        moreover from this have "j \<noteq> i" using tables_ok_index(2) [OF ok] ki nk by auto
        ultimately show ?thesis using that [of j] lt jl by (simp add: nth_swap_remove)
      qed
      then have "idx_of k' en0 = Some i0" using en0(1) kw by (simp add: slot_def)
      with tables_ok_entry [OF ok en0(1)] i0 en0(3) [of k'] j show ?thesis by (simp add: entry_ok_def)
    qed
    then show ?thesis using en0(2) by (simp add: entry_ok_def)
  qed
  ultimately show ?thesis by (simp add: tables_ok_def)
qed

section \<open>The operations keep the tables consistent\<close>

definition set_idx :: "poll_kind \<Rightarrow> size_t \<Rightarrow> fd_entry \<Rightarrow> fd_entry" where
  "set_idx k i en = (if k = Read then en\<lparr>read_poll_index := i\<rparr> else en\<lparr>write_poll_index := i\<rparr>)"

definition deact :: "poll_kind \<Rightarrow> fd_entry \<Rightarrow> fd_entry" where
  "deact k en =
     (if k = Read
      then en\<lparr>read_active := False, read_ctx := fd_ctx_default, read_poll_index := invalid_index\<rparr>
      else en\<lparr>write_ctx := fd_ctx_default, write_active := False, write_poll_index := invalid_index\<rparr>)"

definition moved_table :: "poll_entry list \<Rightarrow> size_t \<Rightarrow> (fd_t \<rightharpoonup> fd_entry) \<Rightarrow> (fd_t \<rightharpoonup> fd_entry)" where
  "moved_table es i m =
     (if i = length es - 1 then m
      else m(owner_fd (last es) := map_option (set_idx (pe_kind (last es)) i) (m (owner_fd (last es)))))"

lemma idx_of_set_idx [simp]:
  "k \<noteq> Wake \<Longrightarrow> idx_of k' (set_idx k i en) = (if k' = k then map_option (\<lambda>_. i) (idx_of k en) else idx_of k' en)"
  by (cases k; cases k') (simp_all add: idx_of_def set_idx_def)

lemma idx_of_deact [simp]: "k \<noteq> Wake \<Longrightarrow> idx_of k' (deact k en) = (if k' = k then None else idx_of k' en)"
  by (cases k; cases k') (simp_all add: idx_of_def deact_def)

lemma watch_set_idx [simp]: "watch k' (set_idx k i en) = watch k' en"
  by (simp add: watch_def set_idx_def)

lemma watch_deact: "k \<noteq> Wake \<Longrightarrow> k' \<noteq> Wake \<Longrightarrow> k' \<noteq> k \<Longrightarrow> watch k' (deact k en) = watch k' en"
  by (cases k; cases k') (simp_all add: watch_def deact_def)

lemma static_ok_set_idx: "static_ok fd en \<Longrightarrow> idx_of k en \<noteq> None \<Longrightarrow> static_ok fd (set_idx k i en)"
  by (cases k) (auto simp: static_ok_def set_idx_def idx_of_def split: if_splits)

lemma static_ok_deact: "static_ok fd en \<Longrightarrow> static_ok fd (deact k en)"
  by (auto simp: static_ok_def deact_def)

lemma slot_set_idx:
  assumes "m fd = Some en" "idx_of k en = Some j" "k \<noteq> Wake"
  shows "slot (m(fd := map_option (set_idx k i) (m fd))) key = (if key = (k, fd) then Some i else slot m key)"
  using assms by (cases key) (simp add: slot_def)

lemma slot_deact:
  assumes "k \<noteq> Wake"
  shows "slot (m(fd := map_option (deact k) (m fd))) key = (if key = (k, fd) then None else slot m key)"
  using assms by (cases key; cases "m fd") (simp_all add: slot_def)

lemma tables_ok_last:
  assumes ok: "tables_ok es m" and i: "slot m (k, fd) = Some i" "k \<noteq> Wake"
  obtains en where "pe_kind (last es) \<noteq> Wake" "m (owner_fd (last es)) = Some en"
    "idx_of (pe_kind (last es)) en = Some (length es - 1)" "es \<noteq> []" "last es = es ! (length es - 1)"
proof -
  have lt: "i < length es" and ki: "poll_key (es ! i) = (k, fd)" using tables_ok_index [OF ok i(1)] by auto
  have l: "es \<noteq> []" using lt by auto
  then have "last es = es ! (length es - 1)" by (rule last_conv_nth)
  note l = l this
  have k0: "poll_key (es ! 0) = (Wake, -1)" using tables_ok_index [OF ok, of "(Wake, -1)" 0] by simp
  with ki i(2) have "i \<noteq> 0" by (auto intro: ccontr)
  with lt have "length es - 1 \<noteq> 0" by simp
  have s: "slot m (poll_key (last es)) = Some (length es - 1)"
    using indexed_nth [of poll_key es "slot m" "length es - 1"] ok l by (simp add: tables_ok_def)
  with \<open>length es - 1 \<noteq> 0\<close> have kw: "pe_kind (last es) \<noteq> Wake"
    by (auto simp: slot_def poll_key_def split: if_splits)
  with s obtain en where "m (owner_fd (last es)) = Some en" "idx_of (pe_kind (last es)) en = Some (length es - 1)"
    by (auto simp: slot_def poll_key_def bind_eq_Some_conv)
  with that kw l show ?thesis by blast
qed

lemma remove_poll_entry_eq:
  assumes ok: "tables_wf s" and i: "slot (m_fd_entries s) (k, fd) = Some i" "k \<noteq> Wake"
  shows "remove_poll_entry_by_index i s =
    s\<lparr>m_poll_entries := swap_remove i (m_poll_entries s),
      m_fd_entries := moved_table (m_poll_entries s) i (m_fd_entries s)\<rparr>"
proof -
  let ?es = "m_poll_entries s"
  have ok': "tables_ok ?es (m_fd_entries s)" using ok by (simp add: tables_wf_def)
  have lt: "i < length ?es" using tables_ok_index [OF ok' i(1)] by simp
  obtain en where l: "pe_kind (last ?es) \<noteq> Wake" "m_fd_entries s (owner_fd (last ?es)) = Some en"
    "last ?es = ?es ! (length ?es - 1)"
    using tables_ok_last [OF ok' i] by metis
  then have kind: "pe_kind (last ?es) = Read \<or> pe_kind (last ?es) = Write" using poll_kind.exhaust by blast
  show ?thesis
  proof (cases "i = length ?es - 1")
    case True
    then show ?thesis using lt
      by (simp add: remove_poll_entry_by_index_def moved_table_def swap_remove_def list_update_same_conv
          butlast_list_update Let_def)
  next
    case False
    then show ?thesis using lt l kind
      by (auto simp: remove_poll_entry_by_index_def Let_def moved_table_def update_poll_index_def
          mod_entry_def set_idx_def swap_remove_def)
  qed
qed

lemma tables_ok_rem:
  assumes ok: "tables_ok es m" and i: "slot m (k, fd) = Some i" "k \<noteq> Wake"
  defines "m1 \<equiv> moved_table es i m"
  shows "tables_ok (swap_remove i es) (m1(fd := map_option (deact k) (m1 fd)))"
proof (rule tables_ok_remove [OF ok i(1)])
  obtain en where l: "pe_kind (last es) \<noteq> Wake" "m (owner_fd (last es)) = Some en"
    "idx_of (pe_kind (last es)) en = Some (length es - 1)" "es \<noteq> []" "last es = es ! (length es - 1)"
    using tables_ok_last [OF ok i] by metis
  have lt: "i < length es" and ki: "poll_key (es ! i) = (k, fd)" using tables_ok_index [OF ok i(1)] by auto
  have key_last: "slot m key = Some (length es - 1) \<longleftrightarrow> key = poll_key (last es)" for key
    using tables_ok_index(2) [OF ok, of key "length es - 1"] indexed_nth [of poll_key es "slot m" "length es - 1"] ok l(4,5)
    by (auto simp: tables_ok_def)
  show "slot (m1(fd := map_option (deact k) (m1 fd))) key = (if key = (k, fd) then None
      else if slot m key = Some (length es - 1) then Some i else slot m key)" for key
  proof -
    have sm: "slot m1 key = (if slot m key = Some (length es - 1) then Some i else slot m key)"
    proof (cases "i = length es - 1")
      case True
      then show ?thesis by (simp add: m1_def moved_table_def)
    next
      case False
      then show ?thesis unfolding key_last m1_def moved_table_def
        using slot_set_idx [of m "owner_fd (last es)", OF l(2,3,1)] by (simp add: poll_key_def)
    qed
    show ?thesis unfolding slot_deact [OF i(2)] sm by simp
  qed
  show "\<exists>en0. m fd' = Some en0 \<and> (\<forall>k'. idx_of k' en' \<noteq> None \<longrightarrow> watch k' en' = watch k' en0) \<and> static_ok fd' en'"
    if en': "(m1(fd := map_option (deact k) (m1 fd))) fd' = Some en'" for fd' en'
  proof -
    have m1: "\<exists>en0. m fd' = Some en0 \<and> (\<forall>k'. watch k' en1 = watch k' en0) \<and> static_ok fd' en1"
      if "m1 fd' = Some en1" for en1
    proof (cases "i = length es - 1 \<or> fd' \<noteq> owner_fd (last es)")
      case True
      then have "m fd' = Some en1" using that by (auto simp: m1_def moved_table_def split: if_splits)
      then show ?thesis using tables_ok_entry [OF ok] by (auto simp: entry_ok_def)
    next
      case False
      then have "en1 = set_idx (pe_kind (last es)) i en" "m fd' = Some en"
        using that l(2) by (auto simp: m1_def moved_table_def)
      moreover have "static_ok fd' en" using tables_ok_entry [OF ok \<open>m fd' = Some en\<close>] by (simp add: entry_ok_def)
      ultimately show ?thesis using static_ok_set_idx l(3) by simp
    qed
    show ?thesis
    proof (cases "fd' = fd")
      case True
      then obtain en1 where "m1 fd' = Some en1" "en' = deact k en1" using en' by auto
      moreover from m1 [OF this(1)] obtain en0 where
        "m fd' = Some en0" "\<forall>k'. watch k' en1 = watch k' en0" "static_ok fd' en1" by blast
      moreover have "watch k' en' = watch k' en1" if "idx_of k' en' \<noteq> None" for k'
        using that i(2) \<open>en' = deact k en1\<close>
        by (cases "k' = Wake") (auto simp: idx_of_def [of Wake] watch_deact split: if_splits)
      ultimately show ?thesis using static_ok_deact by auto
    next
      case False
      with en' m1 [of en'] show ?thesis by auto
    qed
  qed
qed

text \<open>
  Each operation on consistent tables, as one update of the state; \<open>entry_at\<close> is what \<open>m_fd_entries[fd]\<close>
  finds or inserts.
\<close>

definition entry_at :: "fd_t \<Rightarrow> 'z poll_tables_scheme \<Rightarrow> fd_entry" where
  "entry_at fd s = (case m_fd_entries s fd of Some en \<Rightarrow> en | None \<Rightarrow> fd_entry_default)"

definition adopt :: "fd_t \<Rightarrow> fd_entry \<Rightarrow> fd_entry" where
  "adopt fd en = en\<lparr>en_fd := (if en_fd en = -1 then fd else en_fd en)\<rparr>"

lemma idx_of_adopt [simp]: "idx_of k (adopt fd en) = idx_of k en"
  by (cases k) (simp_all add: adopt_def idx_of_def)

lemma watch_adopt [simp]: "watch k (adopt fd en) = watch k en"
  by (simp add: adopt_def watch_def)

lemma static_ok_adopt [simp]: "static_ok fd' (adopt fd en) = static_ok fd' en"
  by (simp add: adopt_def static_ok_def)

lemma entry_ok_adopt [simp]: "entry_ok es fd' (adopt fd en) = entry_ok es fd' en"
  by (simp add: entry_ok_def)

lemma adopt_simps [simp]:
  "read_ctx (adopt fd en) = read_ctx en" "write_ctx (adopt fd en) = write_ctx en"
  "read_active (adopt fd en) = read_active en" "write_active (adopt fd en) = write_active en"
  "read_poll_index (adopt fd en) = read_poll_index en" "write_poll_index (adopt fd en) = write_poll_index en"
  by (simp_all add: adopt_def)

lemma entry_ok_default: "entry_ok es fd fd_entry_default"
  by (auto simp: entry_ok_def static_ok_def fd_entry_default_def idx_of_def split: poll_kind.splits)

lemma idx_of_default [simp]: "idx_of k fd_entry_default = None"
  by (cases k) (simp_all add: idx_of_def fd_entry_default_def)

lemma entry_ok_active:
  assumes "entry_ok es fd en"
  shows "read_active en \<Longrightarrow> pe_watch (es ! read_poll_index en) = (read_gen en, fd)"
    and "write_active en \<Longrightarrow> pe_watch (es ! write_poll_index en) = (write_gen en, ctx_fd (write_ctx en))"
proof -
  have w: "idx_of k en = Some i \<Longrightarrow> pe_watch (es ! i) = watch k en" for k i
    using assms by (simp add: entry_ok_def)
  have st: "static_ok fd en" using assms by (simp add: entry_ok_def)
  show "read_active en \<Longrightarrow> pe_watch (es ! read_poll_index en) = (read_gen en, fd)"
    using w [of Read "read_poll_index en"] st by (simp add: idx_of_def watch_def static_ok_def)
  show "write_active en \<Longrightarrow> pe_watch (es ! write_poll_index en) = (write_gen en, ctx_fd (write_ctx en))"
    using w [of Write "write_poll_index en"] by (simp add: idx_of_def watch_def)
qed

text \<open>After \<open>auto& entry = m_fd_entries[fd]\<close> and the write of \<open>entry.fd\<close>.\<close>

lemma tables_ok_ref:
  assumes ok: "tables_wf s"
  shows "tables_ok (m_poll_entries s) ((m_fd_entries s)(fd \<mapsto> adopt fd (entry_at fd s)))"
    and "entry_ok (m_poll_entries s) fd (adopt fd (entry_at fd s))"
proof -
  have ok': "tables_ok (m_poll_entries s) (m_fd_entries s)" using ok by (simp add: tables_wf_def)
  show "entry_ok (m_poll_entries s) fd (adopt fd (entry_at fd s))"
    using tables_ok_entry [OF ok'] by (auto simp: entry_at_def entry_ok_default split: option.splits)
  then show "tables_ok (m_poll_entries s) ((m_fd_entries s)(fd \<mapsto> adopt fd (entry_at fd s)))"
    using tables_ok_mod [OF ok'] tables_ok_insert [OF ok']
    by (cases "m_fd_entries s fd") (auto simp: entry_at_def)
qed

lemma entry_ref_eq:
  "mod_entry fd (adopt fd) (snd (entry_ref fd s)) =
     s\<lparr>m_fd_entries := (m_fd_entries s)(fd \<mapsto> adopt fd (entry_at fd s))\<rparr>"
  by (auto simp: mod_entry_def entry_ref_def entry_at_def split: option.splits)

lemma mod_entry_upd:
  "mod_entry fd f (s\<lparr>m_fd_entries := m(fd \<mapsto> en)\<rparr>) = s\<lparr>m_fd_entries := m(fd \<mapsto> f en)\<rparr>"
  by (simp add: mod_entry_def)

definition new_entry :: "fd_t \<Rightarrow> fd_t \<Rightarrow> poll_kind \<Rightarrow> short \<Rightarrow> 'z poll_tables_scheme \<Rightarrow> poll_entry" where
  "new_entry watched_fd owner kind events s =
     \<lparr>pfd = \<lparr>pfd_fd = watched_fd, pfd_events = events, pfd_revents = 0\<rparr>,
      owner_fd = owner, pe_kind = kind, pe_gen = m_gen s + 1\<rparr>"

lemma add_read_eq:
  fixes fd :: fd_t and s :: "'z poll_tables_scheme"
  assumes "tables_wf s"
  defines "en \<equiv> adopt fd (entry_at fd s)" and "es \<equiv> m_poll_entries s"
  shows "add_read fd events cb s =
    (True,
     if read_active en
     then s\<lparr>m_fd_entries := (m_fd_entries s)(fd \<mapsto>
              en\<lparr>read_ctx := \<lparr>ctx_fd = fd, ctx_cb = cb\<rparr>, read_active := True\<rparr>),
            m_poll_entries := es[read_poll_index en := (es ! read_poll_index en)\<lparr>pfd :=
              \<lparr>pfd_fd = fd, pfd_events = ucast events, pfd_revents = 0\<rparr>\<rparr>],
            trace := trace s @ [Ev_set Read fd cb]\<rparr>
     else s\<lparr>m_fd_entries := (m_fd_entries s)(fd \<mapsto>
              en\<lparr>read_ctx := \<lparr>ctx_fd = fd, ctx_cb = cb\<rparr>, read_active := True,
                 read_poll_index := length es, read_gen := m_gen s + 1\<rparr>),
            m_gen := m_gen s + 1,
            m_poll_entries := es @ [new_entry fd fd Read (ucast events) s],
            trace := trace s @ [Ev_add Read fd (m_gen s + 1) cb]\<rparr>)"
proof -
  have ok: "tables_ok es ((m_fd_entries s)(fd \<mapsto> en))"
    using tables_ok_ref(1) [OF assms(1)] by (simp add: en_def es_def)
  have inv: "read_poll_index en = invalid_index \<longleftrightarrow> \<not> read_active en"
    using tables_ok_invalid(1) [OF ok, of fd en] by simp
  have lt: "read_poll_index en < length es" if "read_active en"
    using tables_ok_index(1) [OF ok, of "(Read, fd)"] that by simp
  have "add_read fd events cb s =
     (let s = mod_entry fd (adopt fd) (snd (entry_ref fd s));
          s = mod_entry fd (\<lambda>en. en\<lparr>read_ctx := \<lparr>ctx_fd = fd, ctx_cb = cb\<rparr>, read_active := True\<rparr>) s;
          index = read_poll_index (the (m_fd_entries s fd))
      in if index = invalid_index then
           (let (i, s) = add_poll_entry fd fd Read (ucast events) s;
                g = pe_gen (m_poll_entries s ! i);
                s = mod_entry fd (\<lambda>en. en\<lparr>read_poll_index := i, read_gen := g\<rparr>) s
            in (True, log (Ev_add Read fd g cb) s))
         else (True, log (Ev_set Read fd cb) (set_poll_entry index fd (ucast events) s)))"
    by (simp add: add_read_def adopt_def [abs_def] case_prod_beta Let_def)
  also note entry_ref_eq [of fd s, folded en_def]
  finally show ?thesis using inv lt
    by (auto simp: mod_entry_upd Let_def add_poll_entry_def set_poll_entry_def log_def new_entry_def
        mod_entry_def es_def [symmetric])
qed

lemma add_read_wf [wf_intros]:
  assumes "tables_wf s"
  shows "tables_wf (snd (add_read fd events cb s))"
proof -
  define en es where d: "en = adopt fd (entry_at fd s)" "es = m_poll_entries s"
  have ok: "tables_ok es ((m_fd_entries s)(fd \<mapsto> en))" and e: "entry_ok es fd en"
    using tables_ok_ref [OF assms] by (simp_all add: d)
  show ?thesis
  proof (cases "read_active en")
    case True
    let ?i = "read_poll_index en"
    let ?en = "en\<lparr>read_ctx := \<lparr>ctx_fd = fd, ctx_cb = cb\<rparr>, read_active := True\<rparr>"
    have i: "?i < length es" and w: "pe_watch (es ! ?i) = (read_gen en, fd)"
      using tables_ok_index(1) [OF ok, of "(Read, fd)"] True entry_ok_active(1) [OF e] by auto
    have "idx_of k ?en = idx_of k en" "watch k ?en = watch k en" for k
      using e True by (cases k; simp add: idx_of_def entry_ok_def static_ok_def watch_def)+
    moreover have "static_ok fd ?en" using e True by (simp add: entry_ok_def static_ok_def)
    ultimately have "tables_ok es ((m_fd_entries s)(fd \<mapsto> ?en))"
      using tables_ok_mod [OF ok, of fd en ?en] e by (simp add: entry_ok_def)
    then have "tables_ok (es[?i := (es ! ?i)\<lparr>pfd := \<lparr>pfd_fd = fd, pfd_events = ucast events, pfd_revents = 0\<rparr>\<rparr>])
        ((m_fd_entries s)(fd \<mapsto> ?en))"
      by (rule tables_ok_write) (use i w in \<open>auto simp: poll_key_def pe_watch_def\<close>)
    then show ?thesis using True by (simp add: tables_wf_def add_read_eq [OF assms] d)
  next
    case False
    have "tables_ok (es @ [new_entry fd fd Read (ucast events) s]) (((m_fd_entries s)(fd \<mapsto> en))(fd \<mapsto>
        en\<lparr>read_ctx := \<lparr>ctx_fd = fd, ctx_cb = cb\<rparr>, read_active := True,
           read_poll_index := length es, read_gen := m_gen s + 1\<rparr>))"
      by (rule tables_ok_add [OF ok, where k = Read])
        (use e False in \<open>auto simp: new_entry_def poll_key_def pe_watch_def idx_of_def watch_def
          entry_ok_def static_ok_def split: poll_kind.splits\<close>)
    then show ?thesis using False by (simp add: tables_wf_def add_read_eq [OF assms] d)
  qed
qed

lemma sys_dup_simps [simp]:
  "m_poll_entries (snd (sys_dup s)) = m_poll_entries s" "m_fd_entries (snd (sys_dup s)) = m_fd_entries s"
  "m_pending_cleanup (snd (sys_dup s)) = m_pending_cleanup s" "m_gen (snd (sys_dup s)) = m_gen s"
  "m_retired_cbs (snd (sys_dup s)) = m_retired_cbs s" "os_closed (snd (sys_dup s)) = os_closed s"
  "trace (snd (sys_dup s)) = trace s" "poll_tables.more (snd (sys_dup s)) = poll_tables.more s"
  "os_opened (snd (sys_dup s)) = os_opened s @ (if fst (sys_dup s) = -1 then [] else [fst (sys_dup s)])"
  by (simp_all add: sys_dup_def split: list.splits)

lemma sys_dup_upd_fd:
  "sys_dup (s\<lparr>m_fd_entries := m\<rparr>) = (fst (sys_dup s), (snd (sys_dup s))\<lparr>m_fd_entries := m\<rparr>)"
  by (simp add: sys_dup_def split: list.splits)

lemma add_write_again:
  fixes fd :: fd_t and s :: "'z poll_tables_scheme"
  assumes "tables_wf s"
  defines "en \<equiv> adopt fd (entry_at fd s)" and "es \<equiv> m_poll_entries s"
  assumes "write_active en"
  shows "add_write fd cb s =
    (True, s\<lparr>m_fd_entries := (m_fd_entries s)(fd \<mapsto>
         en\<lparr>write_ctx := (write_ctx en)\<lparr>ctx_cb := cb\<rparr>, write_active := True\<rparr>),
       m_poll_entries := es[write_poll_index en := (es ! write_poll_index en)\<lparr>pfd :=
         \<lparr>pfd_fd = ctx_fd (write_ctx en), pfd_events = 0, pfd_revents = 0\<rparr>\<rparr>],
       trace := trace s @ [Ev_set Write fd cb]\<rparr>)"
proof -
  have ok: "tables_ok es ((m_fd_entries s)(fd \<mapsto> en))"
    using tables_ok_ref(1) [OF assms(1)] by (simp add: en_def es_def)
  have inv: "write_poll_index en \<noteq> invalid_index" "ctx_fd (write_ctx en) \<noteq> -1"
    using tables_ok_invalid(2,3) [OF ok, of fd en] assms(4) by simp_all
  have lt: "write_poll_index en < length es"
    using tables_ok_index(1) [OF ok, of "(Write, fd)"] assms(4) by simp
  have "add_write fd cb s =
     (let s = mod_entry fd (adopt fd) (snd (entry_ref fd s));
          ctx = write_ctx (the (m_fd_entries s fd));
          (d, s) = (if ctx_fd ctx = -1 then sys_dup s else (ctx_fd ctx, s));
          s = mod_entry fd (\<lambda>en. en\<lparr>write_ctx := (write_ctx en)\<lparr>ctx_fd := d\<rparr>\<rparr>) s
      in if d = -1 then (False, s)
         else
           (let s = mod_entry fd (\<lambda>en. en\<lparr>write_ctx := (write_ctx en)\<lparr>ctx_cb := cb\<rparr>, write_active := True\<rparr>) s;
                index = write_poll_index (the (m_fd_entries s fd))
            in if index = invalid_index then
                 (let (i, s) = add_poll_entry d fd Write 0 s;
                      g = pe_gen (m_poll_entries s ! i);
                      s = mod_entry fd (\<lambda>en. en\<lparr>write_poll_index := i, write_gen := g\<rparr>) s
                  in (True, log (Ev_add Write fd g cb) s))
               else (True, log (Ev_set Write fd cb) (set_poll_entry index d 0 s))))"
    by (simp add: add_write_def adopt_def [abs_def] case_prod_beta Let_def)
  also note entry_ref_eq [of fd s, folded en_def]
  finally show ?thesis using inv lt
    by (simp add: mod_entry_upd Let_def set_poll_entry_def log_def es_def [symmetric])
qed

lemma add_write_new:
  fixes fd :: fd_t and s :: "'z poll_tables_scheme"
  assumes "tables_wf s"
  defines "en \<equiv> adopt fd (entry_at fd s)" and "es \<equiv> m_poll_entries s" and "d \<equiv> fst (sys_dup s)"
  assumes "\<not> write_active en"
  shows "add_write fd cb s =
    (if d = -1 then (False, (snd (sys_dup s))\<lparr>m_fd_entries := (m_fd_entries s)(fd \<mapsto> en)\<rparr>)
     else (True, (snd (sys_dup s))\<lparr>m_fd_entries := (m_fd_entries s)(fd \<mapsto>
         en\<lparr>write_ctx := \<lparr>ctx_fd = d, ctx_cb = cb\<rparr>, write_active := True,
            write_poll_index := length es, write_gen := m_gen s + 1\<rparr>),
       m_gen := m_gen s + 1,
       m_poll_entries := es @ [new_entry d fd Write 0 s],
       trace := trace s @ [Ev_add Write fd (m_gen s + 1) cb]\<rparr>))"
proof -
  have ok: "tables_ok es ((m_fd_entries s)(fd \<mapsto> en))"
    using tables_ok_ref(1) [OF assms(1)] by (simp add: en_def es_def)
  have inv: "write_poll_index en = invalid_index" "write_ctx en = fd_ctx_default"
    using tables_ok_entry [OF ok, of fd en] assms(5) by (simp_all add: entry_ok_def static_ok_def)
  have same: "en\<lparr>write_ctx := \<lparr>ctx_fd = -1, ctx_cb = None\<rparr>\<rparr> = en"
    using inv(2) by (cases en) (simp add: fd_ctx_default_def)
  have "add_write fd cb s =
     (let s = mod_entry fd (adopt fd) (snd (entry_ref fd s));
          ctx = write_ctx (the (m_fd_entries s fd));
          (d, s) = (if ctx_fd ctx = -1 then sys_dup s else (ctx_fd ctx, s));
          s = mod_entry fd (\<lambda>en. en\<lparr>write_ctx := (write_ctx en)\<lparr>ctx_fd := d\<rparr>\<rparr>) s
      in if d = -1 then (False, s)
         else
           (let s = mod_entry fd (\<lambda>en. en\<lparr>write_ctx := (write_ctx en)\<lparr>ctx_cb := cb\<rparr>, write_active := True\<rparr>) s;
                index = write_poll_index (the (m_fd_entries s fd))
            in if index = invalid_index then
                 (let (i, s) = add_poll_entry d fd Write 0 s;
                      g = pe_gen (m_poll_entries s ! i);
                      s = mod_entry fd (\<lambda>en. en\<lparr>write_poll_index := i, write_gen := g\<rparr>) s
                  in (True, log (Ev_add Write fd g cb) s))
               else (True, log (Ev_set Write fd cb) (set_poll_entry index d 0 s))))"
    by (simp add: add_write_def adopt_def [abs_def] case_prod_beta Let_def)
  also note entry_ref_eq [of fd s, folded en_def]
  finally show ?thesis using inv
    by (auto simp: same mod_entry_upd Let_def add_poll_entry_def log_def new_entry_def d_def sys_dup_upd_fd
        fd_ctx_default_def mod_entry_def es_def [symmetric])
qed

lemma not_Write: "k \<noteq> Write \<Longrightarrow> k \<noteq> Wake \<Longrightarrow> k = Read \<longleftrightarrow> True"
  by (cases k) simp_all

lemma add_write_wf [wf_intros]:
  assumes "tables_wf s"
  shows "tables_wf (snd (add_write fd cb s))"
proof -
  define en es where d: "en = adopt fd (entry_at fd s)" "es = m_poll_entries s"
  have ok: "tables_ok es ((m_fd_entries s)(fd \<mapsto> en))" and e: "entry_ok es fd en"
    using tables_ok_ref [OF assms] by (simp_all add: d)
  show ?thesis
  proof (cases "write_active en")
    case True
    let ?i = "write_poll_index en"
    let ?en = "en\<lparr>write_ctx := (write_ctx en)\<lparr>ctx_cb := cb\<rparr>, write_active := True\<rparr>"
    have i: "?i < length es" and w: "pe_watch (es ! ?i) = (write_gen en, ctx_fd (write_ctx en))"
      using tables_ok_index(1) [OF ok, of "(Write, fd)"] True entry_ok_active(2) [OF e] by auto
    have "idx_of k ?en = idx_of k en" "watch k ?en = watch k en" for k
      using True by (cases k; simp add: idx_of_def watch_def)+
    moreover have "static_ok fd ?en" using e True by (simp add: entry_ok_def static_ok_def)
    ultimately have "tables_ok es ((m_fd_entries s)(fd \<mapsto> ?en))"
      using tables_ok_mod [OF ok, of fd en ?en] e by (simp add: entry_ok_def)
    then have "tables_ok (es[?i := (es ! ?i)\<lparr>pfd :=
          \<lparr>pfd_fd = ctx_fd (write_ctx en), pfd_events = 0, pfd_revents = 0\<rparr>\<rparr>]) ((m_fd_entries s)(fd \<mapsto> ?en))"
      by (rule tables_ok_write) (use i w in \<open>auto simp: poll_key_def pe_watch_def\<close>)
    then show ?thesis using add_write_again [OF assms] True by (simp add: tables_wf_def d)
  next
    case False
    let ?en = "en\<lparr>write_ctx := \<lparr>ctx_fd = fst (sys_dup s), ctx_cb = cb\<rparr>, write_active := True,
           write_poll_index := length es, write_gen := m_gen s + 1\<rparr>"
    have "tables_ok (es @ [new_entry (fst (sys_dup s)) fd Write 0 s]) (((m_fd_entries s)(fd \<mapsto> en))(fd \<mapsto> ?en))"
      if "fst (sys_dup s) \<noteq> -1"
      by (rule tables_ok_add [OF ok, where k = Write and fd = fd and en = en and en' = ?en])
        (use e False that in \<open>auto simp: new_entry_def poll_key_def pe_watch_def idx_of_def watch_def
          entry_ok_def static_ok_def not_Write split: poll_kind.splits\<close>)
    then show ?thesis using add_write_new [OF assms] ok False by (simp add: tables_wf_def d)
  qed
qed

lemma moved_table_at:
  assumes ok: "tables_ok es m" and i: "slot m (k, fd) = Some i" "k \<noteq> Wake" and en: "m fd' = Some en"
  obtains en1 where "moved_table es i m fd' = Some en1" "read_active en1 = read_active en"
    "write_active en1 = write_active en" "read_ctx en1 = read_ctx en" "write_ctx en1 = write_ctx en"
    "read_gen en1 = read_gen en" "write_gen en1 = write_gen en"
proof (cases "i = length es - 1 \<or> fd' \<noteq> owner_fd (last es)")
  case True
  then have "moved_table es i m fd' = Some en" using en by (auto simp: moved_table_def)
  with that show ?thesis by blast
next
  case False
  then have "moved_table es i m fd' = Some (set_idx (pe_kind (last es)) i en)"
    using en by (auto simp: moved_table_def)
  with that show ?thesis by (simp add: set_idx_def split: if_splits)
qed

definition removed :: "poll_kind \<Rightarrow> fd_t \<Rightarrow> size_t \<Rightarrow> 'z poll_tables_scheme \<Rightarrow> 'z poll_tables_scheme" where
  "removed k fd i s =
     (let m1 = moved_table (m_poll_entries s) i (m_fd_entries s) in
      s\<lparr>m_poll_entries := swap_remove i (m_poll_entries s),
        m_fd_entries := m1(fd := map_option (deact k) (m1 fd))\<rparr>)"

lemma removed_wf:
  assumes "tables_wf s" "slot (m_fd_entries s) (k, fd) = Some i" "k \<noteq> Wake"
  shows "tables_wf (removed k fd i s)"
  using tables_ok_rem [of "m_poll_entries s" "m_fd_entries s" k fd i] assms
  by (simp add: tables_wf_def removed_def Let_def)

lemma rem_read_eq:
  assumes "tables_wf s" and en: "m_fd_entries s fd = Some en" and a: "read_active en" "ctx_fd (read_ctx en) \<noteq> -1"
  shows "rem_read fd s = (True, (removed Read fd (read_poll_index en) s)
    \<lparr>m_retired_cbs := m_retired_cbs s @ (case ctx_cb (read_ctx en) of None \<Rightarrow> [] | Some c \<Rightarrow> [c]),
     trace := trace s @ [Ev_rem Read fd],
     m_pending_cleanup := m_pending_cleanup s @ (if write_active en then [] else [fd])\<rparr>)"
proof -
  have ok: "tables_ok (m_poll_entries s) (m_fd_entries s)" using assms(1) by (simp add: tables_wf_def)
  have sl: "slot (m_fd_entries s) (Read, fd) = Some (read_poll_index en)" using en a by simp
  obtain en1 where en1: "moved_table (m_poll_entries s) (read_poll_index en) (m_fd_entries s) fd = Some en1"
    "write_active en1 = write_active en"
    using moved_table_at [OF ok sl _ en] by auto
  show ?thesis using en a en1
    by (auto simp: rem_read_def remove_poll_entry_eq [OF assms(1) sl] removed_def Let_def mod_entry_def deact_def
        retire_cb_def log_def fd_ctx_default_def split: option.splits)
qed

lemma rem_read_inactive:
  assumes "tables_wf s" and en: "m_fd_entries s fd = Some en" and "\<not> read_active en \<or> fd = -1"
  shows "rem_read fd s = (True, s\<lparr>m_pending_cleanup :=
    m_pending_cleanup s @ (if read_active en \<or> write_active en then [] else [fd])\<rparr>)"
proof -
  have "\<not> (read_active en \<and> ctx_fd (read_ctx en) \<noteq> -1)"
    using tables_ok_entry [of "m_poll_entries s" "m_fd_entries s" fd en] assms
    by (auto simp: tables_wf_def entry_ok_def static_ok_def)
  then show ?thesis using en by (auto simp: rem_read_def Let_def)
qed

lemma rem_write_eq:
  assumes "tables_wf s" and en: "m_fd_entries s fd = Some en" and a: "write_active en"
  shows "rem_write fd s = (True, (removed Write fd (write_poll_index en) s)
    \<lparr>m_retired_cbs := m_retired_cbs s @ (case ctx_cb (write_ctx en) of None \<Rightarrow> [] | Some c \<Rightarrow> [c]),
     os_closed := os_closed s @ [ctx_fd (write_ctx en)],
     trace := trace s @ [Ev_rem Write fd],
     m_pending_cleanup := m_pending_cleanup s @ (if read_active en then [] else [fd])\<rparr>)"
proof -
  have ok: "tables_ok (m_poll_entries s) (m_fd_entries s)" using assms(1) by (simp add: tables_wf_def)
  have sl: "slot (m_fd_entries s) (Write, fd) = Some (write_poll_index en)" using en a by simp
  have fd: "ctx_fd (write_ctx en) \<noteq> -1" using tables_ok_invalid(3) [OF ok en] a by simp
  obtain en1 where en1: "moved_table (m_poll_entries s) (write_poll_index en) (m_fd_entries s) fd = Some en1"
    "read_active en1 = read_active en"
    using moved_table_at [OF ok sl _ en] by auto
  show ?thesis using en a en1 fd
    by (auto simp: rem_write_def remove_poll_entry_eq [OF assms(1) sl] removed_def Let_def mod_entry_def deact_def
        retire_cb_def sys_close_def log_def fd_ctx_default_def split: option.splits)
qed

lemma rem_write_inactive:
  assumes "tables_wf s" and en: "m_fd_entries s fd = Some en" and "\<not> write_active en"
  shows "rem_write fd s = (True, s\<lparr>m_pending_cleanup :=
    m_pending_cleanup s @ (if read_active en then [] else [fd])\<rparr>)"
  using assms by (auto simp: rem_write_def Let_def)

lemma tables_wf_cong:
  "m_poll_entries t = m_poll_entries s \<Longrightarrow> m_fd_entries t = m_fd_entries s \<Longrightarrow> tables_wf t = tables_wf s"
  by (simp add: tables_wf_def)

lemma rem_read_wf [wf_intros]:
  assumes "tables_wf s"
  shows "tables_wf (snd (rem_read fd s))"
proof (cases "m_fd_entries s fd")
  case None
  then show ?thesis using assms by (simp add: rem_read_def)
next
  case (Some en)
  show ?thesis
  proof (cases "read_active en \<and> fd \<noteq> -1")
    case True
    then have "ctx_fd (read_ctx en) \<noteq> -1"
      using tables_ok_entry [of "m_poll_entries s" "m_fd_entries s" fd en] assms Some
      by (auto simp: tables_wf_def entry_ok_def static_ok_def)
    moreover have "tables_wf (removed Read fd (read_poll_index en) s)"
      by (rule removed_wf) (use assms Some True in auto)
    ultimately show ?thesis using rem_read_eq [OF assms Some] True by (simp add: tables_wf_def)
  next
    case False
    then show ?thesis using rem_read_inactive [OF assms Some] assms by (simp add: tables_wf_def)
  qed
qed

lemma rem_write_wf [wf_intros]:
  assumes "tables_wf s"
  shows "tables_wf (snd (rem_write fd s))"
proof (cases "m_fd_entries s fd")
  case None
  then show ?thesis using assms by (simp add: rem_write_def)
next
  case (Some en)
  show ?thesis
  proof (cases "write_active en")
    case True
    have "tables_wf (removed Write fd (write_poll_index en) s)"
      by (rule removed_wf) (use assms Some True in auto)
    then show ?thesis using rem_write_eq [OF assms Some True] by (simp add: tables_wf_def)
  next
    case False
    then show ?thesis using rem_write_inactive [OF assms Some] assms by (simp add: tables_wf_def)
  qed
qed

lemma set_poll_events_wf [wf_intros]:
  assumes "tables_wf s"
  shows "tables_wf (set_poll_events i events s)"
  using tables_ok_write [of "m_poll_entries s" "m_fd_entries s" i] assms
  by (auto simp: tables_wf_def set_poll_events_def poll_key_def pe_watch_def)

lemma req_write_wf [wf_intros]: "tables_wf s \<Longrightarrow> tables_wf (snd (req_write fd events s))"
  by (auto simp: req_write_def set_poll_events_wf split: option.splits)

lemma cleanup_fd_wf [wf_intros]:
  assumes "tables_wf s"
  shows "tables_wf (cleanup_fd fd s)"
proof -
  have "tables_ok (m_poll_entries s) ((m_fd_entries s)(fd := None))"
    if "m_fd_entries s fd = Some en" "\<not> read_active en" "\<not> write_active en" for en
    using tables_ok_delete [of "m_poll_entries s" "m_fd_entries s" fd en] assms that
    by (auto simp: tables_wf_def idx_of_def split: poll_kind.splits)
  with assms show ?thesis
    by (auto simp: cleanup_fd_def tables_wf_def sys_close_def Let_def split: option.splits)
qed

lemma run_cleanup_wf [wf_intros]: "tables_wf s \<Longrightarrow> tables_wf (run_cleanup s)"
  using fold_inv [of tables_wf cleanup_fd, OF cleanup_fd_wf] by (simp add: run_cleanup_def tables_wf_def)


section \<open>Registrations as an abstract registry\<close>

text \<open>
  The contract of the reactor, as a replay of its history: which registration is live, with which
  generation and callback; which registrations the last poll saw; which generations were ever used. A
  dispatch is legal only for a registration that the last poll saw and that is still the same live one.
\<close>

record registry =
  sp_reg :: "poll_kind \<times> fd_t \<Rightarrow> (u64 \<times> nat option) option"
  sp_polled :: "poll_kind \<times> fd_t \<Rightarrow> u64 option"
  sp_used :: "u64 list"

definition registry_empty :: registry where
  "registry_empty = \<lparr>sp_reg = (\<lambda>_. None), sp_polled = (\<lambda>_. None), sp_used = []\<rparr>"

fun registry_step :: "event \<Rightarrow> registry \<Rightarrow> registry option" where
  "registry_step (Ev_add k fd g cb) sp =
     (if sp_reg sp (k, fd) = None \<and> g \<notin> set (sp_used sp)
      then Some (sp\<lparr>sp_reg := (sp_reg sp)((k, fd) := Some (g, cb)), sp_used := g # sp_used sp\<rparr>) else None)"
| "registry_step (Ev_set k fd cb) sp =
     (case sp_reg sp (k, fd) of
        None \<Rightarrow> None
      | Some (g, _) \<Rightarrow> Some (sp\<lparr>sp_reg := (sp_reg sp)((k, fd) := Some (g, cb))\<rparr>))"
| "registry_step (Ev_rem k fd) sp =
     (if sp_reg sp (k, fd) = None then None
      else Some (sp\<lparr>sp_reg := (sp_reg sp)((k, fd) := None)\<rparr>))"
| "registry_step (Ev_poll _) sp = Some (sp\<lparr>sp_polled := (\<lambda>key. map_option fst (sp_reg sp key))\<rparr>)"
| "registry_step (Ev_dispatch k fd g c) sp =
     (if sp_reg sp (k, fd) = Some (g, Some c) \<and> sp_polled sp (k, fd) = Some g then Some sp else None)"
| "registry_step _ sp = Some sp"

primrec registry_run :: "event list \<Rightarrow> registry \<Rightarrow> registry option" where
  "registry_run [] sp = Some sp"
| "registry_run (ev # evs) sp = Option.bind (registry_step ev sp) (registry_run evs)"

fun is_add :: "event \<Rightarrow> bool" where
  "is_add (Ev_add _ _ _ _) = True"
| "is_add _ = False"

definition adds :: "event list \<Rightarrow> nat" where
  "adds evs = length (filter is_add evs)"

definition reg_en :: "poll_kind \<Rightarrow> fd_entry \<Rightarrow> (u64 \<times> nat option) option" where
  "reg_en k en =
     (case k of
        Wake \<Rightarrow> None
      | Read \<Rightarrow> (if read_active en then Some (read_gen en, ctx_cb (read_ctx en)) else None)
      | Write \<Rightarrow> (if write_active en then Some (write_gen en, ctx_cb (write_ctx en)) else None))"

definition reg_of :: "(fd_t \<rightharpoonup> fd_entry) \<Rightarrow> poll_kind \<times> fd_t \<Rightarrow> (u64 \<times> nat option) option" where
  "reg_of m = (\<lambda>(k, fd). Option.bind (m fd) (reg_en k))"

text \<open>
  The tables implement the registry: as long as the 64-bit counter has not wrapped, the history
  replays and the live registrations are those of the tables. \<open>P\<close> is what the client knows of the last
  poll.
\<close>

definition refines :: "((poll_kind \<times> fd_t \<Rightarrow> u64 option) \<Rightarrow> bool) \<Rightarrow> 'z poll_tables_scheme \<Rightarrow> bool" where
  "refines P s \<longleftrightarrow>
     m_gen s = word_of_nat (adds (trace s)) \<and>
     (adds (trace s) < 2 ^ 64 \<longrightarrow>
        (\<exists>sp. registry_run (trace s) registry_empty = Some sp \<and> sp_reg sp = reg_of (m_fd_entries s) \<and>
           set (sp_used sp) = word_of_nat ` {1..adds (trace s)} \<and> P (sp_polled sp)))"

lemma registry_run_append:
  "registry_run (xs @ ys) sp = Option.bind (registry_run xs sp) (registry_run ys)"
  by (induction xs arbitrary: sp) (auto simp: bind_eq_Some_conv split: Option.bind_splits)

lemma adds_simps [simp]:
  "adds [] = 0" "adds (xs @ ys) = adds xs + adds ys" "adds (ev # evs) = (if is_add ev then 1 else 0) + adds evs"
  by (simp_all add: adds_def)

lemma refines_append:
  assumes "refines P s" "trace t = trace s @ [ev]" "\<not> is_add ev" "m_gen t = m_gen s"
    and step: "\<And>sp. sp_reg sp = reg_of (m_fd_entries s) \<Longrightarrow> P (sp_polled sp) \<Longrightarrow>
      \<exists>sp'. registry_step ev sp = Some sp' \<and> sp_reg sp' = reg_of (m_fd_entries t) \<and>
        sp_used sp' = sp_used sp \<and> Q (sp_polled sp')"
  shows "refines Q t"
  unfolding refines_def
proof (intro conjI impI)
  show "m_gen t = word_of_nat (adds (trace t))" using assms(1-4) by (simp add: refines_def)
  assume "adds (trace t) < 2 ^ 64"
  then obtain sp where sp: "registry_run (trace s) registry_empty = Some sp" "sp_reg sp = reg_of (m_fd_entries s)"
    "set (sp_used sp) = word_of_nat ` {1..adds (trace s)}" "P (sp_polled sp)"
    using assms(1-3) by (auto simp: refines_def)
  obtain sp' where "registry_step ev sp = Some sp'" "sp_reg sp' = reg_of (m_fd_entries t)"
    "sp_used sp' = sp_used sp" "Q (sp_polled sp')" using step [OF sp(2,4)] by blast
  then show "\<exists>sp. registry_run (trace t) registry_empty = Some sp \<and> sp_reg sp = reg_of (m_fd_entries t) \<and>
      set (sp_used sp) = word_of_nat ` {1..adds (trace t)} \<and> Q (sp_polled sp)"
    using sp assms(2,3) by (auto simp: registry_run_append)
qed

lemma refines_same:
  assumes "refines P s" "trace t = trace s" "m_gen t = m_gen s" "reg_of (m_fd_entries t) = reg_of (m_fd_entries s)"
  shows "refines P t"
  using assms by (simp add: refines_def)

lemma gen_fresh:
  assumes "Suc n < 2 ^ 64"
  shows "(word_of_nat (Suc n) :: u64) \<notin> word_of_nat ` {1..n}"
proof
  assume "(word_of_nat (Suc n) :: u64) \<in> word_of_nat ` {1..n}"
  then obtain i where "i \<le> n" "(word_of_nat i :: u64) = word_of_nat (Suc n)" by auto
  then have "unat (word_of_nat i :: u64) = unat (word_of_nat (Suc n) :: u64)" by simp
  with assms \<open>i \<le> n\<close> show False by (simp add: unat_of_nat take_bit_eq_mod del: of_nat_Suc)
qed

lemma refines_add:
  assumes "refines P s" "trace t = trace s @ [Ev_add k fd (m_gen s + 1) cb]" "m_gen t = m_gen s + 1"
    and "reg_of (m_fd_entries s) (k, fd) = None"
    and "reg_of (m_fd_entries t) = (reg_of (m_fd_entries s))((k, fd) := Some (m_gen s + 1, cb))"
  shows "refines P t"
  unfolding refines_def
proof (intro conjI impI)
  have gen: "m_gen s = word_of_nat (adds (trace s))" using assms(1) by (simp add: refines_def)
  then show "m_gen t = word_of_nat (adds (trace t))" using assms(2,3) by simp
  assume lt: "adds (trace t) < 2 ^ 64"
  then obtain sp where sp: "registry_run (trace s) registry_empty = Some sp" "sp_reg sp = reg_of (m_fd_entries s)"
    "set (sp_used sp) = word_of_nat ` {1..adds (trace s)}" "P (sp_polled sp)"
    using assms(1,2) by (auto simp: refines_def)
  have g: "m_gen s + 1 = word_of_nat (Suc (adds (trace s)))" by (simp add: gen)
  have "m_gen s + 1 \<notin> set (sp_used sp)"
    using gen_fresh [of "adds (trace s)"] lt assms(2) unfolding g sp(3) by simp
  then show "\<exists>sp. registry_run (trace t) registry_empty = Some sp \<and> sp_reg sp = reg_of (m_fd_entries t) \<and>
      set (sp_used sp) = word_of_nat ` {1..adds (trace t)} \<and> P (sp_polled sp)"
    using sp assms(2,4,5) g by (simp add: registry_run_append atLeastAtMostSuc_conv)
qed

lemma reg_of_upd:
  "reg_of (m(fd \<mapsto> en)) (k, fd') = (if fd' = fd then reg_en k en else reg_of m (k, fd'))"
  by (simp add: reg_of_def)

lemma reg_en_simps [simp]:
  "reg_en k fd_entry_default = None"
  "reg_en k (adopt fd en) = reg_en k en"
  "reg_en k (set_idx k' i en) = reg_en k en"
  "k' \<noteq> Wake \<Longrightarrow> reg_en k (deact k' en) = (if k = k' then None else reg_en k en)"
  by (cases k; cases k'; simp add: reg_en_def fd_entry_default_def adopt_def set_idx_def deact_def)+

lemma reg_of_ref:
  "reg_of m (k, fd) = reg_en k (case m fd of Some en \<Rightarrow> en | None \<Rightarrow> fd_entry_default)"
  by (simp add: reg_of_def split: option.splits)

lemma reg_of_at: "reg_of (m_fd_entries s) (k, fd) = reg_en k (adopt fd (entry_at fd s))"
  by (simp add: reg_of_ref entry_at_def)

lemma reg_of_upd_ref: "reg_of ((m_fd_entries s)(fd \<mapsto> adopt fd (entry_at fd s))) = reg_of (m_fd_entries s)"
proof
  fix key show "reg_of ((m_fd_entries s)(fd \<mapsto> adopt fd (entry_at fd s))) key = reg_of (m_fd_entries s) key"
    using reg_of_at [of s] by (cases key) (simp add: reg_of_upd)
qed

lemma reg_of_upd_one:
  assumes "\<And>k'. reg_en k' en' = (if k' = k then v else reg_en k' (adopt fd (entry_at fd s)))"
  shows "reg_of ((m_fd_entries s)(fd \<mapsto> en')) = (reg_of (m_fd_entries s))((k, fd) := v)"
proof
  fix key show "reg_of ((m_fd_entries s)(fd \<mapsto> en')) key = ((reg_of (m_fd_entries s))((k, fd) := v)) key"
    using reg_of_at [of s] assms by (cases key) (simp add: reg_of_upd)
qed

lemma reg_of_deact:
  "k \<noteq> Wake \<Longrightarrow> reg_of (m(fd := map_option (deact k) (m fd))) key = (if key = (k, fd) then None else reg_of m key)"
  by (cases key; cases "m fd") (simp_all add: reg_of_def)

lemma reg_of_removed:
  assumes "k \<noteq> Wake"
  shows "reg_of (m_fd_entries (removed k fd i s)) = (reg_of (m_fd_entries s))((k, fd) := None)"
proof
  fix key
  have m: "reg_of (moved_table es i m) key = reg_of m key" for es m
    by (cases key) (auto simp: moved_table_def reg_of_def split: Option.bind_splits)
  show "reg_of (m_fd_entries (removed k fd i s)) key = ((reg_of (m_fd_entries s))((k, fd) := None)) key"
    using m by (simp add: removed_def Let_def reg_of_deact [OF assms])
qed

lemma add_read_refines:
  assumes "tables_wf s" "refines P s"
  shows "refines P (snd (add_read fd events cb s))"
proof -
  define en where d: "en = adopt fd (entry_at fd s)"
  show ?thesis
  proof (cases "read_active en")
    case True
    let ?t = "snd (add_read fd events cb s)"
    have old: "reg_of (m_fd_entries s) (Read, fd) = Some (read_gen en, ctx_cb (read_ctx en))"
      using True reg_of_at [of s Read fd] by (simp add: d reg_en_def)
    have new: "reg_of (m_fd_entries ?t) = (reg_of (m_fd_entries s))((Read, fd) := Some (read_gen en, cb))"
      using True reg_of_upd_one [of "en\<lparr>read_ctx := \<lparr>ctx_fd = fd, ctx_cb = cb\<rparr>, read_active := True\<rparr>" Read _ fd s]
      by (auto simp: add_read_eq [OF assms(1)] d reg_en_def split: poll_kind.splits)
    show ?thesis
      by (rule refines_append [OF assms(2), where ev = "Ev_set Read fd cb"])
        (use True old new in \<open>simp_all add: add_read_eq [OF assms(1)] d\<close>)
  next
    case False
    show ?thesis
      by (rule refines_add [OF assms(2), where k = Read and fd = fd and cb = cb])
        (use False reg_of_at [of s Read fd] in \<open>auto simp: add_read_eq [OF assms(1)] d reg_en_def
          split: poll_kind.splits intro!: reg_of_upd_one\<close>)
  qed
qed

lemma add_write_refines:
  assumes "tables_wf s" "refines P s"
  shows "refines P (snd (add_write fd cb s))"
proof -
  define en where d: "en = adopt fd (entry_at fd s)"
  consider (again) "write_active en" | (fail) "\<not> write_active en" "fst (sys_dup s) = -1"
    | (new) "\<not> write_active en" "fst (sys_dup s) \<noteq> -1" by blast
  then show ?thesis
  proof cases
    case again
    let ?t = "snd (add_write fd cb s)"
    have old: "reg_of (m_fd_entries s) (Write, fd) = Some (write_gen en, ctx_cb (write_ctx en))"
      using again reg_of_at [of s Write fd] by (simp add: d reg_en_def)
    have new: "reg_of (m_fd_entries ?t) = (reg_of (m_fd_entries s))((Write, fd) := Some (write_gen en, cb))"
      using again reg_of_upd_one [of "en\<lparr>write_ctx := (write_ctx en)\<lparr>ctx_cb := cb\<rparr>, write_active := True\<rparr>" Write _ fd s]
      by (auto simp: add_write_again [OF assms(1)] d reg_en_def split: poll_kind.splits)
    show ?thesis
      by (rule refines_append [OF assms(2), where ev = "Ev_set Write fd cb"])
        (use again old new in \<open>simp_all add: add_write_again [OF assms(1)] d\<close>)
  next
    case fail
    then show ?thesis using assms(2) reg_of_upd_ref [of s fd]
      by (simp add: refines_def add_write_new [OF assms(1)] d)
  next
    case new
    show ?thesis
      by (rule refines_add [OF assms(2), where k = Write and fd = fd and cb = cb])
        (use new reg_of_at [of s Write fd] in \<open>auto simp: add_write_new [OF assms(1)] d reg_en_def
          split: poll_kind.splits intro!: reg_of_upd_one\<close>)
  qed
qed

lemma rem_read_refines:
  assumes "tables_wf s" "refines P s"
  shows "refines P (snd (rem_read fd s))"
proof (cases "m_fd_entries s fd")
  case None
  then show ?thesis using assms by (simp add: rem_read_def)
next
  case (Some en)
  show ?thesis
  proof (cases "read_active en \<and> ctx_fd (read_ctx en) \<noteq> -1")
    case True
    have new: "reg_of (m_fd_entries (snd (rem_read fd s))) = (reg_of (m_fd_entries s))((Read, fd) := None)"
      using True reg_of_removed [of Read fd "read_poll_index en" s] by (simp add: rem_read_eq [OF assms(1) Some])
    show ?thesis
      by (rule refines_append [OF assms(2), where ev = "Ev_rem Read fd"])
        (use True new Some in \<open>auto simp: rem_read_eq [OF assms(1) Some] removed_def Let_def reg_of_def reg_en_def\<close>)
  next
    case False
    then have "\<not> read_active en \<or> fd = -1"
      using tables_ok_entry [of "m_poll_entries s" "m_fd_entries s" fd en] assms(1) Some
      by (auto simp: tables_wf_def entry_ok_def static_ok_def)
    then show ?thesis using assms(2) by (simp add: refines_def rem_read_inactive [OF assms(1) Some])
  qed
qed

lemma rem_write_refines:
  assumes "tables_wf s" "refines P s"
  shows "refines P (snd (rem_write fd s))"
proof (cases "m_fd_entries s fd")
  case None
  then show ?thesis using assms by (simp add: rem_write_def)
next
  case (Some en)
  show ?thesis
  proof (cases "write_active en")
    case True
    have new: "reg_of (m_fd_entries (snd (rem_write fd s))) = (reg_of (m_fd_entries s))((Write, fd) := None)"
      using True reg_of_removed [of Write fd "write_poll_index en" s] by (simp add: rem_write_eq [OF assms(1) Some])
    show ?thesis
      by (rule refines_append [OF assms(2), where ev = "Ev_rem Write fd"])
        (use True new Some in \<open>auto simp: rem_write_eq [OF assms(1) Some] removed_def Let_def reg_of_def reg_en_def\<close>)
  next
    case False
    then show ?thesis using assms(2) by (simp add: refines_def rem_write_inactive [OF assms(1) Some])
  qed
qed

lemma set_poll_events_refines: "refines P s \<Longrightarrow> refines P (set_poll_events i events s)"
  by (simp add: refines_def set_poll_events_def)

lemma req_write_refines: "refines P s \<Longrightarrow> refines P (snd (req_write fd events s))"
  by (auto simp: req_write_def set_poll_events_refines split: option.splits)

lemma cleanup_fd_refines:
  assumes "refines P s"
  shows "refines P (cleanup_fd fd s)"
proof (rule refines_same [OF assms])
  have "reg_of (m(fd := None)) = reg_of m" if "m fd = Some en" "\<not> read_active en" "\<not> write_active en" for m en
    using that by (auto simp: reg_of_def fun_eq_iff reg_en_def split: poll_kind.splits)
  then show "reg_of (m_fd_entries (cleanup_fd fd s)) = reg_of (m_fd_entries s)"
    by (auto simp: cleanup_fd_def sys_close_def Let_def split: option.splits)
qed (auto simp: cleanup_fd_def sys_close_def Let_def split: option.splits)

lemma run_cleanup_refines: "refines P s \<Longrightarrow> refines P (run_cleanup s)"
  using fold_inv [of "refines P" cleanup_fd, OF cleanup_fd_refines] by (simp add: run_cleanup_def refines_def)


section \<open>Duplicated descriptors\<close>

text \<open>Every descriptor that \<open>dup\<close> returned is either closed or polled for a write registration; \<open>B\<close> are the
  other descriptors the reactor holds, its wake pipe.\<close>

definition write_dups :: "poll_entry list \<Rightarrow> fd_t list" where
  "write_dups es = map (\<lambda>e. pfd_fd (pfd e)) (filter (\<lambda>e. pe_kind e = Write) es)"

definition dups_ok :: "fd_t multiset \<Rightarrow> 'z poll_tables_scheme \<Rightarrow> bool" where
  "dups_ok B s \<longleftrightarrow> mset (os_opened s) = mset (os_closed s) + mset (write_dups (m_poll_entries s)) + B"

lemma write_dups_update:
  assumes "i < length es" "pe_kind e = pe_kind (es ! i)" "pfd_fd (pfd e) = pfd_fd (pfd (es ! i))"
  shows "write_dups (es[i := e]) = write_dups es"
proof -
  let ?g = "\<lambda>e. (pe_kind e, pfd_fd (pfd e))"
  have w: "write_dups xs = map snd (filter (\<lambda>x. fst x = Write) (map ?g xs))" for xs
    by (simp add: write_dups_def filter_map comp_def)
  have "map ?g (es[i := e]) = map ?g es"
    using assms by (metis (no_types, lifting) list_update_id map_update)
  then show ?thesis by (simp add: w)
qed

lemma mset_swap_remove:
  assumes "i < length xs"
  shows "mset xs = add_mset (xs ! i) (mset (swap_remove i xs))"
proof -
  obtain ys y where xs: "xs = ys @ [y]" using assms by (cases xs rule: rev_cases) auto
  show ?thesis
  proof (cases "i = length ys")
    case True
    then show ?thesis by (simp add: xs swap_remove_def butlast_append)
  next
    case False
    then have "i < length ys" using assms xs by simp
    then show ?thesis by (simp add: xs swap_remove_def list_update_append nth_append mset_update)
  qed
qed

lemma write_dups_remove:
  assumes "i < length es"
  shows "mset (write_dups es) =
    (if pe_kind (es ! i) = Write then {#pfd_fd (pfd (es ! i))#} else {#}) + mset (write_dups (swap_remove i es))"
proof -
  have "mset (write_dups xs) = image_mset (\<lambda>e. pfd_fd (pfd e)) (filter_mset (\<lambda>e. pe_kind e = Write) (mset xs))" for xs
    by (simp add: write_dups_def mset_filter)
  with mset_swap_remove [OF assms] show ?thesis by simp
qed

lemma write_dups_append:
  "write_dups (es @ [e]) = write_dups es @ (if pe_kind e = Write then [pfd_fd (pfd e)] else [])"
  by (simp add: write_dups_def)

lemma add_read_dups:
  assumes "tables_wf s" "dups_ok B s"
  shows "dups_ok B (snd (add_read fd events cb s))"
proof -
  define en es where d: "en = adopt fd (entry_at fd s)" "es = m_poll_entries s"
  have ok: "tables_ok es ((m_fd_entries s)(fd \<mapsto> en))" and e: "entry_ok es fd en"
    using tables_ok_ref [OF assms(1)] by (simp_all add: d)
  show ?thesis
  proof (cases "read_active en")
    case True
    have "read_poll_index en < length es" "pfd_fd (pfd (es ! read_poll_index en)) = fd"
      using tables_ok_index(1) [OF ok, of "(Read, fd)"] True entry_ok_active(1) [OF e True] by (auto simp: pe_watch_def)
    then show ?thesis using True assms(2) by (simp add: add_read_eq [OF assms(1)] d dups_ok_def write_dups_update)
  next
    case False
    then show ?thesis using assms(2)
      by (simp add: add_read_eq [OF assms(1)] d dups_ok_def write_dups_append new_entry_def)
  qed
qed

lemma add_write_dups:
  assumes "tables_wf s" "dups_ok B s"
  shows "dups_ok B (snd (add_write fd cb s))"
proof -
  define en es where d: "en = adopt fd (entry_at fd s)" "es = m_poll_entries s"
  have ok: "tables_ok es ((m_fd_entries s)(fd \<mapsto> en))" and e: "entry_ok es fd en"
    using tables_ok_ref [OF assms(1)] by (simp_all add: d)
  show ?thesis
  proof (cases "write_active en")
    case True
    have "write_poll_index en < length es" "pfd_fd (pfd (es ! write_poll_index en)) = ctx_fd (write_ctx en)"
      using tables_ok_index(1) [OF ok, of "(Write, fd)"] True entry_ok_active(2) [OF e True] by (auto simp: pe_watch_def)
    then show ?thesis using True assms(2)
      by (simp add: add_write_again [OF assms(1)] d dups_ok_def write_dups_update)
  next
    case False
    then show ?thesis using assms(2)
      by (simp add: add_write_new [OF assms(1)] d dups_ok_def write_dups_append new_entry_def)
  qed
qed

lemma rem_read_dups:
  assumes "tables_wf s" "dups_ok B s"
  shows "dups_ok B (snd (rem_read fd s))"
proof (cases "m_fd_entries s fd")
  case None
  then show ?thesis using assms by (simp add: rem_read_def)
next
  case (Some en)
  have ok: "tables_ok (m_poll_entries s) (m_fd_entries s)" using assms(1) by (simp add: tables_wf_def)
  show ?thesis
  proof (cases "read_active en \<and> ctx_fd (read_ctx en) \<noteq> -1")
    case True
    have "read_poll_index en < length (m_poll_entries s)" "pe_kind (m_poll_entries s ! read_poll_index en) = Read"
      using tables_ok_index(1,2) [OF ok, of "(Read, fd)"] True Some by (auto simp: poll_key_def)
    then show ?thesis using True assms(2) write_dups_remove [of "read_poll_index en" "m_poll_entries s"]
      by (simp add: rem_read_eq [OF assms(1) Some] dups_ok_def removed_def Let_def)
  next
    case False
    then show ?thesis using assms(2) Some by (auto simp: rem_read_def dups_ok_def Let_def)
  qed
qed

lemma rem_write_dups:
  assumes "tables_wf s" "dups_ok B s"
  shows "dups_ok B (snd (rem_write fd s))"
proof (cases "m_fd_entries s fd")
  case None
  then show ?thesis using assms by (simp add: rem_write_def)
next
  case (Some en)
  have ok: "tables_ok (m_poll_entries s) (m_fd_entries s)" using assms(1) by (simp add: tables_wf_def)
  show ?thesis
  proof (cases "write_active en")
    case True
    have "write_poll_index en < length (m_poll_entries s)" "pe_kind (m_poll_entries s ! write_poll_index en) = Write"
      using tables_ok_index(1,2) [OF ok, of "(Write, fd)"] True Some by (auto simp: poll_key_def)
    moreover have "pfd_fd (pfd (m_poll_entries s ! write_poll_index en)) = ctx_fd (write_ctx en)"
      using entry_ok_active(2) [OF tables_ok_entry [OF ok Some] True] by (simp add: pe_watch_def)
    ultimately show ?thesis using True assms(2) write_dups_remove [of "write_poll_index en" "m_poll_entries s"]
      by (simp add: rem_write_eq [OF assms(1) Some] dups_ok_def removed_def Let_def)
  next
    case False
    then show ?thesis using assms(2) by (simp add: rem_write_inactive [OF assms(1) Some] dups_ok_def)
  qed
qed

lemma set_poll_events_dups: "dups_ok B s \<Longrightarrow> dups_ok B (set_poll_events i events s)"
  by (simp add: dups_ok_def set_poll_events_def write_dups_update)

lemma req_write_dups: "dups_ok B s \<Longrightarrow> dups_ok B (snd (req_write fd events s))"
  by (auto simp: req_write_def set_poll_events_dups split: option.splits)

lemma cleanup_fd_dups:
  assumes "tables_wf s \<and> dups_ok B s"
  shows "tables_wf (cleanup_fd fd s) \<and> dups_ok B (cleanup_fd fd s)"
proof -
  have "ctx_fd (write_ctx en) = -1" if "m_fd_entries s fd = Some en" "\<not> write_active en" for en
    using tables_ok_invalid(3) [of "m_poll_entries s" "m_fd_entries s" fd en] assms that by (simp add: tables_wf_def)
  with assms show ?thesis
    by (auto simp: cleanup_fd_wf) (auto simp: cleanup_fd_def dups_ok_def Let_def split: option.splits)
qed

lemma cleanup_fold_dups: "tables_wf s \<and> dups_ok B s \<Longrightarrow> dups_ok B (fold cleanup_fd fds s)"
  by (induction fds arbitrary: s) (simp_all add: cleanup_fd_dups [where B = B])

lemma run_cleanup_dups: "tables_wf s \<Longrightarrow> dups_ok B s \<Longrightarrow> dups_ok B (run_cleanup s)"
  using cleanup_fold_dups [of s B "m_pending_cleanup s"] by (simp add: run_cleanup_def dups_ok_def)

section \<open>The registration contract\<close>

text \<open>
  What the rest of the reactor relies on: every operation keeps the tables consistent, keeps
  implementing the registry and accounts for the duplicated descriptors.
\<close>

definition reg_inv :: "((poll_kind \<times> fd_t \<Rightarrow> u64 option) \<Rightarrow> bool) \<Rightarrow> fd_t multiset \<Rightarrow> 'z poll_tables_scheme \<Rightarrow> bool" where
  "reg_inv P B s \<longleftrightarrow> tables_wf s \<and> refines P s \<and> dups_ok B s"

lemma reg_inv_ops [wf_intros]:
  assumes "reg_inv P B s"
  shows "reg_inv P B (snd (add_read fd events cb s))" "reg_inv P B (snd (rem_read fd s))"
    "reg_inv P B (snd (add_write fd cb s))" "reg_inv P B (snd (rem_write fd s))"
    "reg_inv P B (snd (req_write fd ev s))" "reg_inv P B (set_poll_events i sh s)" "reg_inv P B (run_cleanup s)"
  using assms
  by (auto simp: reg_inv_def wf_intros add_read_refines add_read_dups rem_read_refines rem_read_dups
      add_write_refines add_write_dups rem_write_refines rem_write_dups req_write_refines req_write_dups
      set_poll_events_refines set_poll_events_dups run_cleanup_refines run_cleanup_dups)


text \<open>The operations touch nothing of the object beyond the tables.\<close>

lemma more_helpers [simp]:
  "poll_tables.more (mod_entry fd f s) = poll_tables.more s"
  "poll_tables.more (snd (entry_ref fd s)) = poll_tables.more s"
  "poll_tables.more (retire_cb cb s) = poll_tables.more s"
  "poll_tables.more (snd (add_poll_entry w fd k sh s)) = poll_tables.more s"
  "poll_tables.more (set_poll_entry i w sh s) = poll_tables.more s"
  "poll_tables.more (set_poll_events i sh s) = poll_tables.more s"
  "poll_tables.more (update_poll_index fd k i s) = poll_tables.more s"
  "poll_tables.more (log ev s) = poll_tables.more s"
  "poll_tables.more (sys_close fd s) = poll_tables.more s"
  by (auto simp: mod_entry_def entry_ref_def retire_cb_def add_poll_entry_def set_poll_entry_def
      set_poll_events_def update_poll_index_def log_def sys_close_def Let_def split: option.splits)

lemma more_remove [simp]: "poll_tables.more (remove_poll_entry_by_index i s) = poll_tables.more s"
  by (simp add: remove_poll_entry_by_index_def Let_def)

lemma more_ops [simp]:
  "poll_tables.more (snd (add_read fd events cb s)) = poll_tables.more s"
  "poll_tables.more (snd (rem_read fd s)) = poll_tables.more s"
  "poll_tables.more (snd (add_write fd cb s)) = poll_tables.more s"
  "poll_tables.more (snd (rem_write fd s)) = poll_tables.more s"
  "poll_tables.more (snd (req_write fd events s)) = poll_tables.more s"
  "poll_tables.more (cleanup_fd fd s) = poll_tables.more s"
  by (auto simp: add_read_def rem_read_def add_write_def rem_write_def req_write_def cleanup_fd_def case_prod_beta
      Let_def split: option.splits)

lemma more_cleanup [simp]: "poll_tables.more (run_cleanup s) = poll_tables.more s"
  using fold_inv [of "\<lambda>t. poll_tables.more t = poll_tables.more s" cleanup_fd s "m_pending_cleanup s"]
  by (simp add: run_cleanup_def)

end
