(* ===== verification/Bfc_Poll_Reactor.thy ===== *)
theory Bfc_Poll_Reactor
  imports Bfc_Poll_Tables Bfc_Reactor_Queues Bfc_Timer Bfc_Event_Queue
begin

text \<open>
  The poll reactor of \<open>src/src/bfc/poll_reactor.hpp\<close>: construction, the wake pipe, the run loop, and the
  public class with its deferred removals, on top of the registration tables.

  The record \<open>poll_reactor\<close> holds the members of \<open>detail::poll_reactor\<close> and of \<open>poll_reactor\<close>. A user
  callback is a number; what it does is a parameter \<open>prog\<close>, the calls of the reactor's interface (type
  \<open>action\<close>) it makes, which may depend on the state it finds. The environment of an iteration is a
  record: the clock, what \<open>poll\<close> returns, and the steps other threads make at the points where the
  iteration can observe them. A thread can be preempted inside \<open>push\<close> of a queue, before the queue notifies
  the reactor, and inside \<open>wake_up\<close>, before the exchange on \<open>m_wake_pending\<close> and before the write to the pipe;
  it goes on in a later step, if it ever does. The model allows this for the reactor's own thread too, which
  adds behaviours the loop does not have.
\<close>

section \<open>State\<close>

record removal =
  rm_fd :: fd_t
  rm_write :: bool
  rm_done_cb :: "nat option"

text \<open>The results of coming \<open>read\<close> and \<open>write\<close> calls on the wake pipe; an empty list means success.\<close>

datatype io_result = Io_ok | Io_eintr | Io_fail

text \<open>
  Where the threads are that use the reactor. \<open>wt_pause\<close> says for the coming points of preemption whether the
  scheduler takes the processor away there (an empty list: nowhere). \<open>wt_pushing\<close> are the queues of the threads
  that enqueued an element and have not notified the reactor, \<open>wt_signalling\<close> counts the threads in \<open>wake_up\<close> that
  queued their callback and have not signalled, \<open>wt_writing\<close> those that won the exchange and have not written.
  \<open>wt_late\<close> is history: the queues that were bound to this reactor when they were registered with it and held data.
\<close>

record wake_threads =
  wt_pause :: "bool list"
  wt_pushing :: "nat list"
  wt_signalling :: nat
  wt_writing :: nat
  wt_late :: "nat set"

definition wake_threads_start :: "bool list \<Rightarrow> wake_threads" where
  "wake_threads_start ps = \<lparr>wt_pause = ps, wt_pushing = [], wt_signalling = 0, wt_writing = 0, wt_late = {}\<rparr>"

definition preempt :: "wake_threads \<Rightarrow> bool \<times> wake_threads" where
  "preempt ts = (case wt_pause ts of [] \<Rightarrow> (False, ts) | b # bs \<Rightarrow> (b, ts\<lparr>wt_pause := bs\<rparr>))"

text \<open>The queues bound late after \<open>set_reactor(r)\<close> on queue \<open>q\<close> with state \<open>c\<close>.\<close>

definition late_after :: "bool \<Rightarrow> nat \<Rightarrow> nat option \<Rightarrow> nat circular_queue \<Rightarrow> nat set \<Rightarrow> nat set" where
  "late_after registered q r c late =
     (if r = Some 0 \<and> m_wake_callback c = Some 0 then late
      else if r = Some 0 \<and> registered \<and> circular_has_data c then insert q late
      else late - {q})"

record poll_reactor = poll_tables +
  m_queues :: "nat reactor_queues"
  m_queue_backlog :: bool
  m_wake_up_cb :: "wake_fn list"
  m_wake_pipe :: "fd_t \<times> fd_t"
  m_wake_pending :: bool
  m_running :: bool
  m_reactor_thread_id :: "nat option"
  m_dispatch :: "poll_entry list"
  m_timer :: "nat timer"
  m_removals :: "removal list"
  os_pipe :: nat
  os_read :: "io_result list"
  os_write :: "io_result list"
  os_threads :: wake_threads
  queues :: "nat \<Rightarrow> nat circular_queue"

definition POLLIN :: "32 word" where "POLLIN = 0x1"
definition POLLOUT :: "32 word" where "POLLOUT = 0x4"
definition POLLRDHUP :: "32 word" where "POLLRDHUP = 0x2000"
definition pipe_capacity :: nat where "pipe_capacity = 65536"
definition EINTR :: int where "EINTR = 4"
definition INT_MAX :: int where "INT_MAX = 2 ^ 31 - 1"

text \<open>\<open>fcntl(F_GETFL)\<close> and \<open>fcntl(F_SETFL)\<close> give an error number or succeed.\<close>

definition set_non_blocking :: "int option \<Rightarrow> int option \<Rightarrow> 's \<Rightarrow> ('s, unit) result" where
  "set_non_blocking getfl setfl s =
     (case getfl of
        Some e \<Rightarrow> Throw (Runtime_error e) s
      | None \<Rightarrow> (case setfl of Some e \<Rightarrow> Throw (Runtime_error e) s | None \<Rightarrow> Ok () s))"

text \<open>The members before the constructor's body, and the environment the reactor will see.\<close>

definition poll_reactor_init ::
    "fd_t list \<Rightarrow> (nat \<Rightarrow> nat circular_queue) \<Rightarrow> io_result list \<Rightarrow> io_result list \<Rightarrow> bool list \<Rightarrow> poll_reactor" where
  "poll_reactor_init dups qs rs ws ps =
     \<lparr>m_poll_entries = [], m_fd_entries = Map.empty, m_pending_cleanup = [], m_gen = 0, m_retired_cbs = [],
      os_dup = dups, os_opened = [], os_closed = [], trace = [],
      m_queues = [], m_queue_backlog = False, m_wake_up_cb = [], m_wake_pipe = (-1, -1), m_wake_pending = False,
      m_running = False, m_reactor_thread_id = None, m_dispatch = [], m_timer = timer_new, m_removals = [],
      os_pipe = 0, os_read = rs, os_write = ws, os_threads = wake_threads_start ps, queues = qs\<rparr>"

text \<open>
  The constructor, given what \<open>pipe\<close> returned (an error number or the descriptors) and the results of
  the \<open>fcntl\<close> calls on either end. A throw after \<open>pipe\<close> leaves the two descriptors open.
\<close>

definition poll_reactor_new ::
    "int + (fd_t \<times> fd_t) \<Rightarrow> int option \<times> int option \<Rightarrow> int option \<times> int option \<Rightarrow> poll_reactor \<Rightarrow>
      (poll_reactor, unit) result" where
  "poll_reactor_new pipe fcntl0 fcntl1 s =
     (case pipe of
        Inl e \<Rightarrow> Throw (Runtime_error e) s
      | Inr p \<Rightarrow>
          (let s = s\<lparr>m_wake_pipe := p, os_opened := os_opened s @ [fst p, snd p]\<rparr> in
           rbind (set_non_blocking (fst fcntl0) (snd fcntl0) s) (\<lambda>_ s.
           rbind (set_non_blocking (fst fcntl1) (snd fcntl1) s) (\<lambda>_ s.
             (let wake_entry = \<lparr>pfd = \<lparr>pfd_fd = fst (m_wake_pipe s), pfd_events = ucast POLLIN, pfd_revents = 0\<rparr>,
                                owner_fd = -1, pe_kind = Wake, pe_gen = 0\<rparr>
              in Ok () (s\<lparr>m_poll_entries := m_poll_entries s @ [wake_entry]\<rparr>))))))"

section \<open>The wake pipe\<close>

text \<open>
  The loop of \<open>m_wake_cb\<close>: 64 bytes at a time until the pipe is empty or \<open>read\<close> fails with another error
  than \<open>EINTR\<close>. The result is what is left of the results and of the bytes.
\<close>

fun drain_pipe :: "io_result list \<Rightarrow> nat \<Rightarrow> io_result list \<times> nat" where
  "drain_pipe [] n = ([], 0)"
| "drain_pipe (Io_ok # rs) n = (if n > 0 then drain_pipe rs (n - 64) else (rs, 0))"
| "drain_pipe (Io_eintr # rs) n = drain_pipe rs n"
| "drain_pipe (Io_fail # rs) n = (rs, n)"

definition wake_cb :: "poll_reactor \<Rightarrow> poll_reactor" where
  "wake_cb s =
     (let (rs, n) = drain_pipe (os_read s) (os_pipe s) in
      s\<lparr>os_read := rs, os_pipe := n, m_wake_pending := False\<rparr>)"

text \<open>The write loop of \<open>wake_up\<close>; a full pipe is \<open>EAGAIN\<close>, which still means a pending signal.\<close>

fun write_wake :: "io_result list \<Rightarrow> poll_reactor \<Rightarrow> poll_reactor" where
  "write_wake [] s = s\<lparr>os_write := [], os_pipe := min pipe_capacity (os_pipe s + 1)\<rparr>"
| "write_wake (Io_ok # ws) s = s\<lparr>os_write := ws, os_pipe := min pipe_capacity (os_pipe s + 1)\<rparr>"
| "write_wake (Io_eintr # ws) s = write_wake ws s"
| "write_wake (Io_fail # ws) s = s\<lparr>os_write := ws, m_wake_pending := False\<rparr>"

text \<open>
  \<open>wake_up\<close> in its three parts: the callback is queued under the mutex, then the flag is exchanged, and the thread
  that set it writes. Between two parts the thread may be preempted.
\<close>

definition posted :: "wake_fn option \<Rightarrow> poll_reactor \<Rightarrow> poll_reactor" where
  "posted cb s =
     (case cb of Some c \<Rightarrow> log (Ev_post c) (s\<lparr>m_wake_up_cb := m_wake_up_cb s @ [c]\<rparr>) | None \<Rightarrow> s)"

definition wake_exchange :: "poll_reactor \<Rightarrow> poll_reactor" where
  "wake_exchange s =
     (if m_wake_pending s then s
      else
        (let s = s\<lparr>m_wake_pending := True\<rparr>;
             (preempted, ts) = preempt (os_threads s)
         in if preempted then s\<lparr>os_threads := ts\<lparr>wt_writing := wt_writing ts + 1\<rparr>\<rparr>
            else write_wake (os_write s) (s\<lparr>os_threads := ts\<rparr>)))"

definition wake_up :: "wake_fn option \<Rightarrow> poll_reactor \<Rightarrow> poll_reactor" where
  "wake_up cb s =
     (let s = posted cb s;
          (preempted, ts) = preempt (os_threads s)
      in if preempted then s\<lparr>os_threads := ts\<lparr>wt_signalling := wt_signalling ts + 1\<rparr>\<rparr>
         else wake_exchange (s\<lparr>os_threads := ts\<rparr>))"

text \<open>A thread that was preempted inside \<open>wake_up\<close> goes on.\<close>

definition resume_wake_up :: "poll_reactor \<Rightarrow> poll_reactor" where
  "resume_wake_up s =
     (let ts = os_threads s in
      if 0 < wt_signalling ts then wake_exchange (s\<lparr>os_threads := ts\<lparr>wt_signalling := wt_signalling ts - 1\<rparr>\<rparr>) else s)"

definition resume_write :: "poll_reactor \<Rightarrow> poll_reactor" where
  "resume_write s =
     (let ts = os_threads s in
      if 0 < wt_writing ts then write_wake (os_write s) (s\<lparr>os_threads := ts\<lparr>wt_writing := wt_writing ts - 1\<rparr>\<rparr>) else s)"

definition pr_stop :: "poll_reactor \<Rightarrow> poll_reactor" where
  "pr_stop s = wake_up None (s\<lparr>m_running := False\<rparr>)"

definition poll_reactor_dtor :: "poll_reactor \<Rightarrow> poll_reactor" where
  "poll_reactor_dtor s =
     sys_close (snd (m_wake_pipe s)) (sys_close (fst (m_wake_pipe s)) (pr_stop s))"

definition add_queue :: "nat \<Rightarrow> nat option \<Rightarrow> poll_reactor \<Rightarrow> poll_reactor" where
  "add_queue queue cb s = wake_up None (s\<lparr>m_queues := rq_add queue cb (m_queues s)\<rparr>)"

definition rem_queue :: "nat \<Rightarrow> poll_reactor \<Rightarrow> poll_reactor" where
  "rem_queue queue s = s\<lparr>m_queues := rq_rem queue (m_queues s)\<rparr>"

definition is_reactor_thread :: "nat \<Rightarrow> poll_reactor \<Rightarrow> bool" where
  "is_reactor_thread this_thread s =
     (case m_reactor_thread_id s of None \<Rightarrow> False | Some i \<Rightarrow> i = this_thread)"

section \<open>The public interface\<close>

definition add_read_rdy :: "fd_t \<Rightarrow> nat option \<Rightarrow> poll_reactor \<Rightarrow> bool \<times> poll_reactor" where
  "add_read_rdy fd cb s = add_read fd (or POLLIN POLLRDHUP) cb s"

definition defer_removal :: "fd_t \<Rightarrow> bool \<Rightarrow> nat option \<Rightarrow> poll_reactor \<Rightarrow> poll_reactor" where
  "defer_removal fd w done_cb s =
     (let s = s\<lparr>m_removals := m_removals s @ [\<lparr>rm_fd = fd, rm_write = w, rm_done_cb = done_cb\<rparr>]\<rparr>
      in wake_up (Some Run_removals) (log (Ev_ask fd w done_cb) s))"

definition rem_read_rdy :: "nat \<Rightarrow> fd_t \<Rightarrow> nat option \<Rightarrow> poll_reactor \<Rightarrow> bool \<times> poll_reactor" where
  "rem_read_rdy this_thread fd done_cb s =
     (if is_reactor_thread this_thread s then
        (let s = snd (rem_read fd s)
         in (True, case done_cb of Some c \<Rightarrow> wake_up (Some (User c)) s | None \<Rightarrow> s))
      else (True, defer_removal fd False done_cb s))"

definition add_write_rdy :: "fd_t \<Rightarrow> nat option \<Rightarrow> poll_reactor \<Rightarrow> bool \<times> poll_reactor" where
  "add_write_rdy fd cb s = add_write fd cb s"

definition rem_write_rdy :: "nat \<Rightarrow> fd_t \<Rightarrow> nat option \<Rightarrow> poll_reactor \<Rightarrow> bool \<times> poll_reactor" where
  "rem_write_rdy this_thread fd done_cb s =
     (if is_reactor_thread this_thread s then
        (let s = snd (rem_write fd s)
         in (True, case done_cb of Some c \<Rightarrow> wake_up (Some (User c)) s | None \<Rightarrow> s))
      else (True, defer_removal fd True done_cb s))"

definition req_write_rdy :: "fd_t \<Rightarrow> poll_reactor \<Rightarrow> bool \<times> poll_reactor" where
  "req_write_rdy fd s = req_write fd POLLOUT s"

section \<open>Callbacks\<close>

text \<open>What a callback, or another thread, can ask of the reactor, its timer and the queues.\<close>

datatype action =
    Add_read_rdy fd_t "nat option" | Rem_read_rdy fd_t "nat option"
  | Add_write_rdy fd_t "nat option" | Rem_write_rdy fd_t "nat option" | Req_write fd_t
  | Wake_up "nat option" | Stop
  | Add_queue nat "nat option" | Rem_queue nat | Queue_push nat nat | Queue_pop nat
  | Set_reactor nat "nat option" | Queue_set_capacity nat size_t bool
  | Resume_push nat | Resume_wake_up | Resume_write
  | Timer_wait int "nat option" int | Timer_cancel timer_id
  | Raise int

text \<open>
  A push notifies the reactor the queue is bound to; this reactor is number 0. The thread may be preempted when it
  has enqueued the element (a queue of capacity zero takes none and notifies nobody); it then looks at the binding
  when it goes on. The flag of \<open>Queue_set_capacity\<close> tells whether the allocation succeeds; a slot is 16 bytes.
\<close>

definition queue_push :: "nat \<Rightarrow> nat \<Rightarrow> poll_reactor \<Rightarrow> (poll_reactor, unit) result" where
  "queue_push q v s =
     (case circular_push v (queues s q) of
        Throw e _ \<Rightarrow> Throw e s
      | Ok r q' \<Rightarrow>
          (let s = s\<lparr>queues := (queues s)(q := q')\<rparr>;
               (preempted, ts) = preempt (os_threads s);
               s = s\<lparr>os_threads := ts\<rparr>
           in Ok () (if preempted \<and> 0 < m_capacity q' then s\<lparr>os_threads := ts\<lparr>wt_pushing := q # wt_pushing ts\<rparr>\<rparr>
                     else if woken r = Some 0 then wake_up None s else s)))"

definition resume_push :: "nat \<Rightarrow> poll_reactor \<Rightarrow> poll_reactor" where
  "resume_push q s =
     (let ts = os_threads s in
      if q \<in> set (wt_pushing ts) then
        (let s = s\<lparr>os_threads := ts\<lparr>wt_pushing := remove1 q (wt_pushing ts)\<rparr>\<rparr>
         in if notify_push (queues s q) = Some 0 then wake_up None s else s)
      else s)"

definition bind_queue :: "nat \<Rightarrow> nat option \<Rightarrow> poll_reactor \<Rightarrow> poll_reactor" where
  "bind_queue q r s =
     (let ts = os_threads s;
          late = late_after (q \<in> rq_key ` set (m_queues s)) q r (queues s q) (wt_late ts)
      in s\<lparr>queues := (queues s)(q := snd (set_reactor r (queues s q))), os_threads := ts\<lparr>wt_late := late\<rparr>\<rparr>)"

fun exec_action :: "nat \<Rightarrow> action \<Rightarrow> poll_reactor \<Rightarrow> (poll_reactor, unit) result" where
  "exec_action th (Add_read_rdy fd cb) s = Ok () (snd (add_read_rdy fd cb s))"
| "exec_action th (Rem_read_rdy fd cb) s = Ok () (snd (rem_read_rdy th fd cb s))"
| "exec_action th (Add_write_rdy fd cb) s = Ok () (snd (add_write_rdy fd cb s))"
| "exec_action th (Rem_write_rdy fd cb) s = Ok () (snd (rem_write_rdy th fd cb s))"
| "exec_action th (Req_write fd) s = Ok () (snd (req_write_rdy fd s))"
| "exec_action th (Wake_up cb) s = Ok () (wake_up (map_option User cb) s)"
| "exec_action th Stop s = Ok () (pr_stop s)"
| "exec_action th (Add_queue q cb) s = Ok () (add_queue q cb s)"
| "exec_action th (Rem_queue q) s = Ok () (rem_queue q s)"
| "exec_action th (Queue_push q v) s = queue_push q v s"
| "exec_action th (Queue_pop q) s =
     (case circular_pop (queues s q) of
        Throw e _ \<Rightarrow> Throw e s
      | Ok _ q' \<Rightarrow> Ok () (s\<lparr>queues := (queues s)(q := q')\<rparr>))"
| "exec_action th (Set_reactor q r) s = Ok () (bind_queue q r s)"
| "exec_action th (Queue_set_capacity q n alloc_ok) s =
     (case set_capacity 16 (\<lambda>_. alloc_ok) n (queues s q) of
        Throw e _ \<Rightarrow> Throw e s
      | Ok _ q' \<Rightarrow> Ok () (s\<lparr>queues := (queues s)(q := q')\<rparr>))"
| "exec_action th (Resume_push q) s = Ok () (resume_push q s)"
| "exec_action th Resume_wake_up s = Ok () (resume_wake_up s)"
| "exec_action th Resume_write s = Ok () (resume_write s)"
| "exec_action th (Timer_wait for_us cb now) s =
     (case wait_us for_us cb now (m_timer s) of
        Throw e _ \<Rightarrow> Throw e s
      | Ok _ t \<Rightarrow> Ok () (s\<lparr>m_timer := t\<rparr>))"
| "exec_action th (Timer_cancel i) s = Ok () (s\<lparr>m_timer := snd (cancel i (m_timer s))\<rparr>)"
| "exec_action th (Raise e) s = Throw (Runtime_error e) s"

type_synonym program = "nat \<Rightarrow> poll_reactor \<Rightarrow> action list"

definition call_user :: "program \<Rightarrow> nat \<Rightarrow> nat \<Rightarrow> poll_reactor \<Rightarrow> (poll_reactor, unit) result" where
  "call_user prog th c s = rfold (exec_action th) (prog c s) s"

definition run_removal :: "program \<Rightarrow> nat \<Rightarrow> removal \<Rightarrow> poll_reactor \<Rightarrow> (poll_reactor, unit) result" where
  "run_removal prog th r s =
     (let s = (if rm_write r then snd (rem_write (rm_fd r) s) else snd (rem_read (rm_fd r) s));
          s = log (Ev_done (rm_fd r) (rm_write r) (rm_done_cb r)) s
      in case rm_done_cb r of Some c \<Rightarrow> call_user prog th c s | None \<Rightarrow> Ok () s)"

definition run_removals :: "program \<Rightarrow> nat \<Rightarrow> poll_reactor \<Rightarrow> (poll_reactor, unit) result" where
  "run_removals prog th s =
     (let batch = m_removals s in rfold (run_removal prog th) batch (s\<lparr>m_removals := []\<rparr>))"

definition call_wake :: "program \<Rightarrow> nat \<Rightarrow> wake_fn \<Rightarrow> poll_reactor \<Rightarrow> (poll_reactor, unit) result" where
  "call_wake prog th c s =
     (let s = log (Ev_wake c) s
      in case c of User n \<Rightarrow> call_user prog th n s | Run_removals \<Rightarrow> run_removals prog th s)"

section \<open>The run loop\<close>

text \<open>The timeout handed to \<open>poll\<close>: \<open>-1\<close> waits for ever.\<close>

definition poll_timeout :: "int \<Rightarrow> poll_reactor \<Rightarrow> (poll_reactor, int) result" where
  "poll_timeout now_us s =
     rbind
       (case get_next_deadline_us (m_timer s) of
          None \<Rightarrow> Ok (-1) s
        | Some next_deadline_us \<Rightarrow>
            (let diff = next_deadline_us - now_us in
             if \<not> int64_ok diff then Throw Undefined_behaviour s
             else if diff \<le> 0 then Ok 0 s
             else (let diff_ms = diff div 1000 in
                   Ok (if diff_ms > INT_MAX then INT_MAX else diff_ms) s)))
       (\<lambda>timeout_ms s. Ok (if m_queue_backlog s then 0 else timeout_ms) s)"

definition dispatch_item ::
    "program \<Rightarrow> nat \<Rightarrow> poll_entry \<times> short \<Rightarrow> poll_reactor \<Rightarrow> (poll_reactor, unit) result" where
  "dispatch_item prog th = (\<lambda>(item, revents) s.
     if revents = 0 then Ok () s
     else if pe_kind item = Wake then Ok () (wake_cb s)
     else
       (case m_fd_entries s (owner_fd item) of
          None \<Rightarrow> Ok () s
        | Some en \<Rightarrow>
            (if pe_kind item = Read then
               (case ctx_cb (read_ctx en) of
                  Some c \<Rightarrow>
                    (if read_active en \<and> read_gen en = pe_gen item
                     then call_user prog th c (log (Ev_dispatch Read (owner_fd item) (pe_gen item) c) s)
                     else Ok () s)
                | None \<Rightarrow> Ok () s)
             else
               (case ctx_cb (write_ctx en) of
                  Some c \<Rightarrow>
                    (if write_active en \<and> write_gen en = pe_gen item
                     then call_user prog th c
                            (log (Ev_dispatch Write (owner_fd item) (pe_gen item) c)
                              (set_poll_events (write_poll_index en) 0 s))
                     else Ok () s)
                | None \<Rightarrow> Ok () s))))"

datatype poll_result = Ready "short list" | Poll_error int

record environment =
  now_before :: int
  during_poll :: "(nat \<times> action) list"
  polled :: poll_result
  before_wake :: "(nat \<times> action) list"
  before_queues :: "(nat \<times> action) list"
  before_timers :: "(nat \<times> action) list"
  now_after :: int

text \<open>Calls of other threads; what they throw is theirs.\<close>

definition foreign :: "(nat \<times> action) list \<Rightarrow> poll_reactor \<Rightarrow> poll_reactor" where
  "foreign = fold (\<lambda>(th, a) s. the_state (exec_action th a s))"

definition clear_revents :: "poll_entry \<Rightarrow> poll_entry" where
  "clear_revents e = e\<lparr>pfd := (pfd e)\<lparr>pfd_revents := 0\<rparr>\<rparr>"

definition prepare_poll :: "int \<Rightarrow> poll_reactor \<Rightarrow> poll_reactor" where
  "prepare_poll timeout_ms s =
     log (Ev_poll timeout_ms)
       (s\<lparr>m_dispatch := m_poll_entries s, m_poll_entries := map clear_revents (m_poll_entries s)\<rparr>)"

definition wake_phase :: "program \<Rightarrow> nat \<Rightarrow> poll_reactor \<Rightarrow> (poll_reactor, unit) result" where
  "wake_phase prog th s =
     (let cbl = m_wake_up_cb s in rfold (call_wake prog th) cbl (s\<lparr>m_wake_up_cb := []\<rparr>))"

definition queue_phase :: "program \<Rightarrow> nat \<Rightarrow> poll_reactor \<Rightarrow> (poll_reactor, unit) result" where
  "queue_phase prog th s =
     rbind (rq_notify (\<lambda>q s. circular_has_data (queues s q)) (call_user prog th) m_queues s)
       (\<lambda>backlog s. Ok () (s\<lparr>m_queue_backlog := backlog\<rparr>))"

definition timer_phase :: "program \<Rightarrow> nat \<Rightarrow> int \<Rightarrow> poll_reactor \<Rightarrow> (poll_reactor, unit) result" where
  "timer_phase prog th now_us s = schedule m_timer (\<lambda>t s. s\<lparr>m_timer := t\<rparr>) (call_user prog th) now_us s"

definition serve :: "program \<Rightarrow> nat \<Rightarrow> environment \<Rightarrow> short list \<Rightarrow> poll_reactor \<Rightarrow> (poll_reactor, unit) result" where
  "serve prog th env revents s =
     (let nfds = length (filter (\<lambda>r. r \<noteq> 0) (take (length (m_dispatch s)) revents)) in
      rbind (if nfds > 0 then rfold (dispatch_item prog th) (zip (m_dispatch s) revents) s else Ok () s) (\<lambda>_ s.
      rbind (wake_phase prog th (foreign (before_wake env) s)) (\<lambda>_ s.
      rbind (queue_phase prog th (foreign (before_queues env) s)) (\<lambda>_ s.
        timer_phase prog th (now_after env) (foreign (before_timers env) (run_cleanup s))))))"

definition iteration :: "program \<Rightarrow> nat \<Rightarrow> environment \<Rightarrow> poll_reactor \<Rightarrow> (poll_reactor, unit) result" where
  "iteration prog th env s =
     rbind (poll_timeout (now_before env) s) (\<lambda>timeout_ms s.
       (let s = foreign (during_poll env) (prepare_poll timeout_ms s) in
        case polled env of
          Poll_error e \<Rightarrow> (if EINTR \<noteq> e then Throw (Runtime_error e) s else Ok () s)
        | Ready revents \<Rightarrow> serve prog th env revents s))"

text \<open>
  \<open>run\<close> over a list of environments: \<open>True\<close> when it returned, \<open>False\<close> when it is still running after all of
  them. A throw leaves \<open>m_running\<close> and the thread id set, as in the source.
\<close>

fun run_loop :: "program \<Rightarrow> nat \<Rightarrow> environment list \<Rightarrow> poll_reactor \<Rightarrow> (poll_reactor, bool) result" where
  "run_loop prog th envs s =
     (if \<not> m_running s then Ok True (s\<lparr>m_reactor_thread_id := None\<rparr>)
      else
        (case envs of
           [] \<Rightarrow> Ok False s
         | env # envs \<Rightarrow> rbind (iteration prog th env s) (\<lambda>_. run_loop prog th envs)))"

definition pr_run :: "program \<Rightarrow> nat \<Rightarrow> environment list \<Rightarrow> poll_reactor \<Rightarrow> (poll_reactor, bool) result" where
  "pr_run prog th envs s =
     run_loop prog th envs (s\<lparr>m_reactor_thread_id := Some th, m_running := True\<rparr>)"


section \<open>Relations kept by everything a callback can do\<close>

text \<open>
  A reflexive and transitive relation on reactor states that every action establishes holds across
  callbacks, calls of other threads, the queue phase and the timer phase. The invariants and the
  history properties of the reactor are instances.
\<close>

locale action_relation =
  fixes R :: "poll_reactor \<Rightarrow> poll_reactor \<Rightarrow> bool"
  assumes R_refl: "R s s"
    and R_trans: "R s t \<Longrightarrow> R t u \<Longrightarrow> R s u"
    and R_exec: "R s (the_state (exec_action th a s))"
    and R_timer: "R s (s\<lparr>m_timer := tm\<rparr>)"
    and R_cleanup: "R s (run_cleanup s)"
begin

lemma R_rfold:
  assumes "\<And>x s. R s (the_state (f x s))"
  shows "R s (the_state (rfold f xs s))"
  using rfold_inv [where I = "R s" and f = f and s = s] assms R_refl R_trans by blast

lemma R_call_user: "R s (the_state (call_user prog th c s))"
  unfolding call_user_def by (rule R_rfold) (rule R_exec)

lemma R_foreign: "R s (foreign as s)"
  unfolding foreign_def
  by (rule fold_inv [where I = "R s"]) (auto intro: R_trans R_exec R_refl)

lemma R_bind: "R s (the_state r) \<Longrightarrow> (\<And>a t. R t (the_state (f a t))) \<Longrightarrow> R s (the_state (rbind r f))"
  by (cases r) (auto intro: R_trans)

lemma R_timer_phase: "R s (the_state (timer_phase prog th now s))"
proof -
  obtain ex t where e: "timer_extract now (m_timer s) = (ex, t)" by fastforce
  have "R (s\<lparr>m_timer := t\<rparr>) (the_state (rfold (\<lambda>(_, cb) s. case cb of None \<Rightarrow> Throw Bad_function_call s
      | Some c \<Rightarrow> call_user prog th c s) ex (s\<lparr>m_timer := t\<rparr>)))"
    by (rule R_rfold) (auto intro: R_call_user R_refl split: option.splits)
  with R_timer [of s t] show ?thesis by (simp add: timer_phase_def schedule_def e R_trans)
qed

lemma R_after_queues: "R s (the_state (timer_phase prog th now (foreign bs (run_cleanup s))))"
  by (rule R_trans [OF R_cleanup R_trans [OF R_foreign R_timer_phase]])

end

text \<open>A relation that the result of the queue phase, which the loop stores, does not disturb either.\<close>

locale reactor_relation = action_relation +
  assumes R_backlog: "R s (s\<lparr>m_queue_backlog := b\<rparr>)"
begin

lemma R_queue_phase: "R s (the_state (queue_phase prog th s))"
  unfolding queue_phase_def
  by (rule R_bind)
    (auto intro: R_backlog R_trans R_call_user R_refl rq_notify_inv [where I = "R s" and call = "call_user prog th"])

lemma R_tail:
  "R s (the_state (rbind (queue_phase prog th (foreign as s)) (\<lambda>_ s.
     timer_phase prog th now (foreign bs (run_cleanup s)))))"
proof (rule R_bind)
  show "R s (the_state (queue_phase prog th (foreign as s)))"
    by (rule R_trans [OF R_foreign R_queue_phase])
qed (rule R_after_queues)

end

section \<open>Registrations through the whole reactor\<close>

fun neutral :: "event \<Rightarrow> bool" where
  "neutral (Ev_post _) = True"
| "neutral (Ev_wake _) = True"
| "neutral (Ev_ask _ _ _) = True"
| "neutral (Ev_done _ _ _) = True"
| "neutral _ = False"

lemma neutral_step: "neutral ev \<Longrightarrow> registry_step ev sp = Some sp \<and> \<not> is_add ev"
  by (cases ev) auto

lemma neutral_run: "(\<forall>ev \<in> set evs. neutral ev) \<Longrightarrow> registry_run evs sp = Some sp \<and> adds evs = 0"
  by (induction evs) (auto simp: neutral_step)

lemma reg_inv_frame:
  assumes "reg_inv P B s" "trace t = trace s @ evs" "\<forall>ev \<in> set evs. neutral ev"
    and "m_poll_entries t = m_poll_entries s" "m_fd_entries t = m_fd_entries s" "m_gen t = m_gen s"
    and "os_opened t = os_opened s" "os_closed t = os_closed s"
  shows "reg_inv P B t"
  using assms neutral_run [OF assms(3)]
  by (auto simp: reg_inv_def tables_wf_def refines_def dups_ok_def registry_run_append)

lemma write_wake_eq:
  obtains ws' n b where "write_wake ws s = s\<lparr>os_write := ws', os_pipe := n, m_wake_pending := b\<rparr>"
proof -
  have "\<exists>ws' n b. write_wake ws s = s\<lparr>os_write := ws', os_pipe := n, m_wake_pending := b\<rparr>"
  proof (induction ws)
    case Nil
    show ?case by (rule exI [of _ "[]"], rule exI [of _ "min pipe_capacity (os_pipe s + 1)"],
          rule exI [of _ "m_wake_pending s"]) simp
  next
    case (Cons w ws)
    show ?case
    proof (cases w)
      case Io_ok
      then show ?thesis by (intro exI [of _ ws] exI [of _ "min pipe_capacity (os_pipe s + 1)"]
            exI [of _ "m_wake_pending s"]) simp
    next
      case Io_eintr
      with Cons show ?thesis by simp
    next
      case Io_fail
      then show ?thesis by (intro exI [of _ ws] exI [of _ "os_pipe s"] exI [of _ False]) simp
    qed
  qed
  with that show ?thesis by blast
qed

text \<open>What happens after the callback is queued touches only the flag, the pipe and where the threads are.\<close>

definition wakes_only :: "poll_reactor \<Rightarrow> poll_reactor \<Rightarrow> bool" where
  "wakes_only s t \<longleftrightarrow> (\<exists>ws n b ts. t = s\<lparr>os_write := ws, os_pipe := n, m_wake_pending := b, os_threads := ts\<rparr>)"

lemma wakes_only_refl: "wakes_only s s"
  unfolding wakes_only_def
  by (rule exI [of _ "os_write s"], rule exI [of _ "os_pipe s"], rule exI [of _ "m_wake_pending s"], rule exI [of _ "os_threads s"]) simp

lemma wakes_only_trans: "wakes_only s t \<Longrightarrow> wakes_only t u \<Longrightarrow> wakes_only s u"
  unfolding wakes_only_def by force

lemma wakes_only_upd:
  "wakes_only (s\<lparr>m_wake_pending := b\<rparr>) t \<Longrightarrow> wakes_only s t" "wakes_only (s\<lparr>os_threads := ts\<rparr>) t \<Longrightarrow> wakes_only s t"
  unfolding wakes_only_def by force+

lemma wakes_only_write: "wakes_only s (write_wake ws s)"
proof -
  obtain ws' n b where "write_wake ws s = s\<lparr>os_write := ws', os_pipe := n, m_wake_pending := b\<rparr>" by (rule write_wake_eq)
  then have "write_wake ws s = s\<lparr>os_write := ws', os_pipe := n, m_wake_pending := b, os_threads := os_threads s\<rparr>" by simp
  then show ?thesis unfolding wakes_only_def by blast
qed

lemma wakes_only_exchange: "wakes_only s (wake_exchange s)"
proof -
  have "wakes_only s ((s\<lparr>m_wake_pending := True\<rparr>)\<lparr>os_threads := ts\<rparr>)" for ts
    by (rule wakes_only_upd(1), rule wakes_only_upd(2), rule wakes_only_refl)
  then show ?thesis using wakes_only_trans [OF _ wakes_only_write]
    by (auto simp: wake_exchange_def Let_def intro: wakes_only_refl split: prod.split)
qed

lemma wakes_only_wake_up: "wakes_only (posted cb s) (wake_up cb s)"
proof -
  let ?p = "posted cb s"
  have "wake_up cb s = (let (preempted, ts) = preempt (os_threads ?p)
      in if preempted then ?p\<lparr>os_threads := ts\<lparr>wt_signalling := wt_signalling ts + 1\<rparr>\<rparr> else wake_exchange (?p\<lparr>os_threads := ts\<rparr>))"
    by (simp add: wake_up_def Let_def)
  then show ?thesis by (auto intro: wakes_only_upd(2) wakes_only_exchange wakes_only_refl split: prod.split)
qed

lemma wake_up_eq:
  obtains ws' n b ts where
    "wake_up cb s = (posted cb s)\<lparr>os_write := ws', os_pipe := n, m_wake_pending := b, os_threads := ts\<rparr>"
  using wakes_only_wake_up [of cb s] that unfolding wakes_only_def by blast

lemma wakes_only_resume:
  "wakes_only s (resume_wake_up s)" "wakes_only s (resume_write s)" "wakes_only s (resume_push q s)"
proof -
  show "wakes_only s (resume_wake_up s)" "wakes_only s (resume_write s)"
    by (auto simp: resume_wake_up_def resume_write_def Let_def intro: wakes_only_upd(2) wakes_only_exchange wakes_only_write
        wakes_only_refl)
  show "wakes_only s (resume_push q s)"
    using wakes_only_wake_up [of None] by (auto simp: resume_push_def Let_def posted_def intro: wakes_only_upd(2) wakes_only_refl)
qed

lemma wake_up_reg:
  assumes "reg_inv P B s"
  shows "reg_inv P B (wake_up cb s)"
proof -
  obtain ws' n b ts where w: "wake_up cb s = (posted cb s)\<lparr>os_write := ws', os_pipe := n, m_wake_pending := b, os_threads := ts\<rparr>"
    by (rule wake_up_eq)
  show ?thesis unfolding w
    by (rule reg_inv_frame [OF assms, where evs = "case cb of Some c \<Rightarrow> [Ev_post c] | None \<Rightarrow> []"])
      (auto simp: posted_def log_def split: option.splits)
qed

lemma reg_inv_upd:
  assumes "reg_inv P B s"
  shows "reg_inv P B (s\<lparr>m_timer := tm\<rparr>)" "reg_inv P B (s\<lparr>m_queue_backlog := b\<rparr>)"
    "reg_inv P B (s\<lparr>queues := qs\<rparr>)" "reg_inv P B (s\<lparr>os_threads := ts\<rparr>)" "reg_inv P B (s\<lparr>m_queues := rq\<rparr>)" "reg_inv P B (s\<lparr>m_running := b\<rparr>)"
    "reg_inv P B (s\<lparr>m_removals := rs\<rparr>)" "reg_inv P B (s\<lparr>m_wake_up_cb := ws\<rparr>)"
    "reg_inv P B (s\<lparr>m_reactor_thread_id := i\<rparr>)" "reg_inv P B (s\<lparr>m_dispatch := d\<rparr>)"
    "neutral ev \<Longrightarrow> reg_inv P B (log ev s)"
  by (rule reg_inv_frame [OF assms, where evs = "[]"]; simp)+
    (rule reg_inv_frame [OF assms, where evs = "[ev]"]; simp add: log_def)

lemma wakes_only_reg: "wakes_only s t \<Longrightarrow> reg_inv P B s \<Longrightarrow> reg_inv P B t"
  by (erule reg_inv_frame [where evs = "[]"]) (auto simp: wakes_only_def)

lemma wake_cb_reg: "reg_inv P B s \<Longrightarrow> reg_inv P B (wake_cb s)"
  by (erule reg_inv_frame [where evs = "[]"]) (simp_all add: wake_cb_def case_prod_beta Let_def)

lemma defer_removal_reg: "reg_inv P B s \<Longrightarrow> reg_inv P B (defer_removal fd w cb s)"
  by (simp add: defer_removal_def wake_up_reg reg_inv_upd)

lemma exec_action_reg:
  assumes "reg_inv P B s"
  shows "reg_inv P B (the_state (exec_action th a s))"
proof (cases a)
  case (Rem_read_rdy fd cb)
  have "reg_inv P B (snd (rem_read fd s))" using assms by (rule wf_intros)
  then show ?thesis using Rem_read_rdy assms
    by (auto simp: rem_read_rdy_def wake_up_reg defer_removal_reg Let_def split: option.splits)
next
  case (Rem_write_rdy fd cb)
  have "reg_inv P B (snd (rem_write fd s))" using assms by (rule wf_intros)
  then show ?thesis using Rem_write_rdy assms
    by (auto simp: rem_write_rdy_def wake_up_reg defer_removal_reg Let_def split: option.splits)
next
  case (Queue_push q v)
  then show ?thesis using assms by (auto simp: queue_push_def wake_up_reg reg_inv_upd Let_def split: result.splits prod.split)
next
  case (Queue_pop q)
  then show ?thesis using assms by (auto simp: reg_inv_upd split: result.splits)
next
  case (Queue_set_capacity q n ok)
  then show ?thesis using assms by (auto simp: reg_inv_upd split: result.splits)
next
  case (Timer_wait f cb now)
  then show ?thesis using assms by (auto simp: reg_inv_upd split: result.splits)
qed (use assms in \<open>auto simp: add_read_rdy_def add_write_rdy_def req_write_rdy_def pr_stop_def add_queue_def rem_queue_def
    bind_queue_def Let_def wake_up_reg reg_inv_upd reg_inv_ops intro: wakes_only_reg [OF wakes_only_resume(1)]
    wakes_only_reg [OF wakes_only_resume(2)] wakes_only_reg [OF wakes_only_resume(3)]\<close>)

interpretation reg: reactor_relation "\<lambda>s t. reg_inv P B s \<longrightarrow> reg_inv P B t" for P B
  by unfold_locales (auto simp: exec_action_reg reg_inv_upd reg_inv_ops)

definition polled_items :: "poll_entry list \<Rightarrow> (poll_kind \<times> fd_t \<Rightarrow> u64 option) \<Rightarrow> bool" where
  "polled_items es seen \<longleftrightarrow> (\<forall>e \<in> set es. pe_kind e \<noteq> Wake \<longrightarrow> seen (poll_key e) = Some (pe_gen e))"

lemma reg_inv_weaken: "reg_inv P B s \<Longrightarrow> reg_inv (\<lambda>_. True) B s"
  by (auto simp: reg_inv_def refines_def)

lemma clear_revents_simps [simp]:
  "poll_key (clear_revents e) = poll_key e" "pe_watch (clear_revents e) = pe_watch e"
  "pe_kind (clear_revents e) = pe_kind e" "pfd_fd (pfd (clear_revents e)) = pfd_fd (pfd e)"
  by (simp_all add: clear_revents_def poll_key_def pe_watch_def)

lemma tables_ok_clear: "tables_ok es m \<Longrightarrow> tables_ok (map clear_revents es) m"
proof -
  assume ok: "tables_ok es m"
  then have "indexed poll_key (map clear_revents es) (slot m)"
    by (auto simp: tables_ok_def indexed_def)
  moreover have "entry_ok (map clear_revents es) fd en" if "m fd = Some en" for fd en
  proof -
    have "pe_watch (map clear_revents es ! i) = watch k en" if i: "idx_of k en = Some i" for k i
    proof -
      have "k \<noteq> Wake" using i by (auto simp: idx_of_def)
      then have "slot m (k, fd) = Some i" using \<open>m fd = Some en\<close> i by (simp add: slot_def)
      then show ?thesis using tables_ok_index(1) [OF ok] tables_ok_entry [OF ok \<open>m fd = Some en\<close>] i
        by (simp add: entry_ok_def)
    qed
    then show ?thesis using tables_ok_entry [OF ok that] by (simp add: entry_ok_def)
  qed
  ultimately show ?thesis by (simp add: tables_ok_def)
qed

lemma reg_of_polled:
  assumes ok: "tables_ok es m"
  shows "polled_items es (\<lambda>key. map_option fst (reg_of m key))"
  unfolding polled_items_def
proof (intro ballI impI)
  fix e assume "e \<in> set es" and kw: "pe_kind e \<noteq> Wake"
  then obtain i where i: "i < length es" "e = es ! i" by (auto simp: in_set_conv_nth)
  then have "slot m (poll_key e) = Some i" using ok indexed_nth by (fastforce simp: tables_ok_def)
  then obtain en where en: "m (owner_fd e) = Some en" "idx_of (pe_kind e) en = Some i"
    using kw by (auto simp: slot_def poll_key_def bind_eq_Some_conv)
  then have "pe_watch e = watch (pe_kind e) en"
    using tables_ok_entry [OF ok en(1)] i by (auto simp: entry_ok_def)
  with en kw show "map_option fst (reg_of m (poll_key e)) = Some (pe_gen e)"
    by (cases "pe_kind e") (auto simp: poll_key_def reg_of_def reg_en_def idx_of_def watch_def pe_watch_def split: if_splits)
qed

lemma prepare_poll_reg:
  assumes "reg_inv P B s"
  shows "reg_inv (polled_items (m_poll_entries s)) B (prepare_poll t s)"
proof -
  have ok: "tables_ok (m_poll_entries s) (m_fd_entries s)" using assms by (simp add: reg_inv_def tables_wf_def)
  have "refines (polled_items (m_poll_entries s)) (prepare_poll t s)"
    by (rule refines_append [where ev = "Ev_poll t" and P = P and s = s])
      (use assms reg_of_polled [OF ok] in \<open>auto simp: prepare_poll_def log_def reg_inv_def\<close>)
  moreover have "write_dups (map clear_revents es) = write_dups es" for es
    by (simp add: write_dups_def filter_map comp_def)
  ultimately show ?thesis
    using assms tables_ok_clear [OF ok] by (simp add: reg_inv_def tables_wf_def dups_ok_def prepare_poll_def log_def)
qed

lemma dispatch_log_reg:
  assumes "reg_inv P B s" and P: "\<And>seen. P seen \<Longrightarrow> polled_items [item] seen" and "pe_kind item \<noteq> Wake"
    and "reg_of (m_fd_entries s) (poll_key item) = Some (pe_gen item, Some c)"
  shows "reg_inv P B (log (Ev_dispatch (pe_kind item) (owner_fd item) (pe_gen item) c) s)"
proof -
  have "refines P (log (Ev_dispatch (pe_kind item) (owner_fd item) (pe_gen item) c) s)"
    by (rule refines_append [where P = P and s = s])
      (use assms in \<open>auto simp: log_def reg_inv_def polled_items_def poll_key_def\<close>)
  with assms(1) show ?thesis by (simp add: reg_inv_def tables_wf_def dups_ok_def log_def)
qed

lemma dispatch_item_reg:
  assumes inv: "reg_inv P B s" and P: "\<And>seen. P seen \<Longrightarrow> polled_items [item] seen"
  shows "reg_inv P B (the_state (dispatch_item prog th (item, revents) s))"
proof (cases "revents = 0 \<or> pe_kind item = Wake \<or> m_fd_entries s (owner_fd item) = None")
  case True
  then show ?thesis using inv by (auto simp: dispatch_item_def wake_cb_reg)
next
  case False
  then obtain en where en: "m_fd_entries s (owner_fd item) = Some en" and kw: "pe_kind item \<noteq> Wake" by auto
  have call: "reg_inv P B t \<Longrightarrow> reg_inv P B (the_state (call_user prog th c t))" for c t
    using reg.R_call_user by blast
  have kr: "pe_kind item = Read \<or> pe_kind item = Write" using kw poll_kind.exhaust by blast
  have ev: "reg_inv P B (set_poll_events i ev s)" for i ev using inv by (rule wf_intros)
  have fds: "m_fd_entries (set_poll_events i ev s) = m_fd_entries s" for i ev by (simp add: set_poll_events_def)
  show ?thesis using kr False en inv
    using dispatch_log_reg [OF inv P kw] dispatch_log_reg [OF ev P kw]
    by (auto simp: dispatch_item_def reg_of_def reg_en_def poll_key_def fds intro!: call split: option.splits)
qed

lemma dispatch_reg:
  assumes "reg_inv (polled_items es) B s" "set items \<subseteq> set es"
  shows "reg_inv (polled_items es) B (the_state (rfold (dispatch_item prog th) (zip items revents) s))"
  using assms
proof (induction items arbitrary: s revents)
  case (Cons item items)
  show ?case
  proof (cases revents)
    case (Cons r rs)
    have "reg_inv (polled_items es) B (the_state (dispatch_item prog th (item, r) s))"
      by (rule dispatch_item_reg [OF Cons.prems(1)]) (use Cons.prems(2) in \<open>auto simp: polled_items_def\<close>)
    then show ?thesis using Cons.IH [of _ rs] Cons.prems Cons
      by (cases "dispatch_item prog th (item, r) s") auto
  qed (use Cons.prems in simp)
qed simp

lemma run_removal_reg:
  assumes "reg_inv P B s"
  shows "reg_inv P B (the_state (run_removal prog th r s))"
proof -
  have "reg_inv P B (snd (rem_write (rm_fd r) s))" "reg_inv P B (snd (rem_read (rm_fd r) s))"
    using assms by (simp_all add: reg_inv_ops)
  moreover have "reg_inv P B t \<Longrightarrow> reg_inv P B (the_state (call_user prog th c t))" for c t
    using reg.R_call_user by blast
  ultimately show ?thesis by (auto simp: run_removal_def Let_def reg_inv_upd split: option.splits)
qed

lemma call_wake_reg:
  assumes "reg_inv P B s"
  shows "reg_inv P B (the_state (call_wake prog th c s))"
proof -
  have l: "reg_inv P B (log (Ev_wake c) s)" using assms by (simp add: reg_inv_upd)
  show ?thesis
  proof (cases c)
    case (User n)
    then show ?thesis using l reg.R_call_user by (fastforce simp: call_wake_def Let_def)
  next
    case Run_removals
    then show ?thesis
      using rfold_inv [of "reg_inv P B" "run_removal prog th", OF run_removal_reg] l
      by (simp add: call_wake_def run_removals_def Let_def reg_inv_upd)
  qed
qed

lemma wake_phase_reg: "reg_inv P B s \<Longrightarrow> reg_inv P B (the_state (wake_phase prog th s))"
  using rfold_inv [of "reg_inv P B" "call_wake prog th", OF call_wake_reg]
  by (simp add: wake_phase_def Let_def reg_inv_upd)

lemma more_eq:
  fixes s t :: poll_reactor
  assumes "poll_tables.more t = poll_tables.more s"
  shows "m_queues t = m_queues s" "m_queue_backlog t = m_queue_backlog s" "m_wake_up_cb t = m_wake_up_cb s"
    "m_wake_pipe t = m_wake_pipe s" "m_wake_pending t = m_wake_pending s" "m_running t = m_running s"
    "m_reactor_thread_id t = m_reactor_thread_id s" "m_dispatch t = m_dispatch s" "m_timer t = m_timer s"
    "m_removals t = m_removals s" "os_pipe t = os_pipe s" "os_read t = os_read s" "os_write t = os_write s"
    "queues t = queues s" "os_threads t = os_threads s"
  using assms by (cases s; cases t; simp)+

lemmas ops_more = more_eq [OF more_ops(1)] more_eq [OF more_ops(2)] more_eq [OF more_ops(3)] more_eq [OF more_ops(4)]
  more_eq [OF more_ops(5)] more_eq [OF more_helpers(6)] more_eq [OF more_helpers(8)] more_eq [OF more_cleanup]

definition frame :: "poll_reactor \<Rightarrow> poll_reactor \<Rightarrow> bool" where
  "frame s t \<longleftrightarrow> m_dispatch t = m_dispatch s \<and> m_wake_pipe t = m_wake_pipe s"

lemma wake_up_frame: "frame s (wake_up cb s)"
proof -
  obtain ws' n b ts where w: "wake_up cb s = (posted cb s)\<lparr>os_write := ws', os_pipe := n, m_wake_pending := b, os_threads := ts\<rparr>"
    by (rule wake_up_eq)
  show ?thesis by (simp add: w frame_def posted_def log_def split: option.splits)
qed

lemma wakes_only_frame: "wakes_only s t \<Longrightarrow> m_dispatch t = m_dispatch s \<and> m_wake_pipe t = m_wake_pipe s"
  by (auto simp: wakes_only_def)

lemma frame_trans: "frame s t \<Longrightarrow> frame t u \<Longrightarrow> frame s u"
  by (simp add: frame_def)

lemma frame_upd_wake:
  "frame s (f s) \<Longrightarrow> frame s (wake_up cb (f s))"
  using wake_up_frame frame_trans by blast

lemma defer_removal_frame: "frame s (defer_removal fd w cb s)"
  unfolding defer_removal_def Let_def
  by (rule frame_trans [OF _ wake_up_frame]) (simp add: frame_def log_def)

lemma exec_action_frame: "frame s (the_state (exec_action th a s))"
proof (cases a)
  case (Rem_read_rdy fd cb)
  have "frame s (snd (rem_read fd s))" by (simp add: frame_def ops_more)
  then show ?thesis using Rem_read_rdy frame_trans [OF _ wake_up_frame]
    by (auto simp: rem_read_rdy_def defer_removal_frame Let_def split: option.splits)
next
  case (Rem_write_rdy fd cb)
  have "frame s (snd (rem_write fd s))" by (simp add: frame_def ops_more)
  then show ?thesis using Rem_write_rdy frame_trans [OF _ wake_up_frame]
    by (auto simp: rem_write_rdy_def defer_removal_frame Let_def split: option.splits)
next
  case (Queue_push q v)
  then show ?thesis using frame_trans [OF _ wake_up_frame]
    by (auto simp: queue_push_def frame_def Let_def split: result.splits prod.split)
qed (auto simp: add_read_rdy_def add_write_rdy_def req_write_rdy_def pr_stop_def add_queue_def rem_queue_def bind_queue_def
    Let_def wakes_only_frame [OF wakes_only_resume(1)] wakes_only_frame [OF wakes_only_resume(2)]
    wakes_only_frame [OF wakes_only_resume(3)] frame_def ops_more wake_up_frame [unfolded frame_def] split: result.splits)

interpretation fr: reactor_relation frame
  by unfold_locales (auto simp: exec_action_frame, auto simp: frame_def ops_more)

lemma prepare_poll_dispatch: "m_dispatch (foreign as (prepare_poll t s)) = m_poll_entries s"
  using fr.R_foreign [of "prepare_poll t s" as] by (simp add: frame_def prepare_poll_def log_def)

lemma serve_reg:
  assumes "reg_inv (polled_items es) B s" "m_dispatch s = es"
  shows "reg_inv (\<lambda>_. True) B (the_state (serve prog th env revents s))"
proof -
  let ?R = "\<lambda>s t. reg_inv (polled_items es) B s \<longrightarrow> reg_inv (polled_items es) B t"
  let ?d = "if length (filter (\<lambda>r. r \<noteq> 0) (take (length (m_dispatch s)) revents)) > 0
    then rfold (dispatch_item prog th) (zip (m_dispatch s) revents) s else Ok () s"
  have "?R s (the_state ?d)" using dispatch_reg [of es B s es prog th revents] assms by simp
  moreover have "?R t (the_state (rbind (wake_phase prog th (foreign (before_wake env) t)) (\<lambda>_ s.
      rbind (queue_phase prog th (foreign (before_queues env) s)) (\<lambda>_ s.
        timer_phase prog th (now_after env) (foreign (before_timers env) (run_cleanup s))))))" for t
    by (rule reg.R_bind) (use wake_phase_reg reg.R_foreign reg.R_tail in blast)+
  ultimately have "?R s (the_state (serve prog th env revents s))"
    unfolding serve_def Let_def by (rule reg.R_bind)
  with assms show ?thesis using reg_inv_weaken by blast
qed

lemma iteration_reg:
  assumes "reg_inv (\<lambda>_. True) B s"
  shows "reg_inv (\<lambda>_. True) B (the_state (iteration prog th env s))"
proof -
  have pt: "the_state (poll_timeout now s) = s" for now
    by (simp add: poll_timeout_def Let_def split: option.splits)
  show ?thesis
  proof (cases "poll_timeout (now_before env) s")
    case (Ok t s')
    then have s': "s' = s" using pt [of "now_before env"] by simp
    let ?s = "foreign (during_poll env) (prepare_poll t s)"
    have i: "reg_inv (polled_items (m_poll_entries s)) B ?s"
      using prepare_poll_reg [OF assms] reg.R_foreign by blast
    moreover have "m_dispatch ?s = m_poll_entries s" by (rule prepare_poll_dispatch)
    ultimately show ?thesis using Ok s' serve_reg reg_inv_weaken [OF i]
      by (auto simp: iteration_def Let_def split: poll_result.splits)
  next
    case (Throw e s')
    then show ?thesis using pt [of "now_before env"] assms by (simp add: iteration_def)
  qed
qed

lemma run_loop_reg:
  "reg_inv (\<lambda>_. True) B s \<Longrightarrow> reg_inv (\<lambda>_. True) B (the_state (run_loop prog th envs s))"
proof (induction envs arbitrary: s)
  case (Cons env envs)
  then show ?case using iteration_reg [OF Cons.prems, of prog th env]
    by (cases "iteration prog th env s") (auto simp: reg_inv_upd)
qed (simp add: reg_inv_upd)

lemma poll_reactor_new_reg:
  assumes "poll_reactor_new (Inr p) f0 f1 (poll_reactor_init dups qs rs ws ps) = Ok () s"
  shows "reg_inv (\<lambda>_. True) {#fst p, snd p#} s" "m_wake_pipe s = p"
proof -
  have s: "s = (poll_reactor_init dups qs rs ws ps)\<lparr>m_wake_pipe := p, os_opened := [fst p, snd p],
      m_poll_entries := [\<lparr>pfd = \<lparr>pfd_fd = fst p, pfd_events = ucast POLLIN, pfd_revents = 0\<rparr>,
        owner_fd = -1, pe_kind = Wake, pe_gen = 0\<rparr>]\<rparr>"
    using assms
    by (auto simp: poll_reactor_new_def set_non_blocking_def Let_def poll_reactor_init_def split: option.splits)
  then show "m_wake_pipe s = p" by simp
  have "indexed poll_key [\<lparr>pfd = f, owner_fd = -1, pe_kind = Wake, pe_gen = 0\<rparr>] (slot Map.empty)" for f
    by (auto simp: indexed_def slot_def poll_key_def)
  then show "reg_inv (\<lambda>_. True) {#fst p, snd p#} s"
    by (simp add: s poll_reactor_init_def reg_inv_def tables_wf_def tables_ok_def refines_def reg_of_def
        registry_empty_def dups_ok_def write_dups_def fun_eq_iff)
qed


section \<open>Posted callbacks and deferred removals\<close>

text \<open>The history of posted and called wake-up callbacks, and of asked and carried out removals.\<close>

definition posts :: "event list \<Rightarrow> wake_fn list" where
  "posts evs = concat (map (\<lambda>ev. case ev of Ev_post c \<Rightarrow> [c] | _ \<Rightarrow> []) evs)"

definition wakes :: "event list \<Rightarrow> wake_fn list" where
  "wakes evs = concat (map (\<lambda>ev. case ev of Ev_wake c \<Rightarrow> [c] | _ \<Rightarrow> []) evs)"

definition asks :: "event list \<Rightarrow> removal list" where
  "asks evs = concat (map (\<lambda>ev. case ev of
     Ev_ask fd w cb \<Rightarrow> [\<lparr>rm_fd = fd, rm_write = w, rm_done_cb = cb\<rparr>] | _ \<Rightarrow> []) evs)"

definition dones :: "event list \<Rightarrow> removal list" where
  "dones evs = concat (map (\<lambda>ev. case ev of
     Ev_done fd w cb \<Rightarrow> [\<lparr>rm_fd = fd, rm_write = w, rm_done_cb = cb\<rparr>] | _ \<Rightarrow> []) evs)"

definition hist :: "'z poll_tables_scheme \<Rightarrow> wake_fn list \<times> wake_fn list \<times> removal list \<times> removal list" where
  "hist s = (posts (trace s), wakes (trace s), asks (trace s), dones (trace s))"

lemmas hist_defs = posts_def wakes_def asks_def dones_def

lemma trace_helpers [simp]:
  "trace (mod_entry fd f s) = trace s" "trace (snd (entry_ref fd s)) = trace s" "trace (retire_cb cb s) = trace s"
  "trace (snd (add_poll_entry w fd k sh s)) = trace s" "trace (set_poll_entry i w sh s) = trace s"
  "trace (set_poll_events i sh s) = trace s" "trace (update_poll_index fd k i s) = trace s"
  "trace (sys_close fd s) = trace s"
  by (auto simp: mod_entry_def entry_ref_def retire_cb_def add_poll_entry_def set_poll_entry_def
      set_poll_events_def update_poll_index_def sys_close_def Let_def split: option.splits)

lemma trace_remove [simp]: "trace (remove_poll_entry_by_index i s) = trace s"
  by (simp add: remove_poll_entry_by_index_def Let_def)

lemma hist_ops [simp]:
  "hist (snd (add_read fd events cb s)) = hist s" "hist (snd (rem_read fd s)) = hist s"
  "hist (snd (add_write fd cb s)) = hist s" "hist (snd (rem_write fd s)) = hist s"
  "hist (snd (req_write fd events s)) = hist s"
  "hist (set_poll_events i sh s) = hist s"
  by (auto simp: hist_def hist_defs add_read_def rem_read_def add_write_def rem_write_def req_write_def cleanup_fd_def
      log_def case_prod_beta Let_def split: option.splits)

lemma trace_cleanup_fd [simp]: "trace (cleanup_fd fd s) = trace s"
  by (simp add: cleanup_fd_def Let_def split: option.splits)

lemma trace_cleanup [simp]: "trace (run_cleanup s) = trace s"
proof -
  have "trace (fold cleanup_fd fds s) = trace s" for fds by (induction fds arbitrary: s) auto
  then show ?thesis by (simp add: run_cleanup_def)
qed

text \<open>Everything a callback does only appends: to the posted callbacks and to the removals asked for.\<close>

definition appends :: "poll_reactor \<Rightarrow> poll_reactor \<Rightarrow> bool" where
  "appends s t \<longleftrightarrow> (\<exists>ps rs.
     hist t = (posts (trace s) @ ps, wakes (trace s), asks (trace s) @ rs, dones (trace s)) \<and>
     m_wake_up_cb t = m_wake_up_cb s @ ps \<and> m_removals t = m_removals s @ rs \<and>
     (rs \<noteq> [] \<longrightarrow> Run_removals \<in> set ps))"

lemma appends_same:
  "hist t = hist s \<Longrightarrow> m_wake_up_cb t = m_wake_up_cb s \<Longrightarrow> m_removals t = m_removals s \<Longrightarrow> appends s t"
  by (simp add: appends_def hist_def)

lemma appends_trans:
  assumes "appends s t" "appends t u"
  shows "appends s u"
proof -
  obtain ps rs where st: "hist t = (posts (trace s) @ ps, wakes (trace s), asks (trace s) @ rs, dones (trace s))"
     "m_wake_up_cb t = m_wake_up_cb s @ ps" "m_removals t = m_removals s @ rs" "rs \<noteq> [] \<longrightarrow> Run_removals \<in> set ps"
    using assms(1) by (auto simp: appends_def)
  obtain ps' rs' where tu: "hist u = (posts (trace t) @ ps', wakes (trace t), asks (trace t) @ rs', dones (trace t))"
     "m_wake_up_cb u = m_wake_up_cb t @ ps'" "m_removals u = m_removals t @ rs'" "rs' \<noteq> [] \<longrightarrow> Run_removals \<in> set ps'"
    using assms(2) by (auto simp: appends_def)
  show ?thesis unfolding appends_def
    by (rule exI [of _ "ps @ ps'"], rule exI [of _ "rs @ rs'"]) (use st tu in \<open>auto simp: hist_def\<close>)
qed

lemma wake_up_appends: "appends s (wake_up cb s)"
proof -
  obtain ws' n b ts where w: "wake_up cb s = (posted cb s)\<lparr>os_write := ws', os_pipe := n, m_wake_pending := b, os_threads := ts\<rparr>"
    by (rule wake_up_eq)
  show ?thesis unfolding w appends_def
    by (rule exI [of _ "case cb of Some c \<Rightarrow> [c] | None \<Rightarrow> []"], rule exI [of _ "[]"])
      (auto simp: posted_def log_def hist_def hist_defs split: option.splits)
qed

lemma wakes_only_appends: "wakes_only s t \<Longrightarrow> appends s t"
  by (rule appends_same) (auto simp: wakes_only_def hist_def)

lemma defer_removal_appends: "appends s (defer_removal fd w cb s)"
proof -
  obtain ws' n b ts where u: "defer_removal fd w cb s = (posted (Some Run_removals) (log (Ev_ask fd w cb)
      (s\<lparr>m_removals := m_removals s @ [\<lparr>rm_fd = fd, rm_write = w, rm_done_cb = cb\<rparr>]\<rparr>)))
        \<lparr>os_write := ws', os_pipe := n, m_wake_pending := b, os_threads := ts\<rparr>"
    unfolding defer_removal_def Let_def by (rule wake_up_eq)
  show ?thesis unfolding u appends_def
    by (rule exI [of _ "[Run_removals]"], rule exI [of _ "[\<lparr>rm_fd = fd, rm_write = w, rm_done_cb = cb\<rparr>]"])
      (auto simp: posted_def log_def hist_def hist_defs)
qed

lemma exec_action_appends: "appends s (the_state (exec_action th a s))"
proof (cases a)
  case (Rem_read_rdy fd cb)
  have "appends s (snd (rem_read fd s))" by (rule appends_same) (simp_all add: ops_more)
  then show ?thesis using Rem_read_rdy appends_trans [OF _ wake_up_appends]
    by (auto simp: rem_read_rdy_def defer_removal_appends Let_def split: option.splits)
next
  case (Rem_write_rdy fd cb)
  have "appends s (snd (rem_write fd s))" by (rule appends_same) (simp_all add: ops_more)
  then show ?thesis using Rem_write_rdy appends_trans [OF _ wake_up_appends]
    by (auto simp: rem_write_rdy_def defer_removal_appends Let_def split: option.splits)
next
  case (Queue_push q v)
  have "appends s (s\<lparr>queues := qs, os_threads := ts\<rparr>)" for qs ts by (rule appends_same) (simp_all add: hist_def)
  then show ?thesis using Queue_push appends_trans [OF _ wake_up_appends] appends_same [of s s]
    by (auto simp: queue_push_def Let_def split: result.splits prod.split)
next
  case Stop
  have "appends s (s\<lparr>m_running := False\<rparr>)" by (rule appends_same) (simp_all add: hist_def)
  then show ?thesis using Stop appends_trans [OF _ wake_up_appends] by (simp add: pr_stop_def)
next
  case (Add_queue q cb)
  have "appends s (s\<lparr>m_queues := rq_add q cb (m_queues s)\<rparr>)" by (rule appends_same) (simp_all add: hist_def)
  then show ?thesis using Add_queue appends_trans [OF _ wake_up_appends] by (simp add: add_queue_def)
qed (auto simp: add_read_rdy_def add_write_rdy_def req_write_rdy_def rem_queue_def bind_queue_def Let_def wake_up_appends
    wakes_only_appends [OF wakes_only_resume(1)] wakes_only_appends [OF wakes_only_resume(2)]
    wakes_only_appends [OF wakes_only_resume(3)] ops_more split: result.splits intro!: appends_same, auto simp: hist_def)

interpretation ap: reactor_relation appends
  by unfold_locales (auto intro: appends_trans exec_action_appends, auto intro!: appends_same simp: hist_def ops_more)

text \<open>
  The balance: every posted callback was called or is still queued, in order; likewise every removal
  asked for; and a waiting removal has its callback queued. \<open>rest\<close> are the callbacks taken off the queue
  and not called yet, \<open>batch\<close> the removals taken and not carried out yet.
\<close>

definition balance :: "wake_fn list \<Rightarrow> removal list \<Rightarrow> poll_reactor \<Rightarrow> bool" where
  "balance rest batch s \<longleftrightarrow>
     posts (trace s) = wakes (trace s) @ rest @ m_wake_up_cb s \<and>
     asks (trace s) = dones (trace s) @ batch @ m_removals s \<and>
     (m_removals s \<noteq> [] \<longrightarrow> Run_removals \<in> set rest \<union> set (m_wake_up_cb s))"

lemma appends_balance: "appends s t \<Longrightarrow> balance rest batch s \<Longrightarrow> balance rest batch t"
  by (auto simp: appends_def balance_def hist_def)

lemma balance_call_user: "balance rest batch s \<Longrightarrow> balance rest batch (the_state (call_user prog th c s))"
  using appends_balance ap.R_call_user by blast

lemma run_removal_balance:
  assumes "balance rest (r # batch) s"
  shows "balance rest batch (the_state (run_removal prog th r s))"
proof -
  let ?s1 = "if rm_write r then snd (rem_write (rm_fd r) s) else snd (rem_read (rm_fd r) s)"
  let ?s2 = "log (Ev_done (rm_fd r) (rm_write r) (rm_done_cb r)) ?s1"
  have "appends s ?s1" by (rule appends_same) (simp_all add: ops_more)
  then have "balance rest (r # batch) ?s1" using assms appends_balance by blast
  then have "balance rest batch ?s2" by (simp add: balance_def log_def hist_defs)
  then show ?thesis by (auto simp: run_removal_def Let_def balance_call_user split: option.splits)
qed

lemma run_removals_balance:
  "balance rest batch s \<Longrightarrow> rfold (run_removal prog th) batch s = Ok () t \<Longrightarrow> balance rest [] t"
proof (induction batch arbitrary: s)
  case (Cons r batch)
  then show ?case using run_removal_balance [OF Cons.prems(1), of prog th]
    by (auto simp: rbind_eq_Ok)
qed simp

lemma call_wake_balance:
  assumes "balance (c # rest) [] s" "call_wake prog th c s = Ok () t"
  shows "balance rest [] t"
proof (cases c)
  case (User n)
  then have "balance rest [] (log (Ev_wake c) s)"
    using assms(1) by (auto simp: balance_def log_def hist_defs)
  from balance_call_user [OF this, of prog th n] show ?thesis
    using assms(2) User by (simp add: call_wake_def Let_def)
next
  case Run_removals
  have "balance rest (m_removals s) ((log (Ev_wake c) s)\<lparr>m_removals := []\<rparr>)"
    using assms(1) by (simp add: balance_def log_def hist_defs)
  then show ?thesis using assms(2) Run_removals run_removals_balance
    by (auto simp: call_wake_def run_removals_def Let_def log_def)
qed

lemma wake_list_balance:
  "balance cbl [] s \<Longrightarrow> rfold (call_wake prog th) cbl s = Ok () t \<Longrightarrow> balance [] [] t"
proof (induction cbl arbitrary: s)
  case (Cons c cbl)
  then show ?case using call_wake_balance [OF Cons.prems(1), of prog th] by (auto simp: rbind_eq_Ok)
qed simp

lemma wake_phase_balance:
  assumes "balance [] [] s" "wake_phase prog th s = Ok () t"
  shows "balance [] [] t"
proof (rule wake_list_balance)
  show "balance (m_wake_up_cb s) [] (s\<lparr>m_wake_up_cb := []\<rparr>)" using assms(1) by (simp add: balance_def)
  show "rfold (call_wake prog th) (m_wake_up_cb s) (s\<lparr>m_wake_up_cb := []\<rparr>) = Ok () t"
    using assms(2) by (simp add: wake_phase_def Let_def)
qed

lemma dispatch_item_balance:
  assumes "balance [] [] s"
  shows "balance [] [] (the_state (dispatch_item prog th x s))"
proof -
  obtain item r where x: "x = (item, r)" by fastforce
  have l: "balance [] [] (log (Ev_dispatch k fd g c) t)" if "balance [] [] t" for t k fd g c
    using that by (simp add: balance_def log_def hist_defs)
  have "appends s (set_poll_events i ev s)" for i ev by (rule appends_same) (simp_all add: ops_more)
  then have e: "balance [] [] (set_poll_events i ev s)" for i ev using assms appends_balance by blast
  have "balance [] [] (wake_cb s)"
    using assms by (simp add: balance_def wake_cb_def case_prod_beta Let_def)
  then show ?thesis using assms
    by (auto simp: x dispatch_item_def intro!: balance_call_user l e split: option.splits)
qed

lemma rbind_unit_Ok:
  assumes "rbind r f = Ok b t"
  obtains s :: 's where "r = (Ok () s :: ('s, unit) result)" "f () s = Ok b t"
  using assms by (cases r) auto

lemma serve_Ok:
  assumes "serve prog th env revents s = Ok () t"
  obtains s1 s2 where
    "(if length (filter (\<lambda>r. r \<noteq> 0) (take (length (m_dispatch s)) revents)) > 0
      then rfold (dispatch_item prog th) (zip (m_dispatch s) revents) s else Ok () s) = Ok () s1"
    "wake_phase prog th (foreign (before_wake env) s1) = Ok () s2"
    "rbind (queue_phase prog th (foreign (before_queues env) s2)) (\<lambda>_ s.
        timer_phase prog th (now_after env) (foreign (before_timers env) (run_cleanup s))) = Ok () t"
  using assms unfolding serve_def Let_def by (elim rbind_unit_Ok [where b = "()"]) (rule that, assumption, assumption, simp only: rbind_simps)

lemma serve_balance:
  assumes "balance [] [] s" "serve prog th env revents s = Ok () t"
  shows "balance [] [] t"
proof (rule serve_Ok [OF assms(2)])
  fix s1 s2
  assume s1: "(if length (filter (\<lambda>r. r \<noteq> 0) (take (length (m_dispatch s)) revents)) > 0
      then rfold (dispatch_item prog th) (zip (m_dispatch s) revents) s else Ok () s) = Ok () s1"
    and s2: "wake_phase prog th (foreign (before_wake env) s1) = Ok () s2"
    and r2: "rbind (queue_phase prog th (foreign (before_queues env) s2)) (\<lambda>_ s.
        timer_phase prog th (now_after env) (foreign (before_timers env) (run_cleanup s))) = Ok () t"
  have "balance [] [] s1"
    using rfold_inv [of "balance [] []" "dispatch_item prog th", OF dispatch_item_balance] s1 assms(1)
    by (metis result.inject(1) result.sel(2))
  then have "balance [] [] (foreign (before_wake env) s1)" using appends_balance ap.R_foreign by blast
  then have "balance [] [] s2" using s2 by (rule wake_phase_balance)
  moreover have "appends s2 t" using ap.R_tail [of s2 prog th "before_queues env" "now_after env" "before_timers env"] r2
    by simp
  ultimately show ?thesis using appends_balance by blast
qed

lemma poll_timeout_state: "the_state (poll_timeout now s) = s"
  by (simp add: poll_timeout_def Let_def split: option.splits)

lemma iteration_balance:
  assumes "balance [] [] s" "iteration prog th env s = Ok () t"
  shows "balance [] [] t"
proof -
  obtain tmo s0 where p: "poll_timeout (now_before env) s = Ok tmo s0"
    using assms(2) by (cases "poll_timeout (now_before env) s") (auto simp: iteration_def)
  then have "s0 = s" using poll_timeout_state [of "now_before env" s] by simp
  let ?s = "foreign (during_poll env) (prepare_poll tmo s)"
  have "balance [] [] (prepare_poll tmo s)"
    using assms(1) by (simp add: balance_def prepare_poll_def log_def hist_defs)
  then have "balance [] [] ?s" using appends_balance ap.R_foreign by blast
  then show ?thesis using assms(2) serve_balance p \<open>s0 = s\<close>
    by (auto simp: iteration_def Let_def split: poll_result.splits if_splits)
qed

lemma run_loop_balance:
  "balance [] [] s \<Longrightarrow> run_loop prog th envs s = Ok b t \<Longrightarrow> balance [] [] t"
proof (induction envs arbitrary: s)
  case Nil
  then show ?case by (auto simp: balance_def split: if_splits)
next
  case (Cons env envs)
  show ?case
  proof (cases "m_running s")
    case True
    then obtain s1 where "iteration prog th env s = Ok () s1" "run_loop prog th envs s1 = Ok b t"
      using Cons.prems(2) by (auto simp: rbind_eq_Ok)
    then show ?thesis using Cons iteration_balance by blast
  next
    case False
    then show ?thesis using Cons.prems by (auto simp: balance_def)
  qed
qed


section \<open>The wake pipe carries every pending callback\<close>

text \<open>
  \<open>signal\<close>: writes to the wake pipe do not fail, and a pending wake-up has a byte in the pipe or the thread that
  will write it. \<open>announced\<close>: a wake-up is pending or a thread is about to set it. \<open>alert\<close>: moreover a queued
  callback is announced, so \<open>poll\<close> returns or will.
\<close>

definition signal :: "poll_reactor \<Rightarrow> bool" where
  "signal s \<longleftrightarrow> Io_fail \<notin> set (os_write s) \<and> (m_wake_pending s \<longrightarrow> 0 < os_pipe s \<or> 0 < wt_writing (os_threads s))"

definition announced :: "poll_reactor \<Rightarrow> bool" where
  "announced s \<longleftrightarrow> m_wake_pending s \<or> 0 < wt_signalling (os_threads s)"

definition alert :: "poll_reactor \<Rightarrow> bool" where
  "alert s \<longleftrightarrow> signal s \<and> (m_wake_up_cb s \<noteq> [] \<longrightarrow> announced s)"

lemmas announce_defs = signal_def announced_def alert_def

lemma preempt_fields:
  assumes "preempt ts = (b, ts')"
  shows "wt_pushing ts' = wt_pushing ts" "wt_signalling ts' = wt_signalling ts" "wt_writing ts' = wt_writing ts"
    "wt_late ts' = wt_late ts"
  using assms by (auto simp: preempt_def split: list.splits)

lemma write_wake_signal:
  "Io_fail \<notin> set ws \<Longrightarrow> m_wake_pending s \<Longrightarrow> signal (write_wake ws s) \<and> m_wake_pending (write_wake ws s)"
  by (induction ws s rule: write_wake.induct) (auto simp: signal_def pipe_capacity_def)

lemma wake_exchange_signal:
  assumes "signal s"
  shows "signal (wake_exchange s) \<and> m_wake_pending (wake_exchange s)"
proof (cases "m_wake_pending s")
  case False
  obtain b ts where p: "preempt (os_threads s) = (b, ts)" by fastforce
  have "Io_fail \<notin> set (os_write s)" using assms by (simp add: signal_def)
  then show ?thesis using False write_wake_signal [of "os_write s" "s\<lparr>m_wake_pending := True, os_threads := ts\<rparr>"]
    by (simp add: wake_exchange_def p Let_def) (simp add: signal_def)
qed (use assms in \<open>simp add: wake_exchange_def\<close>)

lemma signal_threads:
  "signal s \<Longrightarrow> wt_writing ts = wt_writing (os_threads s) \<Longrightarrow> signal (s\<lparr>os_threads := ts\<rparr>)"
  by (simp add: signal_def)

lemma wake_up_signal:
  assumes "signal s"
  shows "signal (wake_up cb s) \<and> announced (wake_up cb s)"
proof -
  let ?p = "posted cb s"
  obtain b ts where p: "preempt (os_threads ?p) = (b, ts)" by fastforce
  have "signal ?p" using assms by (simp add: signal_def posted_def log_def split: option.splits)
  then have "signal (?p\<lparr>os_threads := ts\<rparr>)" "signal (?p\<lparr>os_threads := ts\<lparr>wt_signalling := wt_signalling ts + 1\<rparr>\<rparr>)"
    using preempt_fields [OF p] by (simp_all add: signal_threads)
  moreover have "wake_up cb s = (if b then ?p\<lparr>os_threads := ts\<lparr>wt_signalling := wt_signalling ts + 1\<rparr>\<rparr>
      else wake_exchange (?p\<lparr>os_threads := ts\<rparr>))"
    using p by (simp add: wake_up_def Let_def)
  ultimately show ?thesis using wake_exchange_signal by (simp add: announced_def)
qed

lemma wake_up_alert: "signal s \<Longrightarrow> alert (wake_up cb s)"
  using wake_up_signal by (simp add: alert_def)

lemma resume_signal:
  assumes "signal s"
  shows "signal (resume_wake_up s) \<and> (announced s \<longrightarrow> announced (resume_wake_up s))"
    "signal (resume_write s) \<and> (announced s \<longrightarrow> announced (resume_write s))"
    "signal (resume_push q s) \<and> (announced s \<longrightarrow> announced (resume_push q s))"
proof -
  show "signal (resume_wake_up s) \<and> (announced s \<longrightarrow> announced (resume_wake_up s))"
    using assms wake_exchange_signal [OF signal_threads [OF assms]] by (auto simp: resume_wake_up_def announced_def Let_def)
  show "signal (resume_push q s) \<and> (announced s \<longrightarrow> announced (resume_push q s))"
    using assms wake_up_signal [OF signal_threads [OF assms]]
    by (auto simp: resume_push_def Let_def announced_def signal_threads)
  have w: "wt_signalling (os_threads (write_wake ws t)) = wt_signalling (os_threads t)" for ws t
    by (induction ws t rule: write_wake.induct) auto
  have f: "Io_fail \<notin> set ws \<Longrightarrow> \<not> m_wake_pending t \<Longrightarrow> signal (write_wake ws t)" for ws t
    by (induction ws t rule: write_wake.induct) (auto simp: signal_def)
  show "signal (resume_write s) \<and> (announced s \<longrightarrow> announced (resume_write s))"
    using assms write_wake_signal [of "os_write s" "s\<lparr>os_threads := (os_threads s)\<lparr>wt_writing := wt_writing (os_threads s) - 1\<rparr>\<rparr>"] f w
    by (cases "m_wake_pending s") (auto simp: resume_write_def announced_def Let_def, auto simp: signal_def)
qed

lemma alert_same:
  assumes "m_wake_up_cb t = m_wake_up_cb s" "m_wake_pending t = m_wake_pending s" "os_pipe t = os_pipe s"
    "os_write t = os_write s" "os_threads t = os_threads s"
  shows "alert t = alert s" "signal t = signal s" "announced t = announced s"
  using assms by (simp_all add: announce_defs)

lemma alert_upd [simp]:
  "alert (s\<lparr>queues := qs\<rparr>) = alert s" "alert (s\<lparr>m_timer := tm\<rparr>) = alert s" "alert (s\<lparr>m_queues := rq\<rparr>) = alert s"
  "alert (s\<lparr>m_queue_backlog := b\<rparr>) = alert s" "alert (s\<lparr>m_removals := rs\<rparr>) = alert s"
  "alert (s\<lparr>m_running := b\<rparr>) = alert s" "alert (log ev s) = alert s" "alert (run_cleanup s) = alert s"
  "signal (s\<lparr>queues := qs\<rparr>) = signal s" "signal (s\<lparr>m_timer := tm\<rparr>) = signal s" "signal (s\<lparr>m_queues := rq\<rparr>) = signal s"
  "signal (s\<lparr>m_queue_backlog := b\<rparr>) = signal s" "signal (s\<lparr>m_removals := rs\<rparr>) = signal s"
  "signal (s\<lparr>m_running := b\<rparr>) = signal s" "signal (log ev s) = signal s" "signal (run_cleanup s) = signal s"
  by (simp_all add: announce_defs log_def ops_more)

lemma alert_ops [simp]:
  "alert (snd (add_read fd events cb s)) = alert s" "alert (snd (rem_read fd s)) = alert s"
  "alert (snd (add_write fd cb s)) = alert s" "alert (snd (rem_write fd s)) = alert s"
  "alert (snd (req_write fd events s)) = alert s"
  "signal (snd (add_read fd events cb s)) = signal s" "signal (snd (rem_read fd s)) = signal s"
  "signal (snd (add_write fd cb s)) = signal s" "signal (snd (rem_write fd s)) = signal s"
  "signal (snd (req_write fd events s)) = signal s" "signal (set_poll_events i sh s) = signal s"
  by (simp_all add: announce_defs ops_more)

lemma alert_signal: "alert s \<Longrightarrow> signal s"
  by (simp add: alert_def)

lemma alert_threads:
  "alert s \<Longrightarrow> wt_writing ts = wt_writing (os_threads s) \<Longrightarrow> wt_signalling ts = wt_signalling (os_threads s) \<Longrightarrow>
    alert (s\<lparr>os_threads := ts\<rparr>)"
  by (simp add: announce_defs)

lemma queue_push_alert:
  "alert s \<Longrightarrow> alert (the_state (queue_push q v s))" "signal s \<Longrightarrow> signal (the_state (queue_push q v s))"
  by (auto simp: queue_push_def Let_def preempt_fields wake_up_alert wake_up_signal alert_signal alert_threads signal_threads
      split: result.split prod.split)

lemma bind_queue_alert: "alert s \<Longrightarrow> alert (bind_queue q r s)" "signal s \<Longrightarrow> signal (bind_queue q r s)"
  by (simp_all add: bind_queue_def announce_defs Let_def)

lemma resume_alert:
  "alert s \<Longrightarrow> alert (resume_wake_up s)" "signal s \<Longrightarrow> signal (resume_wake_up s)"
  "alert s \<Longrightarrow> alert (resume_write s)" "signal s \<Longrightarrow> signal (resume_write s)"
  "alert s \<Longrightarrow> alert (resume_push q s)" "signal s \<Longrightarrow> signal (resume_push q s)"
proof -
  have "m_wake_up_cb (resume_wake_up s) = m_wake_up_cb s" "m_wake_up_cb (resume_write s) = m_wake_up_cb s"
    "m_wake_up_cb (resume_push q s) = m_wake_up_cb s"
    using wakes_only_resume(1,2) [of s] wakes_only_resume(3) [of s q] by (auto simp: wakes_only_def)
  then show "alert s \<Longrightarrow> alert (resume_wake_up s)" "alert s \<Longrightarrow> alert (resume_write s)" "alert s \<Longrightarrow> alert (resume_push q s)"
    using resume_signal [of s] by (simp_all add: alert_def)
qed (use resume_signal in blast)+

lemma exec_action_alert:
  shows "alert s \<Longrightarrow> alert (the_state (exec_action th a s))"
    and "signal s \<Longrightarrow> signal (the_state (exec_action th a s))"
  by (cases a; auto simp: add_read_rdy_def add_write_rdy_def req_write_rdy_def rem_read_rdy_def rem_write_rdy_def
      defer_removal_def pr_stop_def add_queue_def rem_queue_def Let_def wake_up_alert wake_up_signal alert_signal
      queue_push_alert bind_queue_alert resume_alert split: option.splits result.splits)+

interpretation al: reactor_relation "\<lambda>s t. alert s \<longrightarrow> alert t"
  by unfold_locales (auto simp: exec_action_alert)

interpretation sg: reactor_relation "\<lambda>s t. signal s \<longrightarrow> signal t"
  by unfold_locales (auto simp: exec_action_alert)

lemma dispatch_item_signal:
  assumes "signal s"
  shows "signal (the_state (dispatch_item prog th x s))"
proof -
  obtain item r where x: "x = (item, r)" by fastforce
  have call: "signal t \<Longrightarrow> signal (the_state (call_user prog th c t))" for c t
    using sg.R_call_user by blast
  have "signal (wake_cb s)" using assms by (simp add: signal_def wake_cb_def case_prod_beta Let_def)
  then show ?thesis using assms
    by (auto simp: x dispatch_item_def intro!: call split: option.splits)
qed

lemma wake_phase_alert:
  assumes "signal s"
  shows "alert (the_state (wake_phase prog th s))"
proof -
  have call: "alert t \<Longrightarrow> alert (the_state (call_user prog th c t))" for c t
    using al.R_call_user by blast
  have rem: "alert t \<Longrightarrow> alert (the_state (run_removal prog th r t))" for r t
    by (auto simp: run_removal_def Let_def intro!: call split: option.splits)
  have "alert t \<Longrightarrow> alert (the_state (call_wake prog th c t))" for c t
    using rfold_inv [of alert "run_removal prog th", OF rem]
    by (cases c) (auto simp: call_wake_def run_removals_def Let_def intro!: call)
  note rfold_inv [of alert "call_wake prog th", OF this]
  moreover have "alert (s\<lparr>m_wake_up_cb := []\<rparr>)" using assms by (simp add: announce_defs)
  ultimately show ?thesis by (simp add: wake_phase_def Let_def)
qed

lemma iteration_alert:
  assumes "alert s" "iteration prog th env s = Ok () t"
  shows "alert t"
proof -
  obtain tmo s0 where p: "poll_timeout (now_before env) s = Ok tmo s0"
    using assms(2) by (cases "poll_timeout (now_before env) s") (auto simp: iteration_def)
  then have "s0 = s" using poll_timeout_state [of "now_before env" s] by simp
  let ?s = "foreign (during_poll env) (prepare_poll tmo s)"
  have "alert (prepare_poll tmo s)"
    using assms(1) by (simp add: announce_defs prepare_poll_def log_def)
  then have a: "alert ?s" using al.R_foreign by blast
  show ?thesis
  proof (cases "polled env")
    case (Poll_error e)
    then show ?thesis using assms(2) p a \<open>s0 = s\<close> by (auto simp: iteration_def Let_def split: if_splits)
  next
    case (Ready revents)
    then have "serve prog th env revents ?s = Ok () t" using assms(2) p \<open>s0 = s\<close> by (simp add: iteration_def Let_def)
    then show ?thesis
    proof (rule serve_Ok)
      fix s1 s2
      assume s1: "(if length (filter (\<lambda>r. r \<noteq> 0) (take (length (m_dispatch ?s)) revents)) > 0
          then rfold (dispatch_item prog th) (zip (m_dispatch ?s) revents) ?s else Ok () ?s) = Ok () s1"
        and s2: "wake_phase prog th (foreign (before_wake env) s1) = Ok () s2"
        and r2: "rbind (queue_phase prog th (foreign (before_queues env) s2)) (\<lambda>_ s.
          timer_phase prog th (now_after env) (foreign (before_timers env) (run_cleanup s))) = Ok () t"
      have "signal s1"
        using rfold_inv [of signal "dispatch_item prog th", OF dispatch_item_signal] s1 alert_signal [OF a]
        by (metis result.inject(1) result.sel(2))
      then have "signal (foreign (before_wake env) s1)" using sg.R_foreign by blast
      then have "alert s2" using wake_phase_alert s2 by (metis result.sel(2))
      then show ?thesis
        using al.R_tail [of s2 prog th "before_queues env" "now_after env" "before_timers env"] r2 by simp
    qed
  qed
qed

lemma run_loop_alert:
  "alert s \<Longrightarrow> run_loop prog th envs s = Ok b t \<Longrightarrow> alert t"
proof (induction envs arbitrary: s)
  case Nil
  then show ?case by (auto simp: announce_defs split: if_splits)
next
  case (Cons env envs)
  show ?case
  proof (cases "m_running s")
    case True
    then obtain s1 where "iteration prog th env s = Ok () s1" "run_loop prog th envs s1 = Ok b t"
      using Cons.prems(2) by (auto simp: rbind_eq_Ok)
    then show ?thesis using Cons iteration_alert by blast
  next
    case False
    then show ?thesis using Cons.prems by (auto simp: announce_defs)
  qed
qed


section \<open>Relations kept by the whole loop\<close>

text \<open>A relation that also the loop's own steps establish holds across \<open>run\<close>, however it ends.\<close>

locale loop_relation = reactor_relation +
  assumes R_wake_cb: "R s (wake_cb s)"
    and R_log: "R s (log ev s)"
    and R_rem: "R s (snd (rem_read fd s))" "R s (snd (rem_write fd s))"
    and R_events: "R s (set_poll_events i sh s)"
    and R_lists: "R s (s\<lparr>m_removals := rms\<rparr>)" "R s (s\<lparr>m_wake_up_cb := cbs\<rparr>)"
    and R_snapshot: "R s (s\<lparr>m_dispatch := d, m_poll_entries := es\<rparr>)"
    and R_control: "R s (s\<lparr>m_reactor_thread_id := i'\<rparr>)" "R s (s\<lparr>m_running := b'\<rparr>)"
begin

lemma R_dispatch_item: "R s (the_state (dispatch_item prog th x s))"
proof -
  obtain item r where x: "x = (item, r)" by fastforce
  have "R s (the_state (call_user prog th c (log ev s)))"
    "R s (the_state (call_user prog th c (log ev (set_poll_events i sh s))))" for c ev i sh
    by (auto intro: R_trans [OF R_log R_call_user] R_trans [OF R_events])
  then show ?thesis by (auto simp: x dispatch_item_def R_refl R_wake_cb split: option.splits)
qed

lemma R_run_removal: "R s (the_state (run_removal prog th r s))"
proof -
  let ?s1 = "if rm_write r then snd (rem_write (rm_fd r) s) else snd (rem_read (rm_fd r) s)"
  have 1: "R s (log ev ?s1)" for ev by (auto intro: R_trans [OF R_rem(1) R_log] R_trans [OF R_rem(2) R_log])
  then have 2: "R s (the_state (call_user prog th c (log ev ?s1)))" for c ev using R_call_user R_trans by blast
  show ?thesis unfolding run_removal_def Let_def
    by (cases "rm_done_cb r") (simp_all only: option.case result.sel 1 2)
qed

lemma R_call_wake: "R s (the_state (call_wake prog th c s))"
proof (cases c)
  case (User n)
  then show ?thesis using R_trans [OF R_log R_call_user] by (simp add: call_wake_def Let_def)
next
  case Run_removals
  have "R t (the_state (run_removals prog th t))" for t
    unfolding run_removals_def Let_def by (rule R_trans [OF R_lists(1) R_rfold]) (rule R_run_removal)
  from R_trans [OF R_log this] show ?thesis using Run_removals by (simp add: call_wake_def Let_def)
qed

lemma R_wake_phase: "R s (the_state (wake_phase prog th s))"
  unfolding wake_phase_def Let_def by (rule R_trans [OF R_lists(2) R_rfold]) (rule R_call_wake)

lemma R_serve: "R s (the_state (serve prog th env revents s))"
  unfolding serve_def Let_def
proof (rule R_bind)
  show "R s (the_state (if 0 < length (filter (\<lambda>r. r \<noteq> 0) (take (length (m_dispatch s)) revents))
      then rfold (dispatch_item prog th) (zip (m_dispatch s) revents) s else Ok () s))"
    by (simp add: R_refl R_rfold [OF R_dispatch_item])
  show "R t (the_state (rbind (wake_phase prog th (foreign (before_wake env) t)) (\<lambda>_ s.
      rbind (queue_phase prog th (foreign (before_queues env) s)) (\<lambda>_ s.
        timer_phase prog th (now_after env) (foreign (before_timers env) (run_cleanup s))))))" for t
    by (rule R_bind) (use R_trans [OF R_foreign R_wake_phase] R_tail in blast)+
qed

lemma R_iteration: "R s (the_state (iteration prog th env s))"
  unfolding iteration_def
proof (rule R_bind)
  show "R s (the_state (poll_timeout (now_before env) s))" by (simp add: poll_timeout_state R_refl)
  show "R t (the_state (let s = foreign (during_poll env) (prepare_poll tmo t) in
      case polled env of Ready revents \<Rightarrow> serve prog th env revents s
      | Poll_error e \<Rightarrow> if EINTR \<noteq> e then Throw (Runtime_error e) s else Ok () s))" for tmo t
  proof -
    have "R t (foreign (during_poll env) (prepare_poll tmo t))"
      unfolding prepare_poll_def by (rule R_trans [OF R_trans [OF R_snapshot R_log] R_foreign])
    then show ?thesis using R_trans [OF _ R_serve] by (simp add: Let_def split: poll_result.splits)
  qed
qed

lemma R_run_loop: "R s (the_state (run_loop prog th envs s))"
proof (induction envs arbitrary: s)
  case (Cons env envs)
  have "R s (the_state (rbind (iteration prog th env s) (\<lambda>_. run_loop prog th envs)))"
    by (rule R_bind) (rule R_iteration, rule Cons.IH)
  then show ?case by (simp add: R_control)
qed (simp add: R_control R_refl)

lemma R_pr_run: "R s (the_state (pr_run prog th envs s))"
proof -
  have "R s (s\<lparr>m_reactor_thread_id := Some th, m_running := True\<rparr>)"
    by (rule R_trans [OF R_control(1) R_control(2)])
  then show ?thesis unfolding pr_run_def by (rule R_trans [OF _ R_run_loop])
qed

end

definition same_pipe :: "poll_reactor \<Rightarrow> poll_reactor \<Rightarrow> bool" where
  "same_pipe s t \<longleftrightarrow> m_wake_pipe t = m_wake_pipe s"

declare run_loop.simps [simp del]

interpretation sp: loop_relation same_pipe
  using fr.R_exec by unfold_locales (auto simp: same_pipe_def frame_def ops_more log_def wake_cb_def case_prod_beta Let_def)

interpretation sl: loop_relation "\<lambda>s t. signal s \<longrightarrow> signal t"
  by unfold_locales (auto simp: signal_def wake_cb_def case_prod_beta Let_def log_def ops_more)

section \<open>Properties\<close>

text \<open>
  A reactor that was constructed, then used by any \<open>calls\<close>, then run by thread \<open>th\<close> through any
  environments with any callbacks.
\<close>

definition poll_session ::
    "fd_t \<times> fd_t \<Rightarrow> fd_t list \<Rightarrow> (nat \<Rightarrow> nat circular_queue) \<Rightarrow> io_result list \<Rightarrow> io_result list \<Rightarrow>
      bool list \<Rightarrow> (nat \<times> action) list \<Rightarrow> program \<Rightarrow> nat \<Rightarrow> environment list \<Rightarrow> (poll_reactor, bool) result" where
  "poll_session p dups qs rs ws ps calls prog th envs =
     rbind (poll_reactor_new (Inr p) (None, None) (None, None) (poll_reactor_init dups qs rs ws ps))
       (\<lambda>_ s. pr_run prog th envs (foreign calls s))"

lemma poll_session_start:
  obtains s0 where "poll_session p dups qs rs ws ps calls prog th envs = pr_run prog th envs (foreign calls s0)"
    "poll_reactor_new (Inr p) (None, None) (None, None) (poll_reactor_init dups qs rs ws ps) = Ok () s0"
  by (auto simp: poll_session_def poll_reactor_new_def set_non_blocking_def Let_def)

lemma poll_session_reg:
  "reg_inv (\<lambda>_. True) {#fst p, snd p#} (the_state (poll_session p dups qs rs ws ps calls prog th envs)) \<and>
    m_wake_pipe (the_state (poll_session p dups qs rs ws ps calls prog th envs)) = p"
proof (rule poll_session_start)
  fix s0
  assume s: "poll_session p dups qs rs ws ps calls prog th envs = pr_run prog th envs (foreign calls s0)"
    and n: "poll_reactor_new (Inr p) (None, None) (None, None) (poll_reactor_init dups qs rs ws ps) = Ok () s0"
  have "reg_inv (\<lambda>_. True) {#fst p, snd p#} (foreign calls s0)"
    using poll_reactor_new_reg(1) [OF n] reg.R_foreign by blast
  moreover have "same_pipe s0 (the_state (pr_run prog th envs (foreign calls s0)))"
    by (rule sp.R_trans [OF sp.R_foreign sp.R_pr_run])
  ultimately show ?thesis using run_loop_reg s poll_reactor_new_reg(2) [OF n]
    by (simp add: pr_run_def reg_inv_upd same_pipe_def)
qed

text \<open>C1. Events reach only the registration they were polled for. Replaying the history of any run: a
  callback is called for a descriptor only while the registration that the last poll saw is still live
  with that callback; after a removal, even when the descriptor number was registered again in the same
  batch of events, the old event is dropped. The live registrations of the history are those of the
  tables. (The bound is the 64-bit generation counter not wrapping.)\<close>

theorem poll_events_reach_live_registration:
  assumes "adds (trace (the_state (poll_session p dups qs rs ws ps calls prog th envs))) < 2 ^ 64"
  shows "\<exists>sp. registry_run (trace (the_state (poll_session p dups qs rs ws ps calls prog th envs))) registry_empty = Some sp \<and>
    sp_reg sp = reg_of (m_fd_entries (the_state (poll_session p dups qs rs ws ps calls prog th envs)))"
  using poll_session_reg [of p dups qs rs ws ps calls prog th envs] assms
  by (auto simp: reg_inv_def refines_def)

lemmas poll_eval =
  poll_session_def poll_reactor_new_def poll_reactor_init_def set_non_blocking_def pr_run_def foreign_def
  run_loop.simps iteration_def poll_timeout_def get_next_deadline_us_def timer_new_def prepare_poll_def clear_revents_def
  serve_def dispatch_item_def call_user_def wake_phase_def queue_phase_def timer_phase_def schedule_def timer_extract_def
  rq_notify_def call_wake_def run_removals_def run_removal_def wake_cb_def wake_up_def posted_def wake_exchange_def preempt_def
  wake_threads_start_def queue_push_def resume_push_def resume_wake_up_def resume_write_def bind_queue_def late_after_def
  pr_stop_def is_reactor_thread_def
  add_read_rdy_def rem_read_rdy_def add_write_rdy_def rem_write_rdy_def req_write_rdy_def defer_removal_def
  add_read_def rem_read_def add_write_def rem_write_def req_write_def entry_ref_def mod_entry_def retire_cb_def
  add_poll_entry_def set_poll_entry_def set_poll_events_def remove_poll_entry_by_index_def update_poll_index_def
  sys_dup_def sys_close_def log_def run_cleanup_def cleanup_fd_def fd_entry_default_def fd_ctx_default_def
  invalid_index_def size_max_def pipe_capacity_def EINTR_def POLLIN_def POLLOUT_def POLLRDHUP_def Let_def

definition demo_env :: "short list \<Rightarrow> environment" where
  "demo_env revents = \<lparr>now_before = 0, during_poll = [], polled = Ready revents, before_wake = [],
     before_queues = [], before_timers = [], now_after = 0\<rparr>"

definition demo_prog :: program where
  "demo_prog c s = (if c = 7 then [Rem_read_rdy 5 None, Rem_read_rdy 6 None, Add_read_rdy 6 (Some 9)]
     else if c = 9 then [Stop] else [])"

text \<open>
  Descriptors 5 and 6 are both ready; the callback of 5 removes both and registers 6 again with callback
  9. The stale event of 6 is dropped; the next poll dispatches the new registration.
\<close>

definition demo_session :: "environment list \<Rightarrow> (poll_reactor, bool) result" where
  "demo_session envs = poll_session (3, 4) [] (\<lambda>_. circular_queue_new) [] [] []
     [(1, Add_read_rdy 5 (Some 7)), (1, Add_read_rdy 6 (Some 8))] demo_prog 2 envs"

theorem poll_events_reach_live_registration_witness:
  "trace (the_state (demo_session [demo_env [0, 1, 1], demo_env [0, 1]])) =
     [Ev_add Read 5 1 (Some 7), Ev_add Read 6 2 (Some 8), Ev_poll (-1), Ev_dispatch Read 5 1 7,
      Ev_rem Read 5, Ev_rem Read 6, Ev_add Read 6 3 (Some 9), Ev_poll (-1), Ev_dispatch Read 6 3 9] \<and>
   (\<exists>sp. registry_run (trace (the_state (demo_session [demo_env [0, 1, 1], demo_env [0, 1]]))) registry_empty = Some sp)"
proof (intro conjI)
  show t: "trace (the_state (demo_session [demo_env [0, 1, 1], demo_env [0, 1]])) =
     [Ev_add Read 5 1 (Some 7), Ev_add Read 6 2 (Some 8), Ev_poll (-1), Ev_dispatch Read 5 1 7,
      Ev_rem Read 5, Ev_rem Read 6, Ev_add Read 6 3 (Some 9), Ev_poll (-1), Ev_dispatch Read 6 3 9]"
    by (simp add: demo_session_def demo_env_def demo_prog_def poll_eval)
  show "\<exists>sp. registry_run (trace (the_state (demo_session [demo_env [0, 1, 1], demo_env [0, 1]]))) registry_empty = Some sp"
    using poll_events_reach_live_registration [of "(3, 4)" "[]" "\<lambda>_. circular_queue_new" "[]" "[]" "[]"
        "[(1, Add_read_rdy 5 (Some 7)), (1, Add_read_rdy 6 (Some 8))]" demo_prog 2 "[demo_env [0, 1, 1], demo_env [0, 1]]"]
    unfolding demo_session_def [symmetric] t by (auto simp: adds_def simp del: registry_run.simps)
qed

text \<open>C16. The two tables always agree: after any calls and any run, also one that ended in an exception,
  each live registration has exactly one poll entry at the index it records, with its generation and
  watched descriptor, and there is no other entry but the wake pipe's.\<close>

theorem poll_tables_consistent:
  "tables_wf (the_state (poll_session p dups qs rs ws ps calls prog th envs))"
  using poll_session_reg by (simp add: reg_inv_def)

text \<open>C23. Descriptors: after any run and the destructor, what the reactor opened (the wake pipe and the
  duplicates of write registrations) is what it closed plus one duplicate for every write registration
  that was never removed; the destructor does not close those.\<close>

theorem poll_reactor_descriptors:
  "mset (os_opened (poll_reactor_dtor (the_state (poll_session p dups qs rs ws ps calls prog th envs)))) =
     mset (os_closed (poll_reactor_dtor (the_state (poll_session p dups qs rs ws ps calls prog th envs)))) +
     mset (write_dups (m_poll_entries (the_state (poll_session p dups qs rs ws ps calls prog th envs))))"
proof -
  let ?t = "the_state (poll_session p dups qs rs ws ps calls prog th envs)"
  have p: "m_wake_pipe ?t = p" and d: "dups_ok {#fst p, snd p#} ?t"
    using poll_session_reg [of p dups qs rs ws ps calls prog th envs] by (auto simp: reg_inv_def)
  obtain ws' n b ts where w: "wake_up None (?t\<lparr>m_running := False\<rparr>) =
      (posted None (?t\<lparr>m_running := False\<rparr>))\<lparr>os_write := ws', os_pipe := n, m_wake_pending := b, os_threads := ts\<rparr>"
    by (rule wake_up_eq)
  show ?thesis using p d by (simp add: poll_reactor_dtor_def pr_stop_def w posted_def sys_close_def dups_ok_def)
qed

text \<open>C17. Posted callbacks: over any run that did not throw, the callbacks called by the wake phase
  followed by those still queued are exactly the posted ones in posting order, so none is lost, repeated
  or reordered; the same holds for the removals asked for from other threads, and a removal that still
  waits has its callback queued.\<close>

theorem posted_callbacks_run_once_in_order:
  assumes "poll_session p dups qs rs ws ps calls prog th envs = Ok b s"
  shows "posts (trace s) = wakes (trace s) @ m_wake_up_cb s \<and> asks (trace s) = dones (trace s) @ m_removals s \<and>
    (m_removals s \<noteq> [] \<longrightarrow> Run_removals \<in> set (m_wake_up_cb s))"
proof (rule poll_session_start)
  fix s0
  assume s: "poll_session p dups qs rs ws ps calls prog th envs = pr_run prog th envs (foreign calls s0)"
    and n: "poll_reactor_new (Inr p) (None, None) (None, None) (poll_reactor_init dups qs rs ws ps) = Ok () s0"
  have "balance [] [] s0"
    using n by (auto simp: poll_reactor_new_def set_non_blocking_def poll_reactor_init_def Let_def balance_def hist_defs)
  then have "balance [] [] (foreign calls s0)" using appends_balance ap.R_foreign by blast
  then have "balance [] [] ((foreign calls s0)\<lparr>m_reactor_thread_id := Some th, m_running := True\<rparr>)"
    by (simp add: balance_def)
  from run_loop_balance [OF this] assms s show ?thesis by (auto simp: pr_run_def balance_def)
qed

text \<open>No lost wake-up between iterations: when writes to the wake pipe do not fail for good, at every
  point where the loop is about to wait with a callback queued there is a byte in the wake pipe, so the wait
  returns, or a thread is inside \<open>wake_up\<close> on its way to write one.\<close>

theorem queued_callback_wakes_poll:
  assumes "poll_session p dups qs rs ws ps calls prog th envs = Ok b s" "Io_fail \<notin> set ws" "m_wake_up_cb s \<noteq> []"
  shows "0 < os_pipe s \<or> 0 < wt_signalling (os_threads s) \<or> 0 < wt_writing (os_threads s)"
proof (rule poll_session_start)
  fix s0
  assume s: "poll_session p dups qs rs ws ps calls prog th envs = pr_run prog th envs (foreign calls s0)"
    and n: "poll_reactor_new (Inr p) (None, None) (None, None) (poll_reactor_init dups qs rs ws ps) = Ok () s0"
  have "alert s0" using n assms(2)
    by (auto simp: poll_reactor_new_def set_non_blocking_def poll_reactor_init_def Let_def announce_defs)
  then have "alert (foreign calls s0)" using al.R_foreign by blast
  then have "alert ((foreign calls s0)\<lparr>m_reactor_thread_id := Some th, m_running := True\<rparr>)"
    by (simp add: announce_defs)
  then have "alert s" by (rule run_loop_alert) (use assms(1) s in \<open>simp add: pr_run_def\<close>)
  then show ?thesis using assms(3) by (auto simp: announce_defs)
qed

text \<open>
  A session in which another thread asks for the removal of descriptor 5 while the reactor polls, and the
  removal's callback posts two more callbacks.
\<close>

definition wake_prog :: program where
  "wake_prog c s = (if c = 1 then [Wake_up (Some 2), Wake_up (Some 3)] else [])"

definition wake_session :: "(poll_reactor, bool) result" where
  "wake_session = poll_session (3, 4) [] (\<lambda>_. circular_queue_new) [] [Io_eintr, Io_ok] []
     [(1, Add_read_rdy 5 (Some 7))] wake_prog 2
     [(demo_env [1])\<lparr>during_poll := [(1, Rem_read_rdy 5 (Some 1))]\<rparr>]"

lemma wake_session_result:
  "\<exists>s. wake_session = Ok False s \<and> m_wake_up_cb s = [User 2, User 3] \<and> os_pipe s = 1 \<and>
    posts (trace s) = [Run_removals, User 2, User 3] \<and> wakes (trace s) = [Run_removals]"
  by (simp add: wake_session_def wake_prog_def demo_env_def poll_eval hist_defs)

theorem posted_callbacks_run_once_in_order_witness:
  "\<exists>s. wake_session = Ok False s \<and> wakes (trace s) = [Run_removals] \<and>
    posts (trace s) = wakes (trace s) @ m_wake_up_cb s"
  using wake_session_result posted_callbacks_run_once_in_order unfolding wake_session_def by blast

text \<open>The same session with the thread preempted inside \<open>wake_up\<close>: its callback is queued and the pipe is empty.\<close>

theorem queued_callback_wakes_poll_witness:
  "\<exists>s. poll_session (3, 4) [] (\<lambda>_. circular_queue_new) [] [] [True] [(1, Wake_up (Some 1))] wake_prog 2 [] = Ok False s \<and>
    m_wake_up_cb s = [User 1] \<and> os_pipe s = 0 \<and> (0 < wt_signalling (os_threads s) \<or> 0 < wt_writing (os_threads s))"
proof -
  have "\<exists>s. poll_session (3, 4) [] (\<lambda>_. circular_queue_new) [] [] [True] [(1, Wake_up (Some 1))] wake_prog 2 [] = Ok False s \<and>
    m_wake_up_cb s = [User 1] \<and> os_pipe s = 0"
    by (simp add: poll_eval)
  then obtain s where s: "poll_session (3, 4) [] (\<lambda>_. circular_queue_new) [] [] [True] [(1, Wake_up (Some 1))] wake_prog 2 [] = Ok False s"
    "m_wake_up_cb s = [User 1]" "os_pipe s = 0" by blast
  then show ?thesis using queued_callback_wakes_poll [OF s(1)] by simp
qed

text \<open>C24. The timeout handed to \<open>poll\<close>: it is between \<open>-1\<close> and \<open>INT_MAX\<close>; it waits for ever only without
  a timer and without a backlog; it is zero when a queue kept data or a timer is due; and a wait of that
  many milliseconds never passes the deadline of any pending timer.\<close>

theorem poll_timeout_bounds:
  assumes "timer_wf (m_timer s)" "poll_timeout now_us s = Ok timeout_ms s'"
  shows "s' = s \<and> -1 \<le> timeout_ms \<and> timeout_ms \<le> INT_MAX \<and>
    (timeout_ms = -1 \<longleftrightarrow> m_cb_map (m_timer s) = [] \<and> \<not> m_queue_backlog s) \<and>
    (m_queue_backlog s \<longrightarrow> timeout_ms = 0) \<and>
    (\<forall>((deadline, ctr), cb) \<in> set (m_cb_map (m_timer s)).
       timeout_ms = 0 \<or> now_us + timeout_ms * 1000 \<le> deadline)"
proof (cases "m_cb_map (m_timer s)")
  case Nil
  then show ?thesis using assms(2) by (auto simp: poll_timeout_def get_next_deadline_us_def INT_MAX_def)
next
  case (Cons e m)
  obtain d c cb where e: "e = ((d, c), cb)" by (metis prod.exhaust)
  have least: "d \<le> d'" if "((d', c'), cb') \<in> set (m_cb_map (m_timer s))" for d' c' cb'
    using assms(1) that Cons e by (force simp: timer_wf_def om_wf_def less_prod_def)
  have "s' = s" "-1 < timeout_ms" "timeout_ms \<le> INT_MAX" "m_queue_backlog s \<longrightarrow> timeout_ms = 0"
    "timeout_ms = 0 \<or> now_us + timeout_ms * 1000 \<le> d"
    using assms(2) Cons e
    by (auto simp: poll_timeout_def get_next_deadline_us_def INT_MAX_def Let_def split: if_splits)
  moreover from this have "timeout_ms = 0 \<or> now_us + timeout_ms * 1000 \<le> d'"
    if "((d', c'), cb') \<in> set (m_cb_map (m_timer s))" for d' c' cb' using least [OF that] by linarith
  ultimately show ?thesis using Cons by auto
qed

theorem poll_timeout_bounds_witness:
  "\<exists>s t. m_cb_map (m_timer s) = [((7500, 0), Some 1)] \<and> poll_timeout 2000 s = Ok t s \<and> t = 5 \<and>
    2000 + t * 1000 \<le> 7500"
proof -
  define s :: poll_reactor where
    "s = (poll_reactor_init [] (\<lambda>_. circular_queue_new) [] [] [])\<lparr>m_timer := \<lparr>m_timer_ctr = 1, m_cb_map = [((7500, 0), Some 1)]\<rparr>\<rparr>"
  have t: "poll_timeout 2000 s = Ok 5 s"
    by (simp add: s_def poll_reactor_init_def poll_timeout_def get_next_deadline_us_def int64_ok_def INT_MAX_def Let_def)
  have wf: "timer_wf (m_timer s)" by (simp add: s_def timer_wf_def om_wf_def)
  have m: "m_cb_map (m_timer s) = [((7500, 0), Some 1)]" by (simp add: s_def)
  have "2000 + 5 * 1000 \<le> (7500 :: int)" using poll_timeout_bounds [OF wf t] m by simp
  with t m show ?thesis by blast
qed

text \<open>On the reactor thread a removal takes effect at once: no poll entry for that descriptor and
  direction is left, every other registration keeps its generation and callback, a removed write
  registration has its duplicate closed. From another thread the tables are untouched and the removal is queued.\<close>

theorem removal_on_reactor_thread_is_immediate:
  assumes "tables_wf s" "m_fd_entries s fd = Some en" "write_active en" "is_reactor_thread th s"
  shows "(\<forall>e \<in> set (m_poll_entries (snd (rem_write_rdy th fd done_cb s))). poll_key e \<noteq> (Write, fd)) \<and>
    reg_of (m_fd_entries (snd (rem_write_rdy th fd done_cb s))) = (reg_of (m_fd_entries s))((Write, fd) := None) \<and>
    os_closed (snd (rem_write_rdy th fd done_cb s)) = os_closed s @ [ctx_fd (write_ctx en)] \<and>
    (is_reactor_thread th' s \<or>
      m_poll_entries (snd (rem_write_rdy th' fd done_cb s)) = m_poll_entries s \<and>
      m_removals (snd (rem_write_rdy th' fd done_cb s)) =
        m_removals s @ [\<lparr>rm_fd = fd, rm_write = True, rm_done_cb = done_cb\<rparr>])"
proof -
  let ?t = "snd (rem_write fd s)"
  have same: "m_poll_entries (wake_up cb t) = m_poll_entries t" "m_fd_entries (wake_up cb t) = m_fd_entries t"
    "os_closed (wake_up cb t) = os_closed t" "m_removals (wake_up cb t) = m_removals t" for cb t
    by (rule wake_up_eq [of cb t]; simp add: posted_def log_def split: option.splits)+
  have t: "m_poll_entries (snd (rem_write_rdy th fd done_cb s)) = m_poll_entries ?t"
    "m_fd_entries (snd (rem_write_rdy th fd done_cb s)) = m_fd_entries ?t"
    "os_closed (snd (rem_write_rdy th fd done_cb s)) = os_closed ?t"
    using assms(4) by (simp_all add: rem_write_rdy_def Let_def same split: option.splits)
  have eq: "reg_of (m_fd_entries ?t) = (reg_of (m_fd_entries s))((Write, fd) := None)"
    "os_closed ?t = os_closed s @ [ctx_fd (write_ctx en)]"
    using rem_write_eq [OF assms(1-3)] reg_of_removed [of Write fd "write_poll_index en" s]
    by (simp_all add: removed_def Let_def)
  have ok: "tables_ok (m_poll_entries ?t) (m_fd_entries ?t)" using rem_write_wf [OF assms(1)] by (simp add: tables_wf_def)
  have "poll_key e \<noteq> (Write, fd)" if e: "e \<in> set (m_poll_entries ?t)" for e
  proof
    assume k: "poll_key e = (Write, fd)"
    obtain i where "i < length (m_poll_entries ?t)" "e = m_poll_entries ?t ! i" using e by (auto simp: in_set_conv_nth)
    then have "slot (m_fd_entries ?t) (Write, fd) = Some i"
      using ok k indexed_nth [of poll_key "m_poll_entries ?t" "slot (m_fd_entries ?t)" i] by (simp add: tables_ok_def)
    then have "reg_of (m_fd_entries ?t) (Write, fd) \<noteq> None"
      by (auto simp: slot_def reg_of_def idx_of_def reg_en_def bind_eq_Some_conv split: if_splits)
    with eq(1) show False by simp
  qed
  then show ?thesis using t eq by (simp add: rem_write_rdy_def defer_removal_def same log_def Let_def)
qed

theorem removal_on_reactor_thread_is_immediate_witness:
  "\<exists>s :: poll_reactor. m_poll_entries s \<noteq> [] \<and> os_closed (snd (rem_write_rdy 2 5 None s)) = [9] \<and>
    reg_of (m_fd_entries (snd (rem_write_rdy 2 5 None s))) (Write, 5) = None"
proof -
  define r where "r = poll_session (3, 4) [9] (\<lambda>_. circular_queue_new) [] [] [] [(1, Add_write_rdy 5 (Some 7))] demo_prog 2 []"
  define s where "s = the_state r"
  have wf: "tables_wf s" using poll_session_reg by (simp add: s_def r_def reg_inv_def)
  have s: "m_fd_entries s 5 \<noteq> None" "write_active (the (m_fd_entries s 5))"
    "ctx_fd (write_ctx (the (m_fd_entries s 5))) = 9" "is_reactor_thread 2 s" "os_closed s = []" "m_poll_entries s \<noteq> []"
    by (simp_all add: s_def r_def poll_eval)
  then obtain en where en: "m_fd_entries s 5 = Some en" by auto
  from removal_on_reactor_thread_is_immediate [OF wf en _ s(4), of None] show ?thesis
    using s en by (intro exI [of _ s]) simp
qed

end
