(* ===== verification/Bfc_Wake_Protocol.thy ===== *)
theory Bfc_Wake_Protocol
  imports Bfc_Poll_Reactor
begin

text \<open>
  The wake-up protocol of \<open>src/src/bfc/poll_reactor.hpp\<close> at the granularity of its shared-memory accesses. In
  \<open>Bfc_Poll_Reactor\<close> the loop drains the pipe and clears the flag in one step; here any number of threads are inside
  \<open>wake_up\<close>, \<open>stop\<close> or a push into a bound queue at the same time, between the update they make, the exchange on
  \<open>m_wake_pending\<close> and the write to the pipe, while the loop is anywhere between its reads of the pipe, its store
  to \<open>m_wake_pending\<close> and the point where it takes the callbacks. Writes to the pipe are taken to succeed; what
  an interrupted or failing write does is part of \<open>write_wake\<close>.
\<close>

section \<open>State\<close>

text \<open>
  The loop is in \<open>poll\<close>; in the read loop of \<open>m_wake_cb\<close>; past it and about to store \<open>false\<close>; about to take the
  callbacks; about to notify the queues; past both, in the timers and back to the test of \<open>m_running\<close>; or has left.
  \<open>w_posting\<close> counts the threads that made their update and have not done the exchange, \<open>w_writing\<close> those that
  won the exchange and have not written their byte. \<open>w_unseen\<close> counts the elements pushed since \<open>notify\<close> last looked at
  the queues (what a pass leaves behind is its backlog, which makes the next wait return at once and is part of
  \<open>Bfc_Queue_Delivery\<close>). \<open>w_posted\<close> and \<open>w_taken\<close> are history.
\<close>

datatype loop_pc = Polling | Draining | Clearing | Taking | Notifying | Finishing | Left

record wake_state =
  w_cbs :: "wake_fn list"
  w_unseen :: nat
  w_running :: bool
  w_pending :: bool
  w_pipe :: nat
  w_loop :: loop_pc
  w_posting :: nat
  w_writing :: nat
  w_posted :: "wake_fn list"
  w_taken :: "wake_fn list"

definition wake_start :: wake_state where
  "wake_start = \<lparr>w_cbs = [], w_unseen = 0, w_running = True, w_pending = False, w_pipe = 0, w_loop = Polling,
     w_posting = 0, w_writing = 0, w_posted = [], w_taken = []\<rparr>"

section \<open>Steps\<close>

text \<open>The first part of \<open>wake_up\<close> with a callback, of a push into a bound queue, of \<open>stop\<close>.\<close>

definition w_post :: "wake_fn \<Rightarrow> wake_state \<Rightarrow> wake_state" where
  "w_post c s = s\<lparr>w_cbs := w_cbs s @ [c], w_posted := w_posted s @ [c], w_posting := w_posting s + 1\<rparr>"

definition w_push :: "wake_state \<Rightarrow> wake_state" where
  "w_push s = s\<lparr>w_unseen := w_unseen s + 1, w_posting := w_posting s + 1\<rparr>"

definition w_stop :: "wake_state \<Rightarrow> wake_state" where
  "w_stop s = s\<lparr>w_running := False, w_posting := w_posting s + 1\<rparr>"

text \<open>\<open>m_wake_pending.compare_exchange_strong(expected, true)\<close> and the write of the byte.\<close>

definition w_exchange :: "wake_state \<Rightarrow> wake_state" where
  "w_exchange s =
     (let s = s\<lparr>w_posting := w_posting s - 1\<rparr>
      in if w_pending s then s else s\<lparr>w_pending := True, w_writing := w_writing s + 1\<rparr>)"

definition w_write :: "wake_state \<Rightarrow> wake_state" where
  "w_write s = s\<lparr>w_writing := w_writing s - 1, w_pipe := min pipe_capacity (w_pipe s + 1)\<rparr>"

text \<open>The loop: one \<open>read\<close> of up to 64 bytes, the store, and the phases after it.\<close>

definition w_read :: "wake_state \<Rightarrow> wake_state" where
  "w_read s = (if w_pipe s > 0 then s\<lparr>w_pipe := w_pipe s - 64\<rparr> else s\<lparr>w_loop := Clearing\<rparr>)"

definition w_store :: "wake_state \<Rightarrow> wake_state" where
  "w_store s = s\<lparr>w_pending := False, w_loop := Taking\<rparr>"

definition w_take :: "wake_state \<Rightarrow> wake_state" where
  "w_take s = s\<lparr>w_taken := w_taken s @ w_cbs s, w_cbs := [], w_loop := Notifying\<rparr>"

definition w_notify :: "wake_state \<Rightarrow> wake_state" where
  "w_notify s = s\<lparr>w_unseen := 0, w_loop := Finishing\<rparr>"

definition w_next :: "wake_state \<Rightarrow> wake_state" where
  "w_next s = s\<lparr>w_loop := (if w_running s then Polling else Left)\<rparr>"

text \<open>
  \<open>poll\<close> returns for the wake pipe when it is readable, and at any time for another descriptor or a timeout; when a
  signal interrupts it the loop goes back to its test.
\<close>

datatype wake_action =
    Post wake_fn | Post_nothing | Push_data | Stop_loop | Exchange | Write_byte
  | Poll_pipe | Poll_other | Poll_interrupted | Read_pipe | Store_false | Take_callbacks | Notify_queues | Next_iteration

fun wake_exec :: "wake_action \<Rightarrow> wake_state \<Rightarrow> wake_state option" where
  "wake_exec (Post c) s = Some (w_post c s)"
| "wake_exec Post_nothing s = Some (s\<lparr>w_posting := w_posting s + 1\<rparr>)"
| "wake_exec Push_data s = Some (w_push s)"
| "wake_exec Stop_loop s = Some (w_stop s)"
| "wake_exec Exchange s = (if 0 < w_posting s then Some (w_exchange s) else None)"
| "wake_exec Write_byte s = (if 0 < w_writing s then Some (w_write s) else None)"
| "wake_exec Poll_pipe s = (if w_loop s = Polling \<and> 0 < w_pipe s then Some (s\<lparr>w_loop := Draining\<rparr>) else None)"
| "wake_exec Poll_other s = (if w_loop s = Polling then Some (s\<lparr>w_loop := Taking\<rparr>) else None)"
| "wake_exec Poll_interrupted s = (if w_loop s = Polling then Some (w_next s) else None)"
| "wake_exec Read_pipe s = (if w_loop s = Draining then Some (w_read s) else None)"
| "wake_exec Store_false s = (if w_loop s = Clearing then Some (w_store s) else None)"
| "wake_exec Take_callbacks s = (if w_loop s = Taking then Some (w_take s) else None)"
| "wake_exec Notify_queues s = (if w_loop s = Notifying then Some (w_notify s) else None)"
| "wake_exec Next_iteration s = (if w_loop s = Finishing then Some (w_next s) else None)"

inductive wake_step :: "wake_state \<Rightarrow> wake_state \<Rightarrow> bool" where
  wake_step: "wake_exec a s = Some t \<Longrightarrow> wake_step s t"

inductive_cases wake_step_cases: "wake_step s t"

definition wake_initial :: "wake_state \<Rightarrow> bool" where
  "wake_initial s \<longleftrightarrow> s = wake_start"

section \<open>Invariant\<close>

text \<open>
  The flag stands for exactly one byte: on its way, in the pipe, or being drained. Work that the loop has not
  seen has the flag set, a thread on its way to set it, or the loop on its way to that work.
\<close>

definition wake_channel_ok :: "wake_state \<Rightarrow> bool" where
  "wake_channel_ok s \<longleftrightarrow>
     (case w_loop s of
        Draining \<Rightarrow> w_pending s \<and> w_writing s = 0 \<and> w_pipe s \<le> 1
      | Clearing \<Rightarrow> w_pending s \<and> w_writing s = 0 \<and> w_pipe s = 0
      | _ \<Rightarrow> w_pipe s + w_writing s = (if w_pending s then 1 else 0))"

definition wake_coming :: "wake_state \<Rightarrow> bool" where
  "wake_coming s \<longleftrightarrow> w_pending s \<or> 0 < w_posting s"

definition wake_work_ok :: "wake_state \<Rightarrow> bool" where
  "wake_work_ok s \<longleftrightarrow>
     (w_cbs s \<noteq> [] \<longrightarrow> wake_coming s \<or> w_loop s = Taking) \<and>
     (0 < w_unseen s \<longrightarrow> wake_coming s \<or> w_loop s \<in> {Taking, Notifying}) \<and>
     (\<not> w_running s \<longrightarrow> wake_coming s \<or> w_loop s \<in> {Taking, Notifying, Finishing, Left})"

definition wake_inv :: "wake_state \<Rightarrow> bool" where
  "wake_inv s \<longleftrightarrow> wake_channel_ok s \<and> wake_work_ok s \<and> w_posted s = w_taken s @ w_cbs s"

lemmas wake_step_defs = w_post_def w_push_def w_stop_def w_exchange_def w_write_def w_read_def w_store_def w_take_def
  w_notify_def w_next_def

lemma wake_channel_exec: "wake_channel_ok s \<Longrightarrow> wake_exec a s = Some t \<Longrightarrow> wake_channel_ok t"
  by (cases a; cases "w_loop s")
    (auto simp: wake_channel_ok_def wake_step_defs Let_def pipe_capacity_def split: if_splits)

lemma wake_work_exec: "wake_channel_ok s \<Longrightarrow> wake_work_ok s \<Longrightarrow> wake_exec a s = Some t \<Longrightarrow> wake_work_ok t"
  by (cases a; cases "w_loop s")
    (auto simp: wake_work_ok_def wake_channel_ok_def wake_coming_def wake_step_defs Let_def split: if_splits)

lemma wake_posted_exec: "w_posted s = w_taken s @ w_cbs s \<Longrightarrow> wake_exec a s = Some t \<Longrightarrow> w_posted t = w_taken t @ w_cbs t"
  by (cases a) (auto simp: wake_step_defs Let_def split: if_splits)

interpretation wk: transition_invariant wake_initial wake_step wake_inv
proof
  show "wake_inv s" if "wake_initial s" for s
    using that by (simp add: wake_initial_def wake_start_def wake_inv_def wake_channel_ok_def wake_work_ok_def)
  show "wake_inv t" if "wake_inv s" "wake_step s t" for s t
    using that wake_channel_exec wake_work_exec wake_posted_exec by (auto simp: wake_inv_def elim!: wake_step_cases)
qed

section \<open>An uninterrupted call\<close>

text \<open>
  The steps of one \<open>wake_up\<close> with no other step between them are the function of the coarser model, on the parts
  of the state the two have in common.
\<close>

primrec wake_run :: "wake_action list \<Rightarrow> wake_state \<Rightarrow> wake_state option" where
  "wake_run [] s = Some s"
| "wake_run (a # as) s = Option.bind (wake_exec a s) (wake_run as)"

definition wake_view :: "poll_reactor \<Rightarrow> wake_state \<Rightarrow> bool" where
  "wake_view s w \<longleftrightarrow> w_cbs w = m_wake_up_cb s \<and> w_pending w = m_wake_pending s \<and> w_pipe w = os_pipe s \<and> w_running w = m_running s"

lemma wake_up_uninterrupted:
  assumes "wake_view s w" "os_write s = []" "wt_pause (os_threads s) = []" "w_posting w = 0"
  shows "\<exists>t. wake_run (if m_wake_pending s then [Post c, Exchange] else [Post c, Exchange, Write_byte]) w = Some t \<and>
    wake_view (wake_up (Some c) s) t"
  using assms by (auto simp: wake_view_def wake_up_def posted_def wake_exchange_def preempt_def log_def wake_step_defs Let_def)

lemma wake_cb_uninterrupted:
  assumes "wake_view s w" "os_read s = []" "w_loop w = Draining" "w_pipe w \<le> 64" "0 < w_pipe w"
  shows "\<exists>t. wake_run [Read_pipe, Read_pipe, Store_false] w = Some t \<and> wake_view (wake_cb s) t"
  using assms by (auto simp: wake_view_def wake_cb_def wake_step_defs Let_def)

section \<open>Properties\<close>

lemma wake_progress:
  assumes "wake_inv s" "w_loop s = Polling" "0 < w_pipe s"
  shows "\<exists>t. wake_run [Poll_pipe, Read_pipe, Read_pipe, Store_false, Take_callbacks, Notify_queues, Next_iteration] s = Some t \<and>
    w_taken t = w_posted s \<and> w_cbs t = [] \<and> w_unseen t = 0 \<and> w_loop t = (if w_running s then Polling else Left)"
proof -
  have "w_pipe s = 1" using assms by (auto simp: wake_inv_def wake_channel_ok_def split: if_splits)
  then show ?thesis using assms by (simp add: wake_inv_def wake_step_defs)
qed

text \<open>C3. No wake-up is lost in any interleaving of the threads inside \<open>wake_up\<close>, \<open>stop\<close> and the pushes with the accesses
  of the loop. In every reachable state: the pipe holds at most one byte, so a write to it never meets a full
  pipe; the callbacks taken are the posted ones in order, up to those still queued; when the loop is in \<open>poll\<close>
  with a callback queued, an element pushed that no pass has looked at or a stop requested, a byte is in the pipe
  or some thread is still on its way to write one; and when a byte is in the pipe the loop by its own next steps
  takes every callback posted so far, notifies the queues, and leaves if it was stopped.\<close>

theorem wake_protocol_loses_nothing:
  assumes "reachable wake_initial wake_step s"
  shows "w_pipe s \<le> 1 \<and> w_posted s = w_taken s @ w_cbs s \<and>
    (w_loop s = Polling \<and> (w_cbs s \<noteq> [] \<or> 0 < w_unseen s \<or> \<not> w_running s) \<longrightarrow>
      0 < w_pipe s \<or> 0 < w_writing s \<or> 0 < w_posting s) \<and>
    (w_loop s = Polling \<and> 0 < w_pipe s \<longrightarrow>
      (\<exists>t. wake_run [Poll_pipe, Read_pipe, Read_pipe, Store_false, Take_callbacks, Notify_queues, Next_iteration] s = Some t \<and>
        w_taken t = w_posted s \<and> w_cbs t = [] \<and> w_unseen t = 0 \<and> w_loop t = (if w_running s then Polling else Left)))"
proof -
  have inv: "wake_inv s" using assms by (rule wk.inv_reachable)
  then have c: "wake_channel_ok s" and w: "wake_work_ok s" and p: "w_posted s = w_taken s @ w_cbs s" by (simp_all add: wake_inv_def)
  have "w_pipe s \<le> 1" using c by (auto simp: wake_channel_ok_def split: loop_pc.splits if_splits)
  moreover have "0 < w_pipe s \<or> 0 < w_writing s \<or> 0 < w_posting s"
    if "w_loop s = Polling" "w_cbs s \<noteq> [] \<or> 0 < w_unseen s \<or> \<not> w_running s"
    using that c w by (auto simp: wake_channel_ok_def wake_work_ok_def wake_coming_def split: if_splits)
  ultimately show ?thesis using p wake_progress [OF inv] by (auto simp del: wake_run.simps)
qed

lemma wake_run_reachable:
  "reachable wake_initial wake_step s \<Longrightarrow> wake_run as s = Some t \<Longrightarrow> reachable wake_initial wake_step t"
proof (induction as arbitrary: s)
  case (Cons a as)
  then obtain u where "wake_exec a s = Some u" "wake_run as u = Some t" by (auto simp: bind_eq_Some_conv)
  then show ?case using Cons.IH reachable_step [OF Cons.prems(1) wake_step] by blast
qed simp

text \<open>
  Thread B posts callback 2 when the loop has drained the byte of thread A and not yet cleared the flag; B loses the
  exchange and writes nothing. Then callback 3 is posted after the callbacks were taken.
\<close>

definition wake_race :: "wake_action list" where
  "wake_race = [Post (User 1), Exchange, Write_byte, Poll_pipe, Read_pipe, Read_pipe, Post (User 2), Exchange, Store_false,
     Take_callbacks, Post (User 3), Notify_queues, Next_iteration]"

theorem wake_protocol_loses_nothing_witness:
  "\<exists>s. wake_run wake_race wake_start = Some s \<and> w_taken s = [User 1, User 2] \<and> w_cbs s = [User 3] \<and> w_loop s = Polling \<and>
    (0 < w_pipe s \<or> 0 < w_writing s \<or> 0 < w_posting s)"
proof -
  obtain s where s: "wake_run wake_race wake_start = Some s" "w_taken s = [User 1, User 2]" "w_cbs s = [User 3]" "w_loop s = Polling"
    by (simp add: wake_race_def wake_start_def wake_step_defs pipe_capacity_def)
  have "reachable wake_initial wake_step wake_start" by (rule reachable_init) (simp add: wake_initial_def)
  then have "reachable wake_initial wake_step s" using wake_run_reachable s(1) by blast
  from wake_protocol_loses_nothing [OF this] show ?thesis using s by auto
qed

end
