(* ===== verification/Bfc_Epoll_Reactor.thy ===== *)
theory Bfc_Epoll_Reactor
  imports Bfc_Poll_Reactor
begin

text \<open>
  The epoll reactor of \<open>src/src/bfc/epoll_reactor.hpp\<close>: registration, wake-ups through an eventfd, the run
  loop and the public class with its deferred removals. The interface and what a callback may do (type
  \<open>action\<close>) are those of the poll reactor.

  The kernel is part of the state: the interest list of the epoll instance, the value of the eventfd,
  the outcomes of the coming \<open>epoll_ctl\<close> and \<open>dup\<close> calls. An event carries a pointer to a context inside a
  node of the map of entries; nodes have identities, and dereferencing a pointer into a node that was
  erased is the fault \<open>Dangling_pointer\<close>. A descriptor is removed from the reactor before it is closed, so
  \<open>EPOLL_CTL_DEL\<close> of a registered one succeeds. On the reactor thread a removal calls its \<open>done_cb\<close> at
  once, inside the callback that asked for it; the depth of such nested calls is bounded by an argument
  (the stack), and the theorems hold for every bound.
\<close>

section \<open>State\<close>

record ep_ctx =
  ec_fd :: fd_t
  ec_events :: "32 word"
  ec_cb :: "nat option"

record ep_entry =
  ee_node :: nat
  ee_fd :: fd_t
  ee_read :: ep_ctx
  ee_write :: ep_ctx
  ee_read_active :: bool
  ee_write_active :: bool

text \<open>\<open>event.data.ptr\<close>: the context of the eventfd, or a context of a node.\<close>

datatype ep_ptr = Ptr_event_fd | Ptr_ctx nat poll_kind

text \<open>A removal asked for from another thread, as in the poll reactor.\<close>

type_synonym ep_removal = removal

record epoll_reactor =
  e_cache_size :: size_t
  e_queues :: "nat reactor_queues"
  e_queue_backlog :: bool
  e_wake_up_cb :: "wake_fn list"
  e_epoll_fd :: fd_t
  e_event_fd :: fd_t
  e_running :: bool
  e_thread :: "nat option"
  e_entries :: "fd_t \<rightharpoonup> ep_entry"
  e_pending_cleanup :: "fd_t list"
  e_timer :: "nat timer"
  e_removals :: "ep_removal list"
  e_nodes :: "nat \<rightharpoonup> fd_t"
  e_next_node :: nat
  k_interest :: "fd_t \<rightharpoonup> 32 word \<times> ep_ptr"
  k_eventfd :: nat
  k_ctl :: "bool list"
  k_dup :: "fd_t list"
  k_opened :: "fd_t list"
  k_closed :: "fd_t list"
  k_threads :: wake_threads
  e_user_queues :: "nat \<Rightarrow> nat circular_queue"

definition EPOLLIN :: "32 word" where "EPOLLIN = 0x1"
definition EPOLLOUT :: "32 word" where "EPOLLOUT = 0x4"
definition EPOLLRDHUP :: "32 word" where "EPOLLRDHUP = 0x2000"
definition EPOLLONESHOT :: "32 word" where "EPOLLONESHOT = 0x40000000"

definition ep_init ::
    "size_t \<Rightarrow> bool list \<Rightarrow> fd_t list \<Rightarrow> (nat \<Rightarrow> nat circular_queue) \<Rightarrow> bool list \<Rightarrow> epoll_reactor" where
  "ep_init cache ctls dups qs ps =
     \<lparr>e_cache_size = cache, e_queues = [], e_queue_backlog = False, e_wake_up_cb = [], e_epoll_fd = -1, e_event_fd = -1,
      e_running = False, e_thread = None, e_entries = Map.empty, e_pending_cleanup = [], e_timer = timer_new,
      e_removals = [], e_nodes = Map.empty, e_next_node = 0, k_interest = Map.empty, k_eventfd = 0, k_ctl = ctls,
      k_dup = dups, k_opened = [], k_closed = [], k_threads = wake_threads_start ps, e_user_queues = qs\<rparr>"

section \<open>System calls\<close>

text \<open>
  \<open>epoll_ctl\<close> fails for a bad descriptor, for adding one that is there and for changing one that is not;
  for any other reason when the next outcome in \<open>k_ctl\<close> says so.
\<close>

definition next_ctl :: "epoll_reactor \<Rightarrow> bool \<times> epoll_reactor" where
  "next_ctl s = (case k_ctl s of [] \<Rightarrow> (True, s) | b # bs \<Rightarrow> (b, s\<lparr>k_ctl := bs\<rparr>))"

definition ctl_add :: "fd_t \<Rightarrow> 32 word \<Rightarrow> ep_ptr \<Rightarrow> epoll_reactor \<Rightarrow> bool \<times> epoll_reactor" where
  "ctl_add fd ev ptr s =
     (if fd = -1 \<or> k_interest s fd \<noteq> None then (False, s)
      else
        (let (ok, s) = next_ctl s
         in if ok then (True, s\<lparr>k_interest := (k_interest s)(fd \<mapsto> (ev, ptr))\<rparr>) else (False, s)))"

definition ctl_del :: "fd_t \<Rightarrow> epoll_reactor \<Rightarrow> epoll_reactor" where
  "ctl_del fd s = s\<lparr>k_interest := (k_interest s)(fd := None)\<rparr>"

definition ctl_mod :: "fd_t \<Rightarrow> 32 word \<Rightarrow> ep_ptr \<Rightarrow> epoll_reactor \<Rightarrow> bool \<times> epoll_reactor" where
  "ctl_mod fd ev ptr s =
     (if k_interest s fd = None then (False, s)
      else
        (let (ok, s) = next_ctl s
         in if ok then (True, s\<lparr>k_interest := (k_interest s)(fd \<mapsto> (ev, ptr))\<rparr>) else (False, s)))"

definition ep_dup :: "epoll_reactor \<Rightarrow> fd_t \<times> epoll_reactor" where
  "ep_dup s =
     (case k_dup s of
        [] \<Rightarrow> (-1, s)
      | d # ds \<Rightarrow> (d, s\<lparr>k_dup := ds, k_opened := k_opened s @ (if d = -1 then [] else [d])\<rparr>))"

definition ep_close :: "fd_t \<Rightarrow> epoll_reactor \<Rightarrow> epoll_reactor" where
  "ep_close fd s = s\<lparr>k_closed := k_closed s @ [fd]\<rparr>"

text \<open>
  The constructor, given the results of \<open>epoll_create1\<close>, \<open>eventfd\<close> and the first \<open>epoll_ctl\<close>. When only
  \<open>epoll_create1\<close> fails the eventfd stays open.
\<close>

definition ep_new :: "int + fd_t \<Rightarrow> int + fd_t \<Rightarrow> int option \<Rightarrow> epoll_reactor \<Rightarrow> (epoll_reactor, unit) result" where
  "ep_new create evfd ctl s =
     (let s = (case create of Inl _ \<Rightarrow> s | Inr fd \<Rightarrow> s\<lparr>e_epoll_fd := fd, k_opened := k_opened s @ [fd]\<rparr>)
      in case evfd of
           Inl e \<Rightarrow> Throw (Runtime_error e) (ep_close (e_epoll_fd s) s)
         | Inr fd \<Rightarrow>
             (let s = s\<lparr>e_event_fd := fd, k_opened := k_opened s @ [fd]\<rparr>
              in case create of
                   Inl e \<Rightarrow> Throw (Runtime_error e) s
                 | Inr _ \<Rightarrow>
                     (case ctl of
                        Some e \<Rightarrow> Throw (Runtime_error e) (ep_close (e_epoll_fd s) (ep_close (e_event_fd s) s))
                      | None \<Rightarrow> Ok () (s\<lparr>k_interest := (k_interest s)(e_event_fd s \<mapsto> (EPOLLIN, Ptr_event_fd))\<rparr>))))"

section \<open>Registration\<close>

definition ep_ctx_default :: ep_ctx where
  "ep_ctx_default = \<lparr>ec_fd = -1, ec_events = 0, ec_cb = None\<rparr>"

text \<open>\<open>m_fd_entries[fd]\<close>: a missing entry is a new node.\<close>

definition ep_entry_ref :: "fd_t \<Rightarrow> epoll_reactor \<Rightarrow> epoll_reactor" where
  "ep_entry_ref fd s =
     (case e_entries s fd of
        Some _ \<Rightarrow> s
      | None \<Rightarrow>
          s\<lparr>e_entries := (e_entries s)(fd \<mapsto> \<lparr>ee_node = e_next_node s, ee_fd = -1, ee_read = ep_ctx_default,
              ee_write = ep_ctx_default, ee_read_active = False, ee_write_active = False\<rparr>),
            e_nodes := (e_nodes s)(e_next_node s \<mapsto> fd), e_next_node := Suc (e_next_node s)\<rparr>)"

definition ep_mod :: "fd_t \<Rightarrow> (ep_entry \<Rightarrow> ep_entry) \<Rightarrow> epoll_reactor \<Rightarrow> epoll_reactor" where
  "ep_mod fd f s = s\<lparr>e_entries := (e_entries s)(fd := map_option f (e_entries s fd))\<rparr>"

definition ep_claim :: "fd_t \<Rightarrow> epoll_reactor \<Rightarrow> epoll_reactor" where
  "ep_claim fd s = ep_mod fd (\<lambda>en. en\<lparr>ee_fd := (if ee_fd en = -1 then fd else ee_fd en)\<rparr>) (ep_entry_ref fd s)"

definition ep_add_read :: "fd_t \<Rightarrow> 32 word \<Rightarrow> nat option \<Rightarrow> epoll_reactor \<Rightarrow> bool \<times> epoll_reactor" where
  "ep_add_read fd events cb s =
     (let s = ep_claim fd s;
          node = ee_node (the (e_entries s fd));
          s = ep_mod fd (\<lambda>en. en\<lparr>ee_read := \<lparr>ec_fd = fd, ec_events = events, ec_cb = cb\<rparr>\<rparr>) s;
          (ok, s) = ctl_add fd events (Ptr_ctx node Read) s
      in if \<not> ok then (False, s) else (True, ep_mod fd (\<lambda>en. en\<lparr>ee_read_active := True\<rparr>) s))"

definition ep_note_idle :: "fd_t \<Rightarrow> epoll_reactor \<Rightarrow> epoll_reactor" where
  "ep_note_idle fd s =
     (let en = the (e_entries s fd)
      in if \<not> ee_read_active en \<and> \<not> ee_write_active en
         then s\<lparr>e_pending_cleanup := e_pending_cleanup s @ [fd]\<rparr> else s)"

definition ep_rem_read :: "fd_t \<Rightarrow> epoll_reactor \<Rightarrow> bool \<times> epoll_reactor" where
  "ep_rem_read fd s =
     (case e_entries s fd of
        None \<Rightarrow> (False, s)
      | Some en \<Rightarrow>
          (let s = (if ee_read_active en \<and> ec_fd (ee_read en) \<noteq> -1 then
                      ep_mod fd (\<lambda>en. en\<lparr>ee_read := (ee_read en)\<lparr>ec_fd := -1, ec_cb := None\<rparr>, ee_read_active := False\<rparr>)
                        (ctl_del (ec_fd (ee_read en)) s)
                    else s)
           in (True, ep_note_idle fd s)))"

text \<open>The descriptor the write side watches, a duplicate made on first use.\<close>

definition ep_write_fd :: "ep_entry \<Rightarrow> epoll_reactor \<Rightarrow> fd_t \<times> epoll_reactor" where
  "ep_write_fd en s = (if ec_fd (ee_write en) = -1 then ep_dup s else (ec_fd (ee_write en), s))"

definition ep_add_write :: "fd_t \<Rightarrow> nat option \<Rightarrow> epoll_reactor \<Rightarrow> bool \<times> epoll_reactor" where
  "ep_add_write fd cb s =
     (let s = ep_claim fd s;
          en = the (e_entries s fd);
          (d, s) = ep_write_fd en s;
          s = ep_mod fd (\<lambda>en. en\<lparr>ee_write := (ee_write en)\<lparr>ec_fd := d\<rparr>\<rparr>) s
      in if d = -1 then (False, s)
         else
           (let s = ep_mod fd (\<lambda>en. en\<lparr>ee_write := \<lparr>ec_fd = d, ec_events = 0, ec_cb = cb\<rparr>\<rparr>) s;
                (ok, s) = ctl_add d 0 (Ptr_ctx (ee_node en) Write) s
            in if \<not> ok then (False, s) else (True, ep_mod fd (\<lambda>en. en\<lparr>ee_write_active := True\<rparr>) s)))"

definition ep_rem_write :: "fd_t \<Rightarrow> epoll_reactor \<Rightarrow> bool \<times> epoll_reactor" where
  "ep_rem_write fd s =
     (case e_entries s fd of
        None \<Rightarrow> (False, s)
      | Some en \<Rightarrow>
          (let s = (if ee_write_active en \<and> ec_fd (ee_write en) \<noteq> -1 then
                      ep_mod fd (\<lambda>en. en\<lparr>ee_write := (ee_write en)\<lparr>ec_fd := -1, ec_cb := None\<rparr>, ee_write_active := False\<rparr>)
                        (ep_close (ec_fd (ee_write en)) (ctl_del (ec_fd (ee_write en)) s))
                    else s)
           in (True, ep_note_idle fd s)))"

definition ep_req_write :: "fd_t \<Rightarrow> 32 word \<Rightarrow> epoll_reactor \<Rightarrow> bool \<times> epoll_reactor" where
  "ep_req_write fd events s =
     (case e_entries s fd of
        None \<Rightarrow> (False, s)
      | Some en \<Rightarrow>
          (if \<not> ee_write_active en \<or> ec_fd (ee_write en) = -1 then (False, s)
           else
             ctl_mod (ec_fd (ee_write en)) events (Ptr_ctx (ee_node en) Write)
               (ep_mod fd (\<lambda>en. en\<lparr>ee_write := (ee_write en)\<lparr>ec_events := events\<rparr>\<rparr>) s)))"

section \<open>Wake-ups and the public interface\<close>

text \<open>
  \<open>wake_up\<close> queues the callback under the mutex and writes to the eventfd after it released it; in between the
  thread may be preempted.
\<close>

definition ep_posted :: "wake_fn option \<Rightarrow> epoll_reactor \<Rightarrow> epoll_reactor" where
  "ep_posted cb s = (case cb of Some c \<Rightarrow> s\<lparr>e_wake_up_cb := e_wake_up_cb s @ [c]\<rparr> | None \<Rightarrow> s)"

definition ep_write :: "epoll_reactor \<Rightarrow> epoll_reactor" where
  "ep_write s = s\<lparr>k_eventfd := k_eventfd s + 1\<rparr>"

definition ep_wake_up :: "wake_fn option \<Rightarrow> epoll_reactor \<Rightarrow> epoll_reactor" where
  "ep_wake_up cb s =
     (let s = ep_posted cb s;
          (preempted, ts) = preempt (k_threads s)
      in if preempted then s\<lparr>k_threads := ts\<lparr>wt_signalling := wt_signalling ts + 1\<rparr>\<rparr>
         else ep_write (s\<lparr>k_threads := ts\<rparr>))"

definition ep_resume_wake_up :: "epoll_reactor \<Rightarrow> epoll_reactor" where
  "ep_resume_wake_up s =
     (let ts = k_threads s in
      if 0 < wt_signalling ts then ep_write (s\<lparr>k_threads := ts\<lparr>wt_signalling := wt_signalling ts - 1\<rparr>\<rparr>) else s)"

definition ep_stop :: "epoll_reactor \<Rightarrow> epoll_reactor" where
  "ep_stop s = ep_wake_up None (s\<lparr>e_running := False\<rparr>)"

definition ep_dtor :: "epoll_reactor \<Rightarrow> epoll_reactor" where
  "ep_dtor s = ep_close (e_epoll_fd s) (ep_close (e_event_fd s) (ep_stop s))"

definition ep_add_queue :: "nat \<Rightarrow> nat option \<Rightarrow> epoll_reactor \<Rightarrow> epoll_reactor" where
  "ep_add_queue queue cb s = ep_wake_up None (s\<lparr>e_queues := rq_add queue cb (e_queues s)\<rparr>)"

definition ep_rem_queue :: "nat \<Rightarrow> epoll_reactor \<Rightarrow> epoll_reactor" where
  "ep_rem_queue queue s = s\<lparr>e_queues := rq_rem queue (e_queues s)\<rparr>"

definition ep_is_reactor_thread :: "nat \<Rightarrow> epoll_reactor \<Rightarrow> bool" where
  "ep_is_reactor_thread this_thread s = (case e_thread s of None \<Rightarrow> False | Some i \<Rightarrow> i = this_thread)"

definition ep_defer_removal :: "fd_t \<Rightarrow> bool \<Rightarrow> nat option \<Rightarrow> epoll_reactor \<Rightarrow> epoll_reactor" where
  "ep_defer_removal fd w done_cb s =
     ep_wake_up (Some Run_removals)
       (s\<lparr>e_removals := e_removals s @ [\<lparr>rm_fd = fd, rm_write = w, rm_done_cb = done_cb\<rparr>]\<rparr>)"

text \<open>The calls of the interface; \<open>call\<close> runs a user callback on this thread.\<close>

type_synonym ep_caller = "nat \<Rightarrow> epoll_reactor \<Rightarrow> (epoll_reactor, unit) result"

definition ep_done :: "ep_caller \<Rightarrow> nat option \<Rightarrow> epoll_reactor \<Rightarrow> (epoll_reactor, unit) result" where
  "ep_done call done_cb s = (case done_cb of Some c \<Rightarrow> call c s | None \<Rightarrow> Ok () s)"

definition ep_rem_read_rdy :: "ep_caller \<Rightarrow> nat \<Rightarrow> fd_t \<Rightarrow> nat option \<Rightarrow> epoll_reactor \<Rightarrow> (epoll_reactor, unit) result" where
  "ep_rem_read_rdy call this_thread fd done_cb s =
     (if ep_is_reactor_thread this_thread s then ep_done call done_cb (snd (ep_rem_read fd s))
      else Ok () (ep_defer_removal fd False done_cb s))"

definition ep_rem_write_rdy :: "ep_caller \<Rightarrow> nat \<Rightarrow> fd_t \<Rightarrow> nat option \<Rightarrow> epoll_reactor \<Rightarrow> (epoll_reactor, unit) result" where
  "ep_rem_write_rdy call this_thread fd done_cb s =
     (if ep_is_reactor_thread this_thread s then ep_done call done_cb (snd (ep_rem_write fd s))
      else Ok () (ep_defer_removal fd True done_cb s))"

text \<open>Pushes and bindings of the queues, as for the poll reactor; there is no thread between an exchange and a write.\<close>

definition ep_queue_push :: "nat \<Rightarrow> nat \<Rightarrow> epoll_reactor \<Rightarrow> (epoll_reactor, unit) result" where
  "ep_queue_push q v s =
     (case circular_push v (e_user_queues s q) of
        Throw e _ \<Rightarrow> Throw e s
      | Ok r q' \<Rightarrow>
          (let s = s\<lparr>e_user_queues := (e_user_queues s)(q := q')\<rparr>;
               (preempted, ts) = preempt (k_threads s);
               s = s\<lparr>k_threads := ts\<rparr>
           in Ok () (if preempted \<and> 0 < m_capacity q' then s\<lparr>k_threads := ts\<lparr>wt_pushing := q # wt_pushing ts\<rparr>\<rparr>
                     else if woken r = Some 0 then ep_wake_up None s else s)))"

definition ep_resume_push :: "nat \<Rightarrow> epoll_reactor \<Rightarrow> epoll_reactor" where
  "ep_resume_push q s =
     (let ts = k_threads s in
      if q \<in> set (wt_pushing ts) then
        (let s = s\<lparr>k_threads := ts\<lparr>wt_pushing := remove1 q (wt_pushing ts)\<rparr>\<rparr>
         in if notify_push (e_user_queues s q) = Some 0 then ep_wake_up None s else s)
      else s)"

definition ep_bind_queue :: "nat \<Rightarrow> nat option \<Rightarrow> epoll_reactor \<Rightarrow> epoll_reactor" where
  "ep_bind_queue q r s =
     (let ts = k_threads s;
          late = late_after (q \<in> rq_key ` set (e_queues s)) q r (e_user_queues s q) (wt_late ts)
      in s\<lparr>e_user_queues := (e_user_queues s)(q := snd (set_reactor r (e_user_queues s q))), k_threads := ts\<lparr>wt_late := late\<rparr>\<rparr>)"

fun ep_exec :: "ep_caller \<Rightarrow> nat \<Rightarrow> action \<Rightarrow> epoll_reactor \<Rightarrow> (epoll_reactor, unit) result" where
  "ep_exec call th (Add_read_rdy fd cb) s = Ok () (snd (ep_add_read fd (or EPOLLIN EPOLLRDHUP) cb s))"
| "ep_exec call th (Rem_read_rdy fd cb) s = ep_rem_read_rdy call th fd cb s"
| "ep_exec call th (Add_write_rdy fd cb) s = Ok () (snd (ep_add_write fd cb s))"
| "ep_exec call th (Rem_write_rdy fd cb) s = ep_rem_write_rdy call th fd cb s"
| "ep_exec call th (Req_write fd) s = Ok () (snd (ep_req_write fd (or EPOLLOUT EPOLLONESHOT) s))"
| "ep_exec call th (Wake_up cb) s = Ok () (ep_wake_up (map_option User cb) s)"
| "ep_exec call th Stop s = Ok () (ep_stop s)"
| "ep_exec call th (Add_queue q cb) s = Ok () (ep_add_queue q cb s)"
| "ep_exec call th (Rem_queue q) s = Ok () (ep_rem_queue q s)"
| "ep_exec call th (Queue_push q v) s = ep_queue_push q v s"
| "ep_exec call th (Queue_pop q) s =
     (case circular_pop (e_user_queues s q) of
        Throw e _ \<Rightarrow> Throw e s
      | Ok _ q' \<Rightarrow> Ok () (s\<lparr>e_user_queues := (e_user_queues s)(q := q')\<rparr>))"
| "ep_exec call th (Set_reactor q r) s = Ok () (ep_bind_queue q r s)"
| "ep_exec call th (Queue_set_capacity q n alloc_ok) s =
     (case set_capacity 16 (\<lambda>_. alloc_ok) n (e_user_queues s q) of
        Throw e _ \<Rightarrow> Throw e s
      | Ok _ q' \<Rightarrow> Ok () (s\<lparr>e_user_queues := (e_user_queues s)(q := q')\<rparr>))"
| "ep_exec call th (Resume_push q) s = Ok () (ep_resume_push q s)"
| "ep_exec call th Resume_wake_up s = Ok () (ep_resume_wake_up s)"
| "ep_exec call th Resume_write s = Ok () s"
| "ep_exec call th (Timer_wait for_us cb now) s =
     (case wait_us for_us cb now (e_timer s) of
        Throw e _ \<Rightarrow> Throw e s
      | Ok _ t \<Rightarrow> Ok () (s\<lparr>e_timer := t\<rparr>))"
| "ep_exec call th (Timer_cancel i) s = Ok () (s\<lparr>e_timer := snd (cancel i (e_timer s))\<rparr>)"
| "ep_exec call th (Raise e) s = Throw (Runtime_error e) s"

type_synonym ep_program = "nat \<Rightarrow> epoll_reactor \<Rightarrow> action list"

primrec ep_call :: "nat \<Rightarrow> ep_program \<Rightarrow> nat \<Rightarrow> ep_caller" where
  "ep_call 0 prog th c s = Throw Stack_overflow s"
| "ep_call (Suc d) prog th c s = rfold (ep_exec (ep_call d prog th) th) (prog c s) s"

definition ep_run_removal :: "ep_caller \<Rightarrow> removal \<Rightarrow> epoll_reactor \<Rightarrow> (epoll_reactor, unit) result" where
  "ep_run_removal call r s =
     ep_done call (rm_done_cb r) (if rm_write r then snd (ep_rem_write (rm_fd r) s) else snd (ep_rem_read (rm_fd r) s))"

definition ep_run_removals :: "ep_caller \<Rightarrow> epoll_reactor \<Rightarrow> (epoll_reactor, unit) result" where
  "ep_run_removals call s = (let batch = e_removals s in rfold (ep_run_removal call) batch (s\<lparr>e_removals := []\<rparr>))"

definition ep_call_wake :: "ep_caller \<Rightarrow> wake_fn \<Rightarrow> epoll_reactor \<Rightarrow> (epoll_reactor, unit) result" where
  "ep_call_wake call c s = (case c of User n \<Rightarrow> call n s | Run_removals \<Rightarrow> ep_run_removals call s)"

section \<open>The run loop\<close>

text \<open>The timeout as seconds and nanoseconds, \<open>None\<close> for no timeout; and its value for \<open>epoll_wait\<close>.\<close>

definition ep_timeout :: "int \<Rightarrow> epoll_reactor \<Rightarrow> (epoll_reactor, (int \<times> int) option) result" where
  "ep_timeout now_us s =
     rbind
       (case get_next_deadline_us (e_timer s) of
          None \<Rightarrow> Ok None s
        | Some next_deadline_us \<Rightarrow>
            (let diff = next_deadline_us - now_us in
             if \<not> int64_ok diff then Throw Undefined_behaviour s
             else Ok (Some (if diff > 0 then (diff div 1000000, (diff mod 1000000) * 1000) else (0, 0))) s))
       (\<lambda>timeout s. Ok (if e_queue_backlog s then Some (0, 0) else timeout) s)"

definition ep_timeout_ms :: "(int \<times> int) option \<Rightarrow> int" where
  "ep_timeout_ms timeout =
     (case timeout of
        None \<Rightarrow> -1
      | Some (tv_sec, tv_nsec) \<Rightarrow>
          (let ms = tv_sec * 1000 + (tv_nsec + 999999) div 1000000 in if ms > INT_MAX then INT_MAX else ms))"

text \<open>
  What \<open>epoll_wait\<close> returns for the descriptors that are ready: the pointers registered for them, at most
  as many as the event cache holds; a one-shot registration is disarmed.
\<close>

definition ep_reported :: "fd_t list \<Rightarrow> epoll_reactor \<Rightarrow> fd_t list" where
  "ep_reported ready s = take (e_cache_size s) (filter (\<lambda>fd. k_interest s fd \<noteq> None) (remdups ready))"

definition ep_events :: "fd_t list \<Rightarrow> epoll_reactor \<Rightarrow> ep_ptr list" where
  "ep_events ready s = map (\<lambda>fd. snd (the (k_interest s fd))) (ep_reported ready s)"

definition ep_disarm_fd :: "fd_t \<Rightarrow> (fd_t \<rightharpoonup> 32 word \<times> ep_ptr) \<Rightarrow> (fd_t \<rightharpoonup> 32 word \<times> ep_ptr)" where
  "ep_disarm_fd fd K =
     (case K fd of
        None \<Rightarrow> K
      | Some (ev, p) \<Rightarrow> (if and ev EPOLLONESHOT \<noteq> 0 then K(fd \<mapsto> (0, p)) else K))"

definition ep_disarm :: "fd_t list \<Rightarrow> epoll_reactor \<Rightarrow> epoll_reactor" where
  "ep_disarm ready s = s\<lparr>k_interest := fold ep_disarm_fd (ep_reported ready s) (k_interest s)\<rparr>"

text \<open>The context a pointer leads to.\<close>

definition ep_deref :: "nat \<Rightarrow> poll_kind \<Rightarrow> epoll_reactor \<Rightarrow> ep_ctx option" where
  "ep_deref node kind s =
     (case e_nodes s node of
        None \<Rightarrow> None
      | Some fd \<Rightarrow> map_option (if kind = Read then ee_read else ee_write) (e_entries s fd))"

definition ep_dispatch :: "ep_caller \<Rightarrow> ep_ptr \<Rightarrow> epoll_reactor \<Rightarrow> (epoll_reactor, unit) result" where
  "ep_dispatch call ptr s =
     (case ptr of
        Ptr_event_fd \<Rightarrow> Ok () (s\<lparr>k_eventfd := k_eventfd s - 1\<rparr>)
      | Ptr_ctx node kind \<Rightarrow>
          (case ep_deref node kind s of
             None \<Rightarrow> Throw Dangling_pointer s
           | Some ctx \<Rightarrow> (case ec_cb ctx of None \<Rightarrow> Ok () s | Some c \<Rightarrow> call c s)))"

definition ep_wake_phase :: "ep_caller \<Rightarrow> epoll_reactor \<Rightarrow> (epoll_reactor, unit) result" where
  "ep_wake_phase call s = (let cbl = e_wake_up_cb s in rfold (ep_call_wake call) cbl (s\<lparr>e_wake_up_cb := []\<rparr>))"

definition ep_queue_phase :: "ep_caller \<Rightarrow> epoll_reactor \<Rightarrow> (epoll_reactor, unit) result" where
  "ep_queue_phase call s =
     rbind (rq_notify (\<lambda>q s. circular_has_data (e_user_queues s q)) call e_queues s)
       (\<lambda>backlog s. Ok () (s\<lparr>e_queue_backlog := backlog\<rparr>))"

definition ep_cleanup_fd :: "fd_t \<Rightarrow> epoll_reactor \<Rightarrow> epoll_reactor" where
  "ep_cleanup_fd fd s =
     (case e_entries s fd of
        None \<Rightarrow> s
      | Some en \<Rightarrow>
          (if \<not> ee_read_active en \<and> \<not> ee_write_active en then
             (let s = (if ec_fd (ee_write en) \<noteq> -1 then ep_close (ec_fd (ee_write en)) s else s)
              in s\<lparr>e_entries := (e_entries s)(fd := None), e_nodes := (e_nodes s)(ee_node en := None)\<rparr>)
           else s))"

definition ep_cleanup :: "epoll_reactor \<Rightarrow> epoll_reactor" where
  "ep_cleanup s = (fold ep_cleanup_fd (e_pending_cleanup s) s)\<lparr>e_pending_cleanup := []\<rparr>"

definition ep_timer_phase :: "ep_caller \<Rightarrow> int \<Rightarrow> epoll_reactor \<Rightarrow> (epoll_reactor, unit) result" where
  "ep_timer_phase call now_us s = schedule e_timer (\<lambda>t s. s\<lparr>e_timer := t\<rparr>) call now_us s"

datatype ep_wait_result = Ep_ready "fd_t list" | Ep_error int

record ep_environment =
  ep_now_before :: int
  ep_during_wait :: "(nat \<times> action) list"
  ep_waited :: ep_wait_result
  ep_before_wake :: "(nat \<times> action) list"
  ep_before_queues :: "(nat \<times> action) list"
  ep_before_timers :: "(nat \<times> action) list"
  ep_now_after :: int

text \<open>Calls of other threads, atomic steps; what they throw is theirs.\<close>

definition ep_foreign :: "ep_caller \<Rightarrow> (nat \<times> action) list \<Rightarrow> epoll_reactor \<Rightarrow> epoll_reactor" where
  "ep_foreign call = fold (\<lambda>(th, a) s. the_state (ep_exec call th a s))"

definition ep_serve :: "ep_caller \<Rightarrow> ep_environment \<Rightarrow> fd_t list \<Rightarrow> epoll_reactor \<Rightarrow> (epoll_reactor, unit) result" where
  "ep_serve call env ready s =
     (let evs = ep_events ready s in
      rbind (rfold (ep_dispatch call) evs (ep_disarm ready s)) (\<lambda>_ s.
      rbind (ep_wake_phase call (ep_foreign call (ep_before_wake env) s)) (\<lambda>_ s.
      rbind (ep_queue_phase call (ep_foreign call (ep_before_queues env) s)) (\<lambda>_ s.
        ep_timer_phase call (ep_now_after env) (ep_foreign call (ep_before_timers env) (ep_cleanup s))))))"

definition ep_iteration :: "ep_caller \<Rightarrow> ep_environment \<Rightarrow> epoll_reactor \<Rightarrow> (epoll_reactor, unit) result" where
  "ep_iteration call env s =
     rbind (ep_timeout (ep_now_before env) s) (\<lambda>_ s.
       (let s = ep_foreign call (ep_during_wait env) s in
        case ep_waited env of
          Ep_error e \<Rightarrow> (if EINTR \<noteq> e then Throw (Runtime_error e) s else Ok () s)
        | Ep_ready ready \<Rightarrow> ep_serve call env ready s))"

fun ep_loop :: "ep_caller \<Rightarrow> ep_environment list \<Rightarrow> epoll_reactor \<Rightarrow> (epoll_reactor, bool) result" where
  "ep_loop call envs s =
     (if \<not> e_running s then Ok True (s\<lparr>e_thread := None\<rparr>)
      else
        (case envs of
           [] \<Rightarrow> Ok False s
         | env # envs \<Rightarrow> rbind (ep_iteration call env s) (\<lambda>_. ep_loop call envs)))"

declare ep_loop.simps [simp del]

lemma ep_loop_list:
  "ep_loop call [] s = (if e_running s then Ok False s else Ok True (s\<lparr>e_thread := None\<rparr>))"
  "ep_loop call (env # envs) s =
     (if e_running s then rbind (ep_iteration call env s) (\<lambda>_. ep_loop call envs) else Ok True (s\<lparr>e_thread := None\<rparr>))"
  by (simp_all add: ep_loop.simps)

definition ep_run :: "nat \<Rightarrow> ep_program \<Rightarrow> nat \<Rightarrow> ep_environment list \<Rightarrow> epoll_reactor \<Rightarrow> (epoll_reactor, bool) result" where
  "ep_run depth prog th envs s =
     ep_loop (ep_call depth prog th) envs (s\<lparr>e_thread := Some th, e_running := True\<rparr>)"


section \<open>Relations kept by everything a callback can do\<close>

definition keeps :: "(epoll_reactor \<Rightarrow> epoll_reactor \<Rightarrow> bool) \<Rightarrow> ep_caller \<Rightarrow> bool" where
  "keeps R call \<longleftrightarrow> (\<forall>c s. R s (the_state (call c s)))"

locale epoll_action_relation =
  fixes R :: "epoll_reactor \<Rightarrow> epoll_reactor \<Rightarrow> bool"
  assumes R_refl: "R s s"
    and R_trans: "R s t \<Longrightarrow> R t u \<Longrightarrow> R s u"
    and R_exec: "keeps R call \<Longrightarrow> R s (the_state (ep_exec call th a s))"
    and R_rem: "R s (snd (ep_rem_read fd s))" "R s (snd (ep_rem_write fd s))"
    and R_upd: "R s (s\<lparr>e_timer := tm\<rparr>)" "R s (s\<lparr>e_removals := rs\<rparr>)" "R s (s\<lparr>e_wake_up_cb := []\<rparr>)"
begin

lemma R_rfold:
  assumes "\<And>x s. R s (the_state (f x s))"
  shows "R s (the_state (rfold f xs s))"
  using rfold_inv [where I = "R s" and f = f and s = s] assms R_refl R_trans by blast

lemma R_call: "keeps R (ep_call d prog th)"
proof (induction d)
  case (Suc d)
  show ?case unfolding keeps_def by (auto intro: R_rfold R_exec [OF Suc])
qed (simp add: keeps_def R_refl)

lemma R_bind: "R s (the_state r) \<Longrightarrow> (\<And>a t. R t (the_state (f a t))) \<Longrightarrow> R s (the_state (rbind r f))"
  by (cases r) (auto intro: R_trans)

lemma R_foreign: "keeps R call \<Longrightarrow> R s (ep_foreign call as s)"
  unfolding ep_foreign_def by (rule fold_inv [where I = "R s"]) (auto intro: R_trans R_exec R_refl)

lemma R_done: "keeps R call \<Longrightarrow> R s (the_state (ep_done call cb s))"
  by (auto simp: ep_done_def keeps_def R_refl split: option.splits)

lemma R_call_wake:
  assumes "keeps R call"
  shows "R s (the_state (ep_call_wake call c s))"
proof -
  have "R s (the_state (ep_run_removal call r s))" for r s
    unfolding ep_run_removal_def by (rule R_trans [OF _ R_done [OF assms]]) (simp add: R_rem)
  then have "R s (the_state (ep_run_removals call s))"
    unfolding ep_run_removals_def Let_def using R_trans R_upd(2) R_rfold by metis
  then show ?thesis using assms by (simp add: ep_call_wake_def keeps_def split: wake_fn.split)
qed

lemma R_wake_phase: "keeps R call \<Longrightarrow> R s (the_state (ep_wake_phase call s))"
  unfolding ep_wake_phase_def Let_def using R_trans [OF R_upd(3)] R_rfold R_call_wake by metis

lemma R_timer_phase:
  assumes "keeps R call"
  shows "R s (the_state (ep_timer_phase call now s))"
proof -
  obtain ex t where e: "timer_extract now (e_timer s) = (ex, t)" by fastforce
  have "R (s\<lparr>e_timer := t\<rparr>) (the_state (rfold (\<lambda>(_, cb) s. case cb of None \<Rightarrow> Throw Bad_function_call s
      | Some c \<Rightarrow> call c s) ex (s\<lparr>e_timer := t\<rparr>)))"
    by (rule R_rfold) (use assms in \<open>auto simp: keeps_def intro: R_refl split: option.splits\<close>)
  with R_upd(1) [of s t] show ?thesis by (simp add: ep_timer_phase_def schedule_def e R_trans)
qed

end

text \<open>A relation that also the stored result of the queue phase keeps.\<close>

locale epoll_relation = epoll_action_relation +
  assumes R_backlog: "R s (s\<lparr>e_queue_backlog := b\<rparr>)"
begin

lemma R_queue_phase:
  assumes "keeps R call"
  shows "R s (the_state (ep_queue_phase call s))"
  unfolding ep_queue_phase_def
proof (rule R_bind)
  have "R s (the_state (call c t))" if "R s t" for c t using that assms R_trans by (auto simp: keeps_def)
  then show "R s (the_state (rq_notify (\<lambda>q s. circular_has_data (e_user_queues s q)) call e_queues s))"
    by (intro rq_notify_inv [where I = "R s" and call = call]) (auto simp: R_refl)
qed (simp add: R_backlog)

end

lemma keeps_imp:
  assumes "keeps R call"
  shows "R s (the_state (call c s))"
  using assms by (simp add: keeps_def)

text \<open>The cases of \<open>ep_exec\<close>: a result whose state is one of these.\<close>

lemma ep_exec_cases:
  assumes c: "\<And>c t. P t \<Longrightarrow> P (the_state (call c t))" and s: "P s"
    and prims: "\<And>fd ev cb. P (snd (ep_add_read fd ev cb s))" "\<And>fd cb. P (snd (ep_add_write fd cb s))"
      "\<And>fd. P (snd (ep_rem_read fd s))" "\<And>fd. P (snd (ep_rem_write fd s))" "\<And>fd ev. P (snd (ep_req_write fd ev s))"
    and wake: "\<And>cb t. P t \<Longrightarrow> P (ep_wake_up cb t)"
    and upd: "\<And>v. P (s\<lparr>e_running := v\<rparr>)" "\<And>v. P (s\<lparr>e_queues := v\<rparr>)" "\<And>v. P (s\<lparr>e_user_queues := v\<rparr>)" "\<And>v. P (s\<lparr>e_timer := v\<rparr>)"
      "\<And>v. P (s\<lparr>e_removals := v\<rparr>)"
    and threads: "\<And>v ts. wt_signalling ts = wt_signalling (k_threads s) \<Longrightarrow> P (s\<lparr>e_user_queues := v, k_threads := ts\<rparr>)"
      "P (ep_resume_wake_up s)"
  shows "P (the_state (ep_exec call th a s))"
proof (cases a)
  case (Rem_read_rdy fd cb)
  then show ?thesis using c [OF prims(3) [of fd]] prims(3) wake [OF upd(5)]
    by (auto simp: ep_rem_read_rdy_def ep_done_def ep_defer_removal_def split: option.split)
next
  case (Rem_write_rdy fd cb)
  then show ?thesis using c [OF prims(4) [of fd]] prims(4) wake [OF upd(5)]
    by (auto simp: ep_rem_write_rdy_def ep_done_def ep_defer_removal_def split: option.split)
next
  case (Queue_push q v)
  then show ?thesis using s threads(1) wake [OF threads(1)]
    by (auto simp: ep_queue_push_def Let_def preempt_fields split: result.split prod.split)
next
  case (Set_reactor q r)
  then show ?thesis using threads(1) by (simp add: ep_bind_queue_def Let_def)
next
  case (Resume_push q)
  have "P (s\<lparr>k_threads := ts\<rparr>)" if "wt_signalling ts = wt_signalling (k_threads s)" for ts
    using threads(1) [OF that, of "e_user_queues s"] by simp
  then show ?thesis using Resume_push s wake by (auto simp: ep_resume_push_def Let_def)
next
  case Resume_wake_up
  then show ?thesis using threads(2) by simp
qed (use s prims(1,2,5) wake [OF s] upd wake [OF upd(1)] wake [OF upd(2)] in
    \<open>auto simp: ep_stop_def ep_add_queue_def ep_rem_queue_def split: result.split\<close>)

section \<open>Pointers stay valid\<close>

definition ep_active :: "poll_kind \<Rightarrow> ep_entry \<Rightarrow> bool" where
  "ep_active k en = (case k of Wake \<Rightarrow> False | Read \<Rightarrow> ee_read_active en | Write \<Rightarrow> ee_write_active en)"

definition ep_ctx_of :: "poll_kind \<Rightarrow> ep_entry \<Rightarrow> ep_ctx" where
  "ep_ctx_of k en = (if k = Read then ee_read en else ee_write en)"

text \<open>
  Every node is the entry of its descriptor; every pointer in the interest list leads to an active
  context that watches that descriptor, and every active context is in the interest list.
\<close>

definition nodes_ok :: "(nat \<rightharpoonup> fd_t) \<Rightarrow> nat \<Rightarrow> (fd_t \<rightharpoonup> ep_entry) \<Rightarrow> bool" where
  "nodes_ok N m E \<longleftrightarrow> (\<forall>n fd. N n = Some fd \<longleftrightarrow> (\<exists>en. E fd = Some en \<and> ee_node en = n)) \<and> (\<forall>n. N n \<noteq> None \<longrightarrow> n < m)"

definition interest_ok :: "(fd_t \<rightharpoonup> 32 word \<times> ep_ptr) \<Rightarrow> (fd_t \<rightharpoonup> ep_entry) \<Rightarrow> bool" where
  "interest_ok K E \<longleftrightarrow>
     (\<forall>x ev n k. K x = Some (ev, Ptr_ctx n k) \<longrightarrow>
       (\<exists>fd en. E fd = Some en \<and> ee_node en = n \<and> ep_active k en \<and> ec_fd (ep_ctx_of k en) = x)) \<and>
     (\<forall>fd en k. E fd = Some en \<longrightarrow> ep_active k en \<longrightarrow>
       (\<exists>ev. K (ec_fd (ep_ctx_of k en)) = Some (ev, Ptr_ctx (ee_node en) k))) \<and>
     (\<forall>fd en. E fd = Some en \<longrightarrow> ee_read_active en \<longrightarrow> ec_fd (ee_read en) = fd) \<and> K (-1) = None"

definition ep_wf :: "epoll_reactor \<Rightarrow> bool" where
  "ep_wf s \<longleftrightarrow> nodes_ok (e_nodes s) (e_next_node s) (e_entries s) \<and> interest_ok (k_interest s) (e_entries s)"

lemmas ep_wake_defs = ep_wake_up_def ep_posted_def ep_write_def ep_resume_wake_up_def Let_def

lemmas ep_sel = ep_mod_def ctl_del_def ep_close_def ep_note_idle_def ep_wake_defs

lemma ep_wf_wake [simp]: "ep_wf (ep_wake_up cb s) = ep_wf s" "ep_wf (ep_resume_wake_up s) = ep_wf s"
  by (simp_all add: ep_wf_def ep_wake_defs split: option.split prod.split)

lemma ep_wf_frame [simp]:
  "ep_wf (s\<lparr>e_running := v1\<rparr>) = ep_wf s" "ep_wf (s\<lparr>e_queues := v2\<rparr>) = ep_wf s" "ep_wf (s\<lparr>e_user_queues := v3\<rparr>) = ep_wf s"
  "ep_wf (s\<lparr>e_timer := v4\<rparr>) = ep_wf s" "ep_wf (s\<lparr>e_removals := v5\<rparr>) = ep_wf s" "ep_wf (s\<lparr>e_queue_backlog := v6\<rparr>) = ep_wf s"
  "ep_wf (s\<lparr>e_wake_up_cb := v7\<rparr>) = ep_wf s" "ep_wf (s\<lparr>e_pending_cleanup := v8\<rparr>) = ep_wf s" "ep_wf (s\<lparr>k_eventfd := v9\<rparr>) = ep_wf s"
  "ep_wf (s\<lparr>e_thread := v10\<rparr>) = ep_wf s" "ep_wf (s\<lparr>k_ctl := v11\<rparr>) = ep_wf s" "ep_wf (s\<lparr>k_dup := v12, k_opened := v13\<rparr>) = ep_wf s"
  "ep_wf (s\<lparr>k_closed := v14\<rparr>) = ep_wf s" "ep_wf (s\<lparr>k_threads := v15\<rparr>) = ep_wf s"
  by (simp_all add: ep_wf_def)

lemma ep_wf_note_idle [simp]: "ep_wf (ep_note_idle fd s) = ep_wf s"
  by (simp add: ep_note_idle_def Let_def)

text \<open>Changing an entry without its node, its flags or a watched descriptor.\<close>

lemma nodes_ok_mod:
  assumes "nodes_ok N m E" "\<And>en. E fd = Some en \<Longrightarrow> ee_node (f en) = ee_node en"
  shows "nodes_ok N m (E(fd := map_option f (E fd)))"
  using assms unfolding nodes_ok_def by (auto split: if_splits)

lemma interest_ok_mod:
  assumes ok: "interest_ok K E"
    and f: "\<And>en. E fd = Some en \<Longrightarrow> ee_node (f en) = ee_node en \<and> (\<forall>k. ep_active k (f en) = ep_active k en) \<and>
      (\<forall>k. ep_active k en \<longrightarrow> ec_fd (ep_ctx_of k (f en)) = ec_fd (ep_ctx_of k en))"
  shows "interest_ok K (E(fd := map_option f (E fd)))"
proof -
  have r: "ee_read_active (f en) = ee_read_active en" "ee_read_active en \<Longrightarrow> ec_fd (ee_read (f en)) = ec_fd (ee_read en)"
    if "E fd = Some en" for en
    using f [OF that] by (auto simp: ep_active_def ep_ctx_of_def split: poll_kind.splits dest!: spec [of _ Read])
  show ?thesis
    unfolding interest_ok_def
  proof (intro conjI allI impI)
    fix x ev n k assume "K x = Some (ev, Ptr_ctx n k)"
    then obtain fd' en where en: "E fd' = Some en" "ee_node en = n" "ep_active k en" "ec_fd (ep_ctx_of k en) = x"
      using ok unfolding interest_ok_def by metis
    then show "\<exists>fd' en. (E(fd := map_option f (E fd))) fd' = Some en \<and> ee_node en = n \<and> ep_active k en \<and> ec_fd (ep_ctx_of k en) = x"
      using f [of en] by (cases "fd' = fd") (auto intro!: exI [of _ fd'])
  next
    fix fd' en k assume e: "(E(fd := map_option f (E fd))) fd' = Some en" "ep_active k en"
    then obtain en0 where "E fd' = Some en0" "en = (if fd' = fd then f en0 else en0)" by (cases "fd' = fd") auto
    then show "\<exists>ev. K (ec_fd (ep_ctx_of k en)) = Some (ev, Ptr_ctx (ee_node en) k)"
      using ok e(2) f [of en0] unfolding interest_ok_def by (cases "fd' = fd") auto
  next
    fix fd' en assume e: "(E(fd := map_option f (E fd))) fd' = Some en" "ee_read_active en"
    then show "ec_fd (ee_read en) = fd'" using ok r unfolding interest_ok_def by (cases "fd' = fd") auto
  qed (use ok in \<open>simp add: interest_ok_def\<close>)
qed

lemma ep_wf_mod:
  assumes "ep_wf s"
    and "\<And>en. e_entries s fd = Some en \<Longrightarrow> ee_node (f en) = ee_node en \<and> (\<forall>k. ep_active k (f en) = ep_active k en) \<and>
      (\<forall>k. ep_active k en \<longrightarrow> ec_fd (ep_ctx_of k (f en)) = ec_fd (ep_ctx_of k en))"
  shows "ep_wf (ep_mod fd f s)"
  using assms nodes_ok_mod [of _ _ "e_entries s" fd f] interest_ok_mod [of _ "e_entries s" fd f]
  by (auto simp: ep_wf_def ep_mod_def)


lemma interest_okD:
  assumes "interest_ok K E"
  shows "K x = Some (ev, Ptr_ctx n k) \<Longrightarrow> \<exists>fd en. E fd = Some en \<and> ee_node en = n \<and> ep_active k en \<and> ec_fd (ep_ctx_of k en) = x"
    and "E fd = Some en \<Longrightarrow> ep_active k en \<Longrightarrow> \<exists>ev. K (ec_fd (ep_ctx_of k en)) = Some (ev, Ptr_ctx (ee_node en) k)"
    and "E fd = Some en \<Longrightarrow> ee_read_active en \<Longrightarrow> ec_fd (ee_read en) = fd" and "K (-1) = None"
  using assms unfolding interest_ok_def by blast+

lemma nodes_okD:
  assumes "nodes_ok N m E" "E fd = Some en"
  shows "N (ee_node en) = Some fd"
proof -
  have "\<forall>n fd. N n = Some fd \<longleftrightarrow> (\<exists>en. E fd = Some en \<and> ee_node en = n)" using assms(1) by (simp add: nodes_ok_def)
  then show ?thesis using assms(2) by simp
qed

lemma nodes_unique:
  assumes "nodes_ok N m E" "E fd = Some en" "E fd' = Some en'" "ee_node en = ee_node en'"
  shows "fd = fd'"
  using nodes_okD [OF assms(1,2)] nodes_okD [OF assms(1,3)] assms(4) by simp

lemma interest_ok_activate:
  assumes ok: "interest_ok K E" and fd: "E fd = Some en" and x: "K x = None" "x \<noteq> -1"
    and en': "ee_node en' = ee_node en" "ec_fd (ep_ctx_of k en') = x" "k = Read \<Longrightarrow> x = fd"
      "\<And>k'. ep_active k' en' = (k' = k \<or> ep_active k' en)" "\<And>k'. k' \<noteq> k \<Longrightarrow> ec_fd (ep_ctx_of k' en') = ec_fd (ep_ctx_of k' en)"
      "\<not> ep_active k en"
  shows "interest_ok (K(x \<mapsto> (ev, Ptr_ctx (ee_node en) k))) (E(fd \<mapsto> en'))"
  unfolding interest_ok_def
proof (intro conjI allI impI)
  fix y ev' n k' assume y: "(K(x \<mapsto> (ev, Ptr_ctx (ee_node en) k))) y = Some (ev', Ptr_ctx n k')"
  show "\<exists>fd' e. (E(fd \<mapsto> en')) fd' = Some e \<and> ee_node e = n \<and> ep_active k' e \<and> ec_fd (ep_ctx_of k' e) = y"
  proof (cases "y = x")
    case True
    then show ?thesis using y en' by (intro exI [of _ fd] exI [of _ en']) auto
  next
    case False
    then obtain fd' e where e: "E fd' = Some e" "ee_node e = n" "ep_active k' e" "ec_fd (ep_ctx_of k' e) = y"
      using y interest_okD(1) [OF ok, of y ev' n k'] by auto
    show ?thesis
    proof (cases "fd' = fd")
      case True
      then have "k' \<noteq> k" using e(1,3) fd en'(6) by auto
      then show ?thesis using e True fd en' by (intro exI [of _ fd] exI [of _ en']) auto
    qed (use e in auto)
  qed
next
  fix fd' e k' assume e: "(E(fd \<mapsto> en')) fd' = Some e" "ep_active k' e"
  show "\<exists>ev'. (K(x \<mapsto> (ev, Ptr_ctx (ee_node en) k))) (ec_fd (ep_ctx_of k' e)) = Some (ev', Ptr_ctx (ee_node e) k')"
  proof (cases "fd' = fd \<and> k' = k")
    case True
    then show ?thesis using e en' by auto
  next
    case False
    then obtain e0 where e0: "E fd' = Some e0" "ep_active k' e0" "ee_node e0 = ee_node e" "ec_fd (ep_ctx_of k' e0) = ec_fd (ep_ctx_of k' e)"
      using e fd en' by (cases "fd' = fd") auto
    have "ec_fd (ep_ctx_of k' e) \<noteq> x" using interest_okD(2) [OF ok e0(1,2)] x(1) e0(4) by auto
    then show ?thesis using interest_okD(2) [OF ok e0(1,2)] e0(3,4) by simp
  qed
next
  fix fd' e assume e: "(E(fd \<mapsto> en')) fd' = Some e" "ee_read_active e"
  have k: "ee_read_active en' = (k = Read \<or> ee_read_active en)" using en'(4) [of Read] by (auto simp: ep_active_def)
  show "ec_fd (ee_read e) = fd'"
  proof (cases "fd' = fd")
    case True
    then show ?thesis using e k en'(2,3) en'(5) [of Read] interest_okD(3) [OF ok fd]
      by (cases "k = Read") (auto simp: ep_ctx_of_def)
  qed (use e interest_okD(3) [OF ok, of fd'] in auto)
qed (use x interest_okD(4) [OF ok] in simp)

lemma interest_ok_deactivate:
  assumes ok: "interest_ok K E" and N: "nodes_ok N m E" and fd: "E fd = Some en" "ep_active k en"
    and en': "ee_node en' = ee_node en" "\<And>k'. ep_active k' en' = (k' \<noteq> k \<and> ep_active k' en)"
      "\<And>k'. k' \<noteq> k \<Longrightarrow> ep_active k' en \<Longrightarrow> ec_fd (ep_ctx_of k' en') = ec_fd (ep_ctx_of k' en)"
  shows "interest_ok (K(ec_fd (ep_ctx_of k en) := None)) (E(fd \<mapsto> en'))"
  unfolding interest_ok_def
proof (intro conjI allI impI)
  let ?x = "ec_fd (ep_ctx_of k en)"
  obtain ev0 where K: "K ?x = Some (ev0, Ptr_ctx (ee_node en) k)" using interest_okD(2) [OF ok fd] by blast
  {
    fix y ev' n k' assume y: "(K(?x := None)) y = Some (ev', Ptr_ctx n k')"
    then have y': "y \<noteq> ?x" "K y = Some (ev', Ptr_ctx n k')" by (auto split: if_splits)
    obtain fd' e where e: "E fd' = Some e" "ee_node e = n" "ep_active k' e" "ec_fd (ep_ctx_of k' e) = y"
      using interest_okD(1) [OF ok y'(2)] by auto
    show "\<exists>fd' e. (E(fd \<mapsto> en')) fd' = Some e \<and> ee_node e = n \<and> ep_active k' e \<and> ec_fd (ep_ctx_of k' e) = y"
    proof (cases "fd' = fd")
      case True
      then have "k' \<noteq> k" using e fd y'(1) by auto
      then show ?thesis using e True fd en' by (intro exI [of _ fd] exI [of _ en']) auto
    qed (use e in auto)
  }
  fix fd' e k' assume e: "(E(fd \<mapsto> en')) fd' = Some e" "ep_active k' e"
  obtain e0 where e0: "E fd' = Some e0" "ep_active k' e0" "ee_node e0 = ee_node e" "ec_fd (ep_ctx_of k' e0) = ec_fd (ep_ctx_of k' e)"
    "fd' = fd \<Longrightarrow> k' \<noteq> k"
    using e fd en' by (cases "fd' = fd") auto
  have "ec_fd (ep_ctx_of k' e) \<noteq> ?x"
  proof
    assume "ec_fd (ep_ctx_of k' e) = ?x"
    then have "ee_node e0 = ee_node en" "k' = k" using interest_okD(2) [OF ok e0(1,2)] K e0(4) by auto
    then show False using nodes_unique [OF N e0(1) fd(1)] e0(5) by simp
  qed
  then show "\<exists>ev'. (K(?x := None)) (ec_fd (ep_ctx_of k' e)) = Some (ev', Ptr_ctx (ee_node e) k')"
    using interest_okD(2) [OF ok e0(1,2)] e0(3,4) by simp
next
  fix fd' e assume e: "(E(fd \<mapsto> en')) fd' = Some e" "ee_read_active e"
  have k: "ee_read_active en' = (k \<noteq> Read \<and> ee_read_active en)" using en'(2) [of Read] by (auto simp: ep_active_def)
  show "ec_fd (ee_read e) = fd'"
  proof (cases "fd' = fd")
    case True
    then show ?thesis using e k en'(3) [of Read] interest_okD(3) [OF ok fd(1)] by (auto simp: ep_ctx_of_def ep_active_def)
  qed (use e interest_okD(3) [OF ok, of fd'] in auto)
qed (use interest_okD(4) [OF ok] in simp)

lemma interest_ok_inactive:
  assumes ok: "interest_ok K E" and fd: "E fd = None" and en: "\<And>k. \<not> ep_active k en"
  shows "interest_ok K (E(fd \<mapsto> en))"
  unfolding interest_ok_def
proof (intro conjI allI impI)
  fix x ev n k assume "K x = Some (ev, Ptr_ctx n k)"
  then obtain fd' e where e: "E fd' = Some e" "ee_node e = n" "ep_active k e" "ec_fd (ep_ctx_of k e) = x"
    using interest_okD(1) [OF ok] by blast
  then have "(E(fd \<mapsto> en)) fd' = Some e" using fd by auto
  then show "\<exists>fd' e. (E(fd \<mapsto> en)) fd' = Some e \<and> ee_node e = n \<and> ep_active k e \<and> ec_fd (ep_ctx_of k e) = x"
    using e by blast
next
  fix fd' e k assume e: "(E(fd \<mapsto> en)) fd' = Some e" "ep_active k e"
  then have "E fd' = Some e" using en by (auto split: if_splits)
  then show "\<exists>ev. K (ec_fd (ep_ctx_of k e)) = Some (ev, Ptr_ctx (ee_node e) k)" using interest_okD(2) [OF ok] e(2) by blast
next
  fix fd' e assume e: "(E(fd \<mapsto> en)) fd' = Some e" "ee_read_active e"
  then have "E fd' = Some e" using en [of Read] by (auto simp: ep_active_def split: if_splits)
  then show "ec_fd (ee_read e) = fd'" using interest_okD(3) [OF ok] e(2) by blast
qed (rule interest_okD(4) [OF ok])

lemma ep_wf_entry_ref:
  assumes "ep_wf s"
  shows "ep_wf (ep_entry_ref fd s)"
proof (cases "e_entries s fd")
  case None
  let ?s = "ep_entry_ref fd s" and ?n = "e_next_node s"
  have N: "nodes_ok (e_nodes s) ?n (e_entries s)" and I: "interest_ok (k_interest s) (e_entries s)" using assms by (simp_all add: ep_wf_def)
  have new: "e_nodes s ?n = None" using N unfolding nodes_ok_def by blast
  have notn: "ee_node en \<noteq> ?n" if "e_entries s fd' = Some en" for fd' en
  proof
    assume "ee_node en = ?n"
    then have "e_nodes s ?n = Some fd'" using N that unfolding nodes_ok_def by blast
    then show False using new by simp
  qed
  have "nodes_ok (e_nodes ?s) (e_next_node ?s) (e_entries ?s)"
    unfolding nodes_ok_def
  proof (intro conjI allI impI)
    fix n fd'
    show "e_nodes ?s n = Some fd' \<longleftrightarrow> (\<exists>en. e_entries ?s fd' = Some en \<and> ee_node en = n)"
      using N notn [of fd'] None unfolding nodes_ok_def by (auto simp: ep_entry_ref_def split: if_splits)
    show "n < e_next_node ?s" if "e_nodes ?s n \<noteq> None"
      using N that None unfolding nodes_ok_def by (auto simp: ep_entry_ref_def less_SucI split: if_splits)
  qed
  moreover have "interest_ok (k_interest ?s) (e_entries ?s)"
    using interest_ok_inactive [OF I None] None by (simp add: ep_entry_ref_def ep_active_def split: poll_kind.split)
  ultimately show ?thesis by (simp add: ep_wf_def)
qed (use assms in \<open>simp add: ep_entry_ref_def\<close>)

lemma ep_claim_entry: "\<exists>en. e_entries (ep_claim fd s) fd = Some en"
  by (auto simp: ep_claim_def ep_mod_def ep_entry_ref_def split: option.split)

lemma ep_wf_claim: "ep_wf s \<Longrightarrow> ep_wf (ep_claim fd s)"
  unfolding ep_claim_def by (rule ep_wf_mod [OF ep_wf_entry_ref]) (auto simp: ep_active_def ep_ctx_of_def split: poll_kind.splits)

lemma ctl_add_cases:
  assumes "ctl_add x ev p s = (ok, t)"
  obtains cs where "ok" "x \<noteq> -1" "k_interest s x = None" "t = s\<lparr>k_ctl := cs, k_interest := (k_interest s)(x \<mapsto> (ev, p))\<rparr>"
  | cs where "\<not> ok" "t = s\<lparr>k_ctl := cs\<rparr>"
proof (cases "x = -1 \<or> k_interest s x \<noteq> None")
  case True
  then have "ctl_add x ev p s = (False, s)" unfolding ctl_add_def by (rule if_P)
  then show ?thesis using assms that(2) [of "k_ctl s"] by simp
next
  case False
  then have "ctl_add x ev p s = (let (ok, s) = next_ctl s in if ok then (True, s\<lparr>k_interest := (k_interest s)(x \<mapsto> (ev, p))\<rparr>) else (False, s))"
    unfolding ctl_add_def by (rule if_not_P)
  moreover obtain b cs where "next_ctl s = (b, s\<lparr>k_ctl := cs\<rparr>)"
  proof (cases "k_ctl s")
    case Nil
    then have "next_ctl s = (True, s\<lparr>k_ctl := []\<rparr>)" by (cases s) (simp add: next_ctl_def)
    then show ?thesis by (rule that)
  next
    case (Cons b bs)
    then have "next_ctl s = (b, s\<lparr>k_ctl := bs\<rparr>)" by (simp add: next_ctl_def)
    then show ?thesis by (rule that)
  qed
  ultimately have r: "(ok, t) = (if b then (True, s\<lparr>k_ctl := cs, k_interest := (k_interest s)(x \<mapsto> (ev, p))\<rparr>) else (False, s\<lparr>k_ctl := cs\<rparr>))"
    using assms by simp
  show ?thesis
  proof (cases b)
    case True
    then have "ok" "t = s\<lparr>k_ctl := cs, k_interest := (k_interest s)(x \<mapsto> (ev, p))\<rparr>" using r by simp_all
    moreover have "x \<noteq> -1" "k_interest s x = None" using False by blast+
    ultimately show ?thesis by (intro that(1))
  next
    case False
    then have "\<not> ok" "t = s\<lparr>k_ctl := cs\<rparr>" using r by simp_all
    then show ?thesis by (rule that(2))
  qed
qed

text \<open>Adding a context to the interest list and marking it active.\<close>

lemma ep_wf_register:
  assumes wf: "ep_wf s" and fd: "e_entries s fd = Some en" and k: "k = Read \<or> k = Write" "k = Read \<Longrightarrow> x = fd"
    and x: "ec_fd (ep_ctx_of k en) = x"
    and add: "ctl_add x ev (Ptr_ctx (ee_node en) k) s = (True, t)"
    and u: "u = ep_mod fd (\<lambda>en. if k = Read then en\<lparr>ee_read_active := True\<rparr> else en\<lparr>ee_write_active := True\<rparr>) t"
  shows "ep_wf u"
proof -
  obtain cs where K: "k_interest s x = None" "x \<noteq> -1" and t': "t = s\<lparr>k_ctl := cs, k_interest := (k_interest s)(x \<mapsto> (ev, Ptr_ctx (ee_node en) k))\<rparr>"
    using add by (rule ctl_add_cases) blast+
  have t: "e_entries t = e_entries s" "e_nodes t = e_nodes s" "e_next_node t = e_next_node s"
    "k_interest t = (k_interest s)(x \<mapsto> (ev, Ptr_ctx (ee_node en) k))"
    by (simp_all add: t')
  let ?en = "if k = Read then en\<lparr>ee_read_active := True\<rparr> else en\<lparr>ee_write_active := True\<rparr>"
  have na: "\<not> ep_active k en"
    using interest_okD(2) [of "k_interest s" "e_entries s" fd en k] wf fd x K by (auto simp: ep_wf_def)
  have "interest_ok ((k_interest s)(x \<mapsto> (ev, Ptr_ctx (ee_node en) k))) ((e_entries s)(fd \<mapsto> ?en))"
    by (rule interest_ok_activate) (use fd K wf k x na in \<open>auto simp: ep_wf_def ep_active_def ep_ctx_of_def split: poll_kind.splits\<close>)
  moreover have "nodes_ok (e_nodes s) (e_next_node s) ((e_entries s)(fd := map_option (\<lambda>_. ?en) (e_entries s fd)))"
    by (rule nodes_ok_mod) (use wf fd in \<open>auto simp: ep_wf_def\<close>)
  ultimately show ?thesis using fd unfolding u by (simp add: ep_wf_def ep_mod_def t)
qed

lemma ctl_add_False: "ctl_add x ev p s = (False, t) \<Longrightarrow> ep_wf t = ep_wf s"
  by (erule ctl_add_cases) simp_all

lemma ep_wf_dup [simp]: "ep_wf (s\<lparr>k_dup := v\<rparr>) = ep_wf s" "ep_wf (s\<lparr>k_opened := v'\<rparr>) = ep_wf s"
  by (simp_all add: ep_wf_def)

lemma ep_wf_add_read:
  assumes "ep_wf s"
  shows "ep_wf (snd (ep_add_read fd events cb s))"
proof -
  let ?s1 = "ep_claim fd s"
  let ?s2 = "ep_mod fd (\<lambda>en. en\<lparr>ee_read := \<lparr>ec_fd = fd, ec_events = events, ec_cb = cb\<rparr>\<rparr>) ?s1"
  obtain en where en: "e_entries ?s1 fd = Some en" using ep_claim_entry [of fd s] by blast
  have w1: "ep_wf ?s1" using ep_wf_claim [OF assms] .
  have w2: "ep_wf ?s2"
    by (rule ep_wf_mod [OF w1])
      (use interest_okD(3) [of "k_interest ?s1" "e_entries ?s1" fd] w1 in
        \<open>auto simp: ep_wf_def ep_active_def ep_ctx_of_def split: poll_kind.splits\<close>)
  obtain ok t where t: "ctl_add fd events (Ptr_ctx (ee_node en) Read) ?s2 = (ok, t)" by fastforce
  have e2: "e_entries ?s2 fd = Some (en\<lparr>ee_read := \<lparr>ec_fd = fd, ec_events = events, ec_cb = cb\<rparr>\<rparr>)" using en by (simp add: ep_mod_def)
  have eq: "snd (ep_add_read fd events cb s) = (if ok then ep_mod fd (\<lambda>en. en\<lparr>ee_read_active := True\<rparr>) t else t)"
    by (simp add: ep_add_read_def Let_def en t)
  show ?thesis
  proof (cases ok)
    case True
    then show ?thesis unfolding eq
      by (intro ep_wf_register [OF w2 e2, of Read fd events t]) (use t in \<open>simp_all add: ep_ctx_of_def\<close>)
  next
    case False
    then have "ep_wf t = ep_wf ?s2" using ctl_add_False [of fd events _ ?s2 t] t by simp
    then show ?thesis using w2 False unfolding eq by simp
  qed
qed

lemma ep_wf_add_write:
  assumes "ep_wf s"
  shows "ep_wf (snd (ep_add_write fd cb s))"
proof -
  let ?s1 = "ep_claim fd s"
  obtain en where en: "e_entries ?s1 fd = Some en" using ep_claim_entry [of fd s] by blast
  have w1: "ep_wf ?s1" using ep_wf_claim [OF assms] .
  obtain d s2 where s2: "ep_write_fd en ?s1 = (d, s2)" by fastforce
  have w2: "ep_wf s2" "e_entries s2 = e_entries ?s1"
    using s2 w1 by (auto simp: ep_write_fd_def ep_dup_def split: if_splits list.splits)
  have act: "ec_fd (ee_write en) = d" if "ee_write_active en"
  proof -
    have "ec_fd (ee_write en) \<noteq> -1"
      using interest_okD(2) [of "k_interest ?s1" "e_entries ?s1" fd en Write] interest_okD(4) [of "k_interest ?s1" "e_entries ?s1"] w1 en that
      by (auto simp: ep_wf_def ep_active_def ep_ctx_of_def)
    then show ?thesis using s2 by (simp add: ep_write_fd_def)
  qed
  let ?s3 = "ep_mod fd (\<lambda>en. en\<lparr>ee_write := (ee_write en)\<lparr>ec_fd := d\<rparr>\<rparr>) s2"
  have w3: "ep_wf ?s3"
    by (rule ep_wf_mod [OF w2(1)]) (use en w2(2) act in \<open>auto simp: ep_active_def ep_ctx_of_def split: poll_kind.splits\<close>)
  show ?thesis
  proof (cases "d = -1")
    case True
    then show ?thesis using w3 by (simp add: ep_add_write_def Let_def en s2)
  next
    case False
    let ?f = "\<lambda>en. en\<lparr>ee_write := \<lparr>ec_fd = d, ec_events = 0, ec_cb = cb\<rparr>\<rparr>"
    let ?s4 = "ep_mod fd ?f ?s3"
    have e3: "e_entries ?s3 fd = Some (en\<lparr>ee_write := (ee_write en)\<lparr>ec_fd := d\<rparr>\<rparr>)" using en w2(2) by (simp add: ep_mod_def)
    have w4: "ep_wf ?s4"
      by (rule ep_wf_mod [OF w3]) (use e3 in \<open>auto simp: ep_active_def ep_ctx_of_def split: poll_kind.splits\<close>)
    have e4: "e_entries ?s4 fd = Some (?f en)" using en w2(2) by (simp add: ep_mod_def)
    obtain ok t where t: "ctl_add d 0 (Ptr_ctx (ee_node en) Write) ?s4 = (ok, t)" by fastforce
    have eq: "snd (ep_add_write fd cb s) = (if ok then ep_mod fd (\<lambda>en. en\<lparr>ee_write_active := True\<rparr>) t else t)"
      using False by (simp add: ep_add_write_def Let_def en s2 t)
    show ?thesis
    proof (cases ok)
      case True
      then show ?thesis unfolding eq
        by (intro ep_wf_register [OF w4 e4, of Write d 0 t]) (use t in \<open>simp_all add: ep_ctx_of_def\<close>)
    next
      case False
      then have "ep_wf t = ep_wf ?s4" using ctl_add_False [of d 0 _ ?s4 t] t by simp
      then show ?thesis using w4 False unfolding eq by simp
    qed
  qed
qed

lemma ep_wf_deregister:
  assumes wf: "ep_wf s" and fd: "e_entries s fd = Some en" "ep_active k en"
    and en': "ee_node en' = ee_node en" "\<And>k'. ep_active k' en' = (k' \<noteq> k \<and> ep_active k' en)"
      "\<And>k'. k' \<noteq> k \<Longrightarrow> ep_active k' en \<Longrightarrow> ec_fd (ep_ctx_of k' en') = ec_fd (ep_ctx_of k' en)"
    and t: "e_nodes t = e_nodes s" "e_next_node t = e_next_node s" "e_entries t = (e_entries s)(fd \<mapsto> en')"
      "k_interest t = (k_interest s)(ec_fd (ep_ctx_of k en) := None)"
  shows "ep_wf t"
proof -
  have N: "nodes_ok (e_nodes s) (e_next_node s) (e_entries s)" and I: "interest_ok (k_interest s) (e_entries s)" using wf by (simp_all add: ep_wf_def)
  have "interest_ok (k_interest t) (e_entries t)" unfolding t
    by (rule interest_ok_deactivate [OF I N fd en'])
  moreover have "nodes_ok (e_nodes t) (e_next_node t) (e_entries t)"
    using nodes_ok_mod [OF N, of fd "\<lambda>_. en'"] fd(1) en'(1) by (simp add: t)
  ultimately show ?thesis by (simp add: ep_wf_def)
qed

lemma ep_wf_rem_read:
  assumes "ep_wf s"
  shows "ep_wf (snd (ep_rem_read fd s))"
proof (cases "e_entries s fd")
  case (Some en)
  let ?f = "\<lambda>en. en\<lparr>ee_read := (ee_read en)\<lparr>ec_fd := -1, ec_cb := None\<rparr>, ee_read_active := False\<rparr>"
  have "ep_wf (ep_mod fd ?f (ctl_del (ec_fd (ee_read en)) s))" if "ee_read_active en"
    by (rule ep_wf_deregister [OF assms Some, of Read "?f en"])
      (use that Some in \<open>auto simp: ep_mod_def ctl_del_def ep_active_def ep_ctx_of_def split: poll_kind.splits\<close>)
  then show ?thesis using Some assms by (simp add: ep_rem_read_def Let_def)
qed (use assms in \<open>simp add: ep_rem_read_def\<close>)

lemma ep_wf_rem_write:
  assumes "ep_wf s"
  shows "ep_wf (snd (ep_rem_write fd s))"
proof (cases "e_entries s fd")
  case (Some en)
  let ?f = "\<lambda>en. en\<lparr>ee_write := (ee_write en)\<lparr>ec_fd := -1, ec_cb := None\<rparr>, ee_write_active := False\<rparr>"
  have "ep_wf (ep_mod fd ?f (ep_close (ec_fd (ee_write en)) (ctl_del (ec_fd (ee_write en)) s)))" if "ee_write_active en"
    by (rule ep_wf_deregister [OF assms Some, of Write "?f en"])
      (use that Some in \<open>auto simp: ep_mod_def ctl_del_def ep_close_def ep_active_def ep_ctx_of_def split: poll_kind.splits\<close>)
  then show ?thesis using Some assms by (simp add: ep_rem_write_def Let_def)
qed (use assms in \<open>simp add: ep_rem_write_def\<close>)

text \<open>Changing the events of a registration keeps its pointer.\<close>

lemma interest_ok_events:
  assumes "interest_ok K E" "\<And>x. map_option snd (K' x) = map_option snd (K x)"
  shows "interest_ok K' E"
proof -
  have eq: "(\<exists>ev. K' x = Some (ev, p)) \<longleftrightarrow> (\<exists>ev. K x = Some (ev, p))" for x p
    using assms(2) [of x] by (cases "K x"; cases "K' x") auto
  have n: "K' (-1) = None" using assms interest_okD(4) [OF assms(1)] by (metis map_option_is_None)
  show ?thesis unfolding interest_ok_def
  proof (intro conjI allI impI n)
    fix x ev n k assume "K' x = Some (ev, Ptr_ctx n k)"
    then obtain ev' where "K x = Some (ev', Ptr_ctx n k)" using eq by blast
    then show "\<exists>fd en. E fd = Some en \<and> ee_node en = n \<and> ep_active k en \<and> ec_fd (ep_ctx_of k en) = x"
      by (rule interest_okD(1) [OF assms(1)])
  next
    fix fd en k assume "E fd = Some en" "ep_active k en"
    then show "\<exists>ev. K' (ec_fd (ep_ctx_of k en)) = Some (ev, Ptr_ctx (ee_node en) k)"
      unfolding eq by (rule interest_okD(2) [OF assms(1)])
  next
    fix fd en assume "E fd = Some en" "ee_read_active en"
    then show "ec_fd (ee_read en) = fd" by (rule interest_okD(3) [OF assms(1)])
  qed
qed

lemma ctl_mod_same:
  assumes "map_option snd (k_interest s x) = Some p"
  shows "map_option snd (k_interest (snd (ctl_mod x ev p s)) y) = map_option snd (k_interest s y)"
    "e_entries (snd (ctl_mod x ev p s)) = e_entries s" "e_nodes (snd (ctl_mod x ev p s)) = e_nodes s"
    "e_next_node (snd (ctl_mod x ev p s)) = e_next_node s"
  using assms by (auto simp: ctl_mod_def next_ctl_def split: list.split)

lemma ep_wf_req_write:
  assumes "ep_wf s"
  shows "ep_wf (snd (ep_req_write fd ev s))"
proof (cases "e_entries s fd")
  case (Some en)
  show ?thesis
  proof (cases "ee_write_active en \<and> ec_fd (ee_write en) \<noteq> -1")
    case True
    let ?s = "ep_mod fd (\<lambda>en. en\<lparr>ee_write := (ee_write en)\<lparr>ec_events := ev\<rparr>\<rparr>) s"
    have w: "ep_wf ?s" by (rule ep_wf_mod [OF assms]) (auto simp: ep_active_def ep_ctx_of_def split: poll_kind.splits)
    have "map_option snd (k_interest ?s (ec_fd (ee_write en))) = Some (Ptr_ctx (ee_node en) Write)"
      using interest_okD(2) [of "k_interest s" "e_entries s" fd en Write] assms Some True
      by (auto simp: ep_wf_def ep_active_def ep_ctx_of_def ep_mod_def)
    note C = ctl_mod_same [OF this, of ev]
    let ?t = "snd (ctl_mod (ec_fd (ee_write en)) ev (Ptr_ctx (ee_node en) Write) ?s)"
    have "ep_wf ?t"
      using w interest_ok_events [where K = "k_interest ?s" and K' = "k_interest ?t" and E = "e_entries ?s"] C by (simp add: ep_wf_def)
    then show ?thesis using Some True by (simp add: ep_req_write_def)
  next
    case False
    then show ?thesis using Some assms by (auto simp: ep_req_write_def)
  qed
qed (use assms in \<open>simp add: ep_req_write_def\<close>)

lemma ep_wf_exec:
  assumes "keeps (\<lambda>s t. ep_wf s \<longrightarrow> ep_wf t) call" "ep_wf s"
  shows "ep_wf (the_state (ep_exec call th a s))"
  by (rule ep_exec_cases)
    (use assms ep_wf_add_read ep_wf_add_write ep_wf_rem_read ep_wf_rem_write ep_wf_req_write in \<open>auto simp: keeps_def\<close>)

interpretation epw: epoll_relation "\<lambda>s t. ep_wf s \<longrightarrow> ep_wf t"
  by unfold_locales (auto simp: ep_wf_exec ep_wf_rem_read ep_wf_rem_write)


section \<open>Nodes are erased only between batches\<close>

lemma e_nodes_ctl: "e_nodes (snd (ctl_add x ev p s)) = e_nodes s" "e_nodes (snd (ctl_mod x ev p s)) = e_nodes s"
  by (auto simp: ctl_add_def ctl_mod_def next_ctl_def split: list.split)

lemma e_nodes_prims:
  "e_nodes (snd (ep_add_read fd ev cb s)) = e_nodes (ep_entry_ref fd s)"
  "e_nodes (snd (ep_add_write fd cb s)) = e_nodes (ep_entry_ref fd s)"
  "e_nodes (snd (ep_rem_read fd s)) = e_nodes s" "e_nodes (snd (ep_rem_write fd s)) = e_nodes s"
  "e_nodes (snd (ep_req_write fd ev s)) = e_nodes s" "e_nodes (ep_wake_up cb' s) = e_nodes s"
  "e_nodes (ep_resume_wake_up s) = e_nodes s"
proof -
  have m: "e_nodes (ep_mod fd f s) = e_nodes s" for fd f s by (simp add: ep_mod_def)
  have c: "e_nodes t = e_nodes s" if "ctl_add x ev p s = (ok, t)" for x ev p s ok t using e_nodes_ctl(1) [of x ev p s] that by simp
  have w: "e_nodes t = e_nodes s" if "ep_write_fd en s = (d, t)" for en s d t
    using that by (auto simp: ep_write_fd_def ep_dup_def split: if_splits list.splits)
  show "e_nodes (snd (ep_add_read fd ev cb s)) = e_nodes (ep_entry_ref fd s)"
    by (auto simp: ep_add_read_def Let_def m ep_claim_def split: prod.split dest!: c)
  show "e_nodes (snd (ep_add_write fd cb s)) = e_nodes (ep_entry_ref fd s)"
    by (auto simp: ep_add_write_def Let_def m ep_claim_def split: prod.split dest!: c w)
  show "e_nodes (snd (ep_rem_read fd s)) = e_nodes s" "e_nodes (snd (ep_rem_write fd s)) = e_nodes s"
    by (auto simp: ep_rem_read_def ep_rem_write_def Let_def m ep_note_idle_def ctl_del_def ep_close_def split: option.split)
  show "e_nodes (snd (ep_req_write fd ev s)) = e_nodes s"
    by (auto simp: ep_req_write_def m e_nodes_ctl split: option.split)
  show "e_nodes (ep_wake_up cb' s) = e_nodes s" "e_nodes (ep_resume_wake_up s) = e_nodes s"
    by (simp_all add: ep_wake_defs split: option.split prod.split)
qed

text \<open>A well-formed reactor stays well-formed and keeps its nodes.\<close>

definition ep_kept :: "epoll_reactor \<Rightarrow> epoll_reactor \<Rightarrow> bool" where
  "ep_kept s t \<longleftrightarrow> (ep_wf s \<longrightarrow> ep_wf t \<and> (\<forall>n. e_nodes s n \<noteq> None \<longrightarrow> e_nodes t n \<noteq> None))"

lemma ep_kept_trans: "ep_kept s t \<Longrightarrow> ep_kept t u \<Longrightarrow> ep_kept s u"
  unfolding ep_kept_def by blast

lemma entry_ref_nodes: "e_nodes s n \<noteq> None \<Longrightarrow> e_nodes (ep_entry_ref fd s) n \<noteq> None"
  by (auto simp: ep_entry_ref_def split: option.split)

lemma ep_kept_exec:
  assumes "keeps ep_kept call"
  shows "ep_kept s (the_state (ep_exec call th a s))"
proof (rule ep_exec_cases [where P = "ep_kept s"])
  show "ep_kept s (the_state (call c t))" if "ep_kept s t" for c t
    using that keeps_imp [OF assms, of t c] by (rule ep_kept_trans)
qed (auto simp: ep_kept_def e_nodes_prims ep_wf_add_read ep_wf_add_write ep_wf_rem_read ep_wf_rem_write ep_wf_req_write
    intro: entry_ref_nodes [simplified])

interpretation epk: epoll_relation ep_kept
  by unfold_locales
    (auto simp: ep_kept_exec, auto simp: ep_kept_def e_nodes_prims ep_wf_rem_read ep_wf_rem_write)

lemma ep_wf_cleanup_fd:
  assumes "ep_wf s"
  shows "ep_wf (ep_cleanup_fd fd s)"
proof (cases "e_entries s fd")
  case (Some en)
  show ?thesis
  proof (cases "ee_read_active en \<or> ee_write_active en")
    case False
    then have na: "\<not> ep_active k en" for k by (auto simp: ep_active_def split: poll_kind.splits)
    have N: "nodes_ok (e_nodes s) (e_next_node s) (e_entries s)" and I: "interest_ok (k_interest s) (e_entries s)" using assms by (simp_all add: ep_wf_def)
    let ?N = "(e_nodes s)(ee_node en := None)" and ?E = "(e_entries s)(fd := None)"
    have "nodes_ok ?N (e_next_node s) ?E"
      unfolding nodes_ok_def
    proof (intro conjI allI impI)
      fix n fd'
      have iff: "e_nodes s n = Some fd' \<longleftrightarrow> (\<exists>e. e_entries s fd' = Some e \<and> ee_node e = n)" using N unfolding nodes_ok_def by blast
      show "?N n = Some fd' \<longleftrightarrow> (\<exists>e. ?E fd' = Some e \<and> ee_node e = n)"
      proof (cases "n = ee_node en")
        case True
        then have "e_entries s fd' = Some e \<Longrightarrow> ee_node e = n \<Longrightarrow> fd' = fd" for e using nodes_unique [OF N Some, of fd' e] by simp
        then show ?thesis using True by auto
      next
        case False
        then have "(\<exists>e. ?E fd' = Some e \<and> ee_node e = n) \<longleftrightarrow> (\<exists>e. e_entries s fd' = Some e \<and> ee_node e = n)" using Some by auto
        then show ?thesis using False iff by simp
      qed
      show "n < e_next_node s" if "?N n \<noteq> None" using N that unfolding nodes_ok_def by (auto split: if_splits)
    qed
    moreover have "interest_ok (k_interest s) ?E"
      unfolding interest_ok_def
    proof (intro conjI allI impI)
      fix x ev n k assume "k_interest s x = Some (ev, Ptr_ctx n k)"
      then obtain fd' e where e: "e_entries s fd' = Some e" "ee_node e = n" "ep_active k e" "ec_fd (ep_ctx_of k e) = x"
        using interest_okD(1) [OF I] by blast
      then have "?E fd' = Some e" using Some na by auto
      then show "\<exists>fd' e. ?E fd' = Some e \<and> ee_node e = n \<and> ep_active k e \<and> ec_fd (ep_ctx_of k e) = x" using e by blast
    qed (use interest_okD(2-4) [OF I] in \<open>auto split: if_splits\<close>)
    ultimately show ?thesis using Some False by (simp add: ep_cleanup_fd_def ep_wf_def ep_close_def Let_def)
  qed (use Some assms in \<open>auto simp: ep_cleanup_fd_def\<close>)
qed (use assms in \<open>simp add: ep_cleanup_fd_def\<close>)

lemma ep_wf_cleanup: "ep_wf s \<Longrightarrow> ep_wf (ep_cleanup s)"
  unfolding ep_cleanup_def using fold_inv [where I = ep_wf and f = ep_cleanup_fd] ep_wf_cleanup_fd by simp

lemma ep_wf_disarm [simp]: "ep_wf (ep_disarm ready s) = ep_wf s"
proof -
  have "map_option snd (ep_disarm_fd fd K x) = map_option snd (K x)" for fd K x
    by (auto simp: ep_disarm_fd_def split: option.split)
  then have "map_option snd (fold ep_disarm_fd fds K x) = map_option snd (K x)" for fds K x
    by (induction fds arbitrary: K) auto
  then have "map_option snd (k_interest (ep_disarm ready s) x) = map_option snd (k_interest s x)" for x
    by (simp add: ep_disarm_def)
  then have "interest_ok (k_interest (ep_disarm ready s)) (e_entries s) = interest_ok (k_interest s) (e_entries s)"
    using interest_ok_events [where K = "k_interest s" and K' = "k_interest (ep_disarm ready s)"]
      interest_ok_events [where K' = "k_interest s" and K = "k_interest (ep_disarm ready s)"] by auto
  then show ?thesis by (simp add: ep_wf_def ep_disarm_def)
qed

section \<open>Faults\<close>

definition no_dangling :: "('s, 'a) result \<Rightarrow> bool" where
  "no_dangling r \<longleftrightarrow> (case r of Ok _ _ \<Rightarrow> True | Throw e _ \<Rightarrow> e \<noteq> Dangling_pointer)"

lemma no_dangling_simps [simp]: "no_dangling (Ok a s)" "no_dangling (Throw e s) \<longleftrightarrow> e \<noteq> Dangling_pointer"
  by (simp_all add: no_dangling_def)

lemma no_dangling_bind: "no_dangling r \<Longrightarrow> (\<And>a s. r = Ok a s \<Longrightarrow> no_dangling (f a s)) \<Longrightarrow> no_dangling (rbind r f)"
  by (cases r) auto

lemma no_dangling_rfold: "(\<And>x s. no_dangling (f x s)) \<Longrightarrow> no_dangling (rfold f xs s)"
  by (induction xs arbitrary: s) (auto intro: no_dangling_bind)

lemma no_dangling_queue: "no_dangling (circular_push v q)" "no_dangling (circular_pop q)" "no_dangling (wait_us d cb now t)"
  "no_dangling (set_capacity sz alloc_ok n q)"
  by (auto simp: circular_push_def circular_pop_def wait_us_def set_capacity_def no_dangling_def Let_def split: option.splits result.splits prod.splits)

lemma no_dangling_exec:
  assumes "\<And>c s. no_dangling (call c s)"
  shows "no_dangling (ep_exec call th a s)"
proof (cases a)
  case (Queue_push q v)
  then show ?thesis using no_dangling_queue(1) [of v "e_user_queues s q"]
    by (auto simp: ep_queue_push_def Let_def split: result.split prod.split)
next
  case (Queue_set_capacity q n ok)
  then show ?thesis using no_dangling_queue(4) [of 16 "\<lambda>_. ok" n "e_user_queues s q"] by (auto split: result.split)
next
  case (Queue_pop q)
  then show ?thesis using no_dangling_queue(2) [of "e_user_queues s q"] by (auto split: result.split)
next
  case (Timer_wait d cb now)
  then show ?thesis using no_dangling_queue(3) [of d cb now "e_timer s"] by (auto split: result.split)
qed (use assms in \<open>auto simp: ep_rem_read_rdy_def ep_rem_write_rdy_def ep_done_def split: option.split\<close>)

lemma no_dangling_call: "no_dangling (ep_call d prog th c s)"
proof (induction d arbitrary: c s)
  case (Suc d)
  then show ?case by (auto intro!: no_dangling_rfold no_dangling_exec)
qed simp


lemma ep_deref_live:
  assumes "ep_wf s" "e_nodes s n \<noteq> None"
  shows "ep_deref n k s \<noteq> None"
proof -
  obtain fd where fd: "e_nodes s n = Some fd" using assms(2) by auto
  then obtain en where "e_entries s fd = Some en" using assms(1) unfolding ep_wf_def nodes_ok_def by blast
  then show ?thesis using fd by (simp add: ep_deref_def)
qed

lemma dispatch_safe:
  assumes call: "keeps ep_kept call" "\<And>c s. no_dangling (call c s)"
  shows "ep_wf s \<Longrightarrow> (\<And>n k. Ptr_ctx n k \<in> set evs \<Longrightarrow> e_nodes s n \<noteq> None) \<Longrightarrow>
    no_dangling (rfold (ep_dispatch call) evs s) \<and> ep_wf (the_state (rfold (ep_dispatch call) evs s))"
proof (induction evs arbitrary: s)
  case (Cons p evs)
  have step: "no_dangling (ep_dispatch call p s) \<and> ep_kept s (the_state (ep_dispatch call p s))"
  proof (cases p)
    case (Ptr_ctx n k)
    then obtain ctx where "ep_deref n k s = Some ctx" using ep_deref_live [OF Cons.prems(1), of n k] Cons.prems(2) [of n k] by auto
    then show ?thesis using Ptr_ctx call keeps_imp [OF call(1)] epk.R_refl by (auto simp: ep_dispatch_def split: option.split)
  qed (simp add: ep_dispatch_def ep_kept_def)
  then have k: "ep_wf (the_state (ep_dispatch call p s))" "\<And>n. e_nodes s n \<noteq> None \<Longrightarrow> e_nodes (the_state (ep_dispatch call p s)) n \<noteq> None"
    using Cons.prems(1) by (auto simp: ep_kept_def)
  show ?case
  proof (cases "ep_dispatch call p s")
    case (Ok u t)
    have "e_nodes t n \<noteq> None" if "Ptr_ctx n k \<in> set evs" for n k
      using k(2) [of n] Cons.prems(2) [of n k] that Ok by simp
    then have "no_dangling (rfold (ep_dispatch call) evs t) \<and> ep_wf (the_state (rfold (ep_dispatch call) evs t))"
      using k(1) Ok by (intro Cons.IH) auto
    then show ?thesis using Ok by simp
  qed (use step k in simp)
qed simp

lemma events_live:
  assumes "ep_wf s" "Ptr_ctx n k \<in> set (ep_events ready s)"
  shows "e_nodes (ep_disarm ready s) n \<noteq> None"
proof -
  obtain fd ev where "k_interest s fd = Some (ev, Ptr_ctx n k)"
    using assms(2) by (auto simp: ep_events_def ep_reported_def dest!: in_set_takeD)
  then obtain fd' en where "e_entries s fd' = Some en" "ee_node en = n"
    using assms(1) interest_okD(1) unfolding ep_wf_def by blast
  then have "e_nodes s n = Some fd'" using assms(1) nodes_okD unfolding ep_wf_def by blast
  then show ?thesis by (simp add: ep_disarm_def)
qed

lemma no_dangling_notify:
  assumes "\<And>c s. no_dangling (call c s)"
  shows "no_dangling (rq_notify h call q s)"
proof -
  have "no_dangling (notify_snapshot h call es b s)" for es b s
    using assms by (induction es arbitrary: b s) (auto intro: no_dangling_bind split: option.split)
  then show ?thesis by (simp add: rq_notify_def)
qed

lemma no_dangling_phases:
  assumes c: "\<And>c s. no_dangling (call c s)"
  shows "no_dangling (ep_wake_phase call s)" "no_dangling (ep_queue_phase call s)" "no_dangling (ep_timer_phase call now s)"
proof -
  have "no_dangling (ep_call_wake call f s)" for f s
    unfolding ep_call_wake_def ep_run_removals_def Let_def ep_run_removal_def ep_done_def
    by (auto intro!: no_dangling_rfold c split: wake_fn.split option.split)
  then show "no_dangling (ep_wake_phase call s)" unfolding ep_wake_phase_def Let_def by (rule no_dangling_rfold)
  show "no_dangling (ep_queue_phase call s)"
    unfolding ep_queue_phase_def by (rule no_dangling_bind [OF no_dangling_notify [OF c]]) simp
  show "no_dangling (ep_timer_phase call now s)"
    unfolding ep_timer_phase_def schedule_def by (auto intro!: no_dangling_rfold c split: prod.split option.split)
qed

text \<open>A result that has no dangling pointer and ends well-formed.\<close>

definition ep_safe :: "(epoll_reactor, 'a) result \<Rightarrow> bool" where
  "ep_safe r \<longleftrightarrow> no_dangling r \<and> ep_wf (the_state r)"

lemma ep_safe_bind: "ep_safe r \<Longrightarrow> (\<And>a s. ep_wf s \<Longrightarrow> ep_safe (f a s)) \<Longrightarrow> ep_safe (rbind r f)"
  by (cases r) (auto simp: ep_safe_def)

lemma ep_safe_kept: "no_dangling r \<Longrightarrow> ep_wf s \<longrightarrow> ep_wf (the_state r) \<Longrightarrow> ep_wf s \<Longrightarrow> ep_safe r"
  by (simp add: ep_safe_def)

lemma ep_iteration_safe:
  assumes "ep_wf s"
  shows "ep_safe (ep_iteration (ep_call d prog th) env s)"
proof -
  let ?call = "ep_call d prog th"
  have W: "ep_wf t" if "ep_wf s" "ep_wf s \<longrightarrow> ep_wf t" for s t using that by blast
  note nd = no_dangling_call [of d prog th]
  note F = W [OF _ epw.R_foreign [OF epw.R_call]]
  have serve: "ep_safe (ep_serve ?call env ready s)" if wf: "ep_wf s" for ready s
    unfolding ep_serve_def Let_def
  proof (intro ep_safe_bind)
    show "ep_safe (rfold (ep_dispatch ?call) (ep_events ready s) (ep_disarm ready s))"
      using dispatch_safe [OF epk.R_call nd, of "ep_disarm ready s" "ep_events ready s"] events_live [OF wf] wf by (simp add: ep_safe_def)
    show "ep_safe (ep_wake_phase ?call (ep_foreign ?call (ep_before_wake env) t))" if "ep_wf t" for t
      by (rule ep_safe_kept [OF no_dangling_phases(1) [OF nd] epw.R_wake_phase [OF epw.R_call] F [OF that]])
    show "ep_safe (ep_queue_phase ?call (ep_foreign ?call (ep_before_queues env) t))" if "ep_wf t" for t
      by (rule ep_safe_kept [OF no_dangling_phases(2) [OF nd] epw.R_queue_phase [OF epw.R_call] F [OF that]])
    show "ep_safe (ep_timer_phase ?call (ep_now_after env) (ep_foreign ?call (ep_before_timers env) (ep_cleanup t)))" if "ep_wf t" for t
      by (rule ep_safe_kept [OF no_dangling_phases(3) [OF nd] epw.R_timer_phase [OF epw.R_call] F [OF ep_wf_cleanup [OF that]]])
  qed
  show ?thesis unfolding ep_iteration_def Let_def
  proof (rule ep_safe_bind)
    show "ep_safe (ep_timeout (ep_now_before env) s)"
      using assms by (auto simp: ep_safe_def ep_timeout_def Let_def split: option.split)
    fix a t assume "ep_wf t"
    then have "ep_wf (ep_foreign ?call (ep_during_wait env) t)" by (rule F)
    then show "ep_safe (case ep_waited env of
        Ep_error e \<Rightarrow> (if EINTR \<noteq> e then Throw (Runtime_error e) (ep_foreign ?call (ep_during_wait env) t)
          else Ok () (ep_foreign ?call (ep_during_wait env) t))
      | Ep_ready ready \<Rightarrow> ep_serve ?call env ready (ep_foreign ?call (ep_during_wait env) t))"
      using serve by (auto simp: ep_safe_def split: ep_wait_result.split)
  qed
qed

lemma ep_loop_safe: "ep_wf s \<Longrightarrow> ep_safe (ep_loop (ep_call d prog th) envs s)"
proof (induction envs arbitrary: s)
  case Nil
  then show ?case by (subst ep_loop.simps) (simp add: ep_safe_def)
next
  case (Cons env envs)
  have "ep_safe (rbind (ep_iteration (ep_call d prog th) env s) (\<lambda>_. ep_loop (ep_call d prog th) envs))"
    by (rule ep_safe_bind [OF ep_iteration_safe [OF Cons.prems]]) (rule Cons.IH)
  then show ?case using Cons.prems by (subst ep_loop.simps) (simp add: ep_safe_def)
qed

lemma ep_new_wf:
  assumes "ep_new create evfd ctl (ep_init cache ctls dups qs ps) = Ok () s" "evfd \<noteq> Inr (-1)"
  shows "ep_wf s"
proof -
  obtain a b where ab: "create = Inr a" "evfd = Inr b" "ctl = None" "b \<noteq> -1"
    using assms by (auto simp: ep_new_def Let_def split: sum.splits option.splits)
  then have s: "e_nodes s = Map.empty" "e_entries s = Map.empty" "k_interest s = [b \<mapsto> (EPOLLIN, Ptr_event_fd)]"
    using assms(1) by (auto simp: ep_new_def ep_init_def Let_def)
  show ?thesis unfolding ep_wf_def nodes_ok_def interest_ok_def s using ab(4) by auto
qed

section \<open>Properties\<close>

text \<open>C9. The reactor never dereferences a pointer to an erased registration: whatever callbacks do (adding,
  removing and re-adding descriptors from inside callbacks included) and whatever descriptors the kernel
  reports, every event of a batch leads to a context that is still in the map, because entries are
  erased only after the batch.\<close>

theorem epoll_pointers_stay_valid:
  assumes "ep_new create evfd ctl (ep_init cache ctls dups qs ps) = Ok () s0" "evfd \<noteq> Inr (-1)"
    and "s = ep_foreign (ep_call d prog th) calls s0"
  shows "no_dangling (ep_run d prog th envs s) \<and> ep_wf (the_state (ep_run d prog th envs s))"
proof -
  have "ep_wf s0 \<longrightarrow> ep_wf s" unfolding assms(3) by (rule epw.R_foreign [OF epw.R_call])
  then have "ep_safe (ep_run d prog th envs s)"
    unfolding ep_run_def using ep_new_wf [OF assms(1,2)] by (intro ep_loop_safe) simp
  then show ?thesis by (simp add: ep_safe_def)
qed

text \<open>Callback 0 of descriptor 3 removes both descriptors; descriptor 4 is ready in the same batch.\<close>

definition ep_demo_prog :: ep_program where
  "ep_demo_prog c s = (if c = 0 then [Rem_read_rdy 3 None, Rem_read_rdy 4 None, Stop] else [Raise 1])"

definition ep_demo_env :: ep_environment where
  "ep_demo_env = \<lparr>ep_now_before = 0, ep_during_wait = [], ep_waited = Ep_ready [3, 4], ep_before_wake = [], ep_before_queues = [],
     ep_before_timers = [], ep_now_after = 0\<rparr>"

definition ep_demo :: epoll_reactor where
  "ep_demo = the_state (ep_new (Inr 10) (Inr 11) None (ep_init 64 [] [] (\<lambda>_. circular_queue_new) []))"

definition ep_demo_calls :: "(nat \<times> action) list" where
  "ep_demo_calls = [(1, Add_read_rdy 3 (Some 0)), (1, Add_read_rdy 4 (Some 1))]"

lemma ep_demo_new: "ep_new (Inr 10) (Inr 11) None (ep_init 64 [] [] (\<lambda>_. circular_queue_new) []) = Ok () ep_demo"
  by (simp add: ep_demo_def ep_new_def Let_def)

theorem epoll_pointers_stay_valid_witness:
  "ep_events [3, 4] (ep_foreign (ep_call 1 ep_demo_prog 1) ep_demo_calls ep_demo) = [Ptr_ctx 0 Read, Ptr_ctx 1 Read] \<and>
   no_dangling (ep_run 1 ep_demo_prog 1 [ep_demo_env] (ep_foreign (ep_call 1 ep_demo_prog 1) ep_demo_calls ep_demo))"
proof
  show "ep_events [3, 4] (ep_foreign (ep_call 1 ep_demo_prog 1) ep_demo_calls ep_demo) = [Ptr_ctx 0 Read, Ptr_ctx 1 Read]"
    by code_simp
  show "no_dangling (ep_run 1 ep_demo_prog 1 [ep_demo_env] (ep_foreign (ep_call 1 ep_demo_prog 1) ep_demo_calls ep_demo))"
    using epoll_pointers_stay_valid [OF ep_demo_new _ refl] by simp
qed

lemma ep_add_read_cb:
  "\<exists>e. e_entries (snd (ep_add_read fd ev cb s)) fd = Some e \<and> ec_cb (ee_read e) = cb"
proof -
  obtain en where en: "e_entries (ep_claim fd s) fd = Some en" using ep_claim_entry [of fd s] by blast
  have c: "e_entries t = e_entries s" if "ctl_add x ev p s = (ok, t)" for x ev p s ok t
    using that by (rule ctl_add_cases) simp_all
  show ?thesis
    by (auto simp: ep_add_read_def Let_def ep_mod_def en split: prod.split dest!: c)
qed

text \<open>C33. An event is delivered to whatever callback its descriptor has when it is dispatched: after a callback
  of the same batch removed a descriptor and added it again, the event that was polled for the old
  registration calls the new callback. The contexts carry no generation, unlike those of the poll
  reactor.\<close>

theorem epoll_stale_event_calls_new_callback:
  assumes "ep_wf s" "e_entries s fd = Some en" "ee_read_active en" "k_interest s fd = Some (ev, p)"
  shows "ep_dispatch call p (snd (ep_add_read fd ev (Some c) (snd (ep_rem_read fd s)))) =
    call c (snd (ep_add_read fd ev (Some c) (snd (ep_rem_read fd s))))"
proof -
  let ?t = "snd (ep_rem_read fd s)"
  let ?u = "snd (ep_add_read fd ev (Some c) ?t)"
  have N: "nodes_ok (e_nodes s) (e_next_node s) (e_entries s)" and I: "interest_ok (k_interest s) (e_entries s)"
    using assms(1) by (simp_all add: ep_wf_def)
  have fd: "ec_fd (ee_read en) = fd" using interest_okD(3) [OF I assms(2,3)] .
  then have p: "p = Ptr_ctx (ee_node en) Read"
    using interest_okD(2) [OF I assms(2), of Read] assms(3,4) by (auto simp: ep_active_def ep_ctx_of_def)
  have t: "\<exists>e. e_entries ?t fd = Some e" "e_nodes ?t = e_nodes s"
    using assms(2) by (auto simp: ep_rem_read_def ep_note_idle_def ep_mod_def ctl_del_def Let_def)
  then have "\<exists>e. e_entries ?u fd = Some e \<and> ec_cb (ee_read e) = Some c" "e_nodes ?u = e_nodes s"
    using ep_add_read_cb [of fd ev "Some c" ?t] by (auto simp: e_nodes_prims ep_entry_ref_def)
  moreover have "e_nodes s (ee_node en) = Some fd" using nodes_okD [OF N assms(2)] .
  ultimately show ?thesis unfolding p by (auto simp: ep_dispatch_def ep_deref_def)
qed

lemma ep_demo_state:
  "ep_wf (ep_foreign (ep_call 1 ep_demo_prog 1) ep_demo_calls ep_demo)"
  "k_interest (ep_foreign (ep_call 1 ep_demo_prog 1) ep_demo_calls ep_demo) 3 = Some (0x2001, Ptr_ctx 0 Read)"
  "\<exists>en. e_entries (ep_foreign (ep_call 1 ep_demo_prog 1) ep_demo_calls ep_demo) 3 = Some en \<and> ee_read_active en"
proof -
  show "ep_wf (ep_foreign (ep_call 1 ep_demo_prog 1) ep_demo_calls ep_demo)"
    using epw.R_foreign [OF epw.R_call, of ep_demo 1 ep_demo_prog 1 ep_demo_calls] ep_new_wf [OF ep_demo_new] by simp
  show "k_interest (ep_foreign (ep_call 1 ep_demo_prog 1) ep_demo_calls ep_demo) 3 = Some (0x2001, Ptr_ctx 0 Read)"
    "\<exists>en. e_entries (ep_foreign (ep_call 1 ep_demo_prog 1) ep_demo_calls ep_demo) 3 = Some en \<and> ee_read_active en"
  proof -
    show "k_interest (ep_foreign (ep_call 1 ep_demo_prog 1) ep_demo_calls ep_demo) 3 = Some (0x2001, Ptr_ctx 0 Read)" by code_simp
    have "case e_entries (ep_foreign (ep_call 1 ep_demo_prog 1) ep_demo_calls ep_demo) 3 of None \<Rightarrow> False | Some en \<Rightarrow> ee_read_active en"
      by code_simp
    then show "\<exists>en. e_entries (ep_foreign (ep_call 1 ep_demo_prog 1) ep_demo_calls ep_demo) 3 = Some en \<and> ee_read_active en"
      by (auto split: option.splits)
  qed
qed

theorem epoll_stale_event_calls_new_callback_witness:
  "\<exists>s en. e_entries s 3 = Some en \<and> ep_dispatch (\<lambda>c s. Throw (Runtime_error (int c)) s) (Ptr_ctx 0 Read)
     (snd (ep_add_read 3 0x2001 (Some 9) (snd (ep_rem_read 3 s)))) =
     Throw (Runtime_error 9) (snd (ep_add_read 3 0x2001 (Some 9) (snd (ep_rem_read 3 s))))"
  using ep_demo_state(3) epoll_stale_event_calls_new_callback [OF ep_demo_state(1) _ _ ep_demo_state(2),
      where c = 9 and call = "\<lambda>c s. Throw (Runtime_error (int c)) s"]
  by auto


section \<open>Wake-ups\<close>

text \<open>The eventfd is readable, or a thread in \<open>wake_up\<close> is about to write to it.\<close>

definition ep_announced :: "epoll_reactor \<Rightarrow> bool" where
  "ep_announced s \<longleftrightarrow> 0 < k_eventfd s \<or> 0 < wt_signalling (k_threads s)"

definition ep_alert :: "epoll_reactor \<Rightarrow> bool" where
  "ep_alert s \<longleftrightarrow> (e_wake_up_cb s \<noteq> [] \<longrightarrow> ep_announced s)"

lemma ep_wake_announced: "ep_announced (ep_wake_up cb s)" "ep_announced s \<Longrightarrow> ep_announced (ep_resume_wake_up s)"
  by (auto simp: ep_announced_def ep_wake_defs split: prod.split)

text \<open>Registration of descriptors touches neither the wake-up nor the queues.\<close>

definition ep_rest :: "epoll_reactor \<Rightarrow>
    (wake_fn list \<times> nat \<times> wake_threads) \<times> nat reactor_queues \<times> (nat \<Rightarrow> nat circular_queue) \<times> bool" where
  "ep_rest s = ((e_wake_up_cb s, k_eventfd s, k_threads s), e_queues s, e_user_queues s, e_queue_backlog s)"

lemma ep_rest_steps:
  "ep_rest (snd (ctl_add x ev p s)) = ep_rest s" "ep_rest (snd (ctl_mod x ev p s)) = ep_rest s"
  "ep_rest (ep_mod fd f s) = ep_rest s" "ep_rest (ep_claim fd s) = ep_rest s"
  "ep_rest (snd (ep_write_fd en s)) = ep_rest s"
  by (auto simp: ep_rest_def ctl_add_def ctl_mod_def next_ctl_def ep_mod_def ep_claim_def ep_entry_ref_def
      ep_write_fd_def ep_dup_def split: list.split option.split)

lemma ep_rest_ops:
  "ep_rest (snd (ep_add_read fd ev cb s)) = ep_rest s"
  "ep_rest (snd (ep_add_write fd cb s)) = ep_rest s"
  "ep_rest (snd (ep_rem_read fd s)) = ep_rest s"
  "ep_rest (snd (ep_rem_write fd s)) = ep_rest s"
  "ep_rest (snd (ep_req_write fd ev s)) = ep_rest s"
proof -
  have c: "ep_rest t = ep_rest s" if "ctl_add x ev p s = (ok, t)" for x ev p s ok t
    using ep_rest_steps(1) [of x ev p s] that by simp
  have w: "ep_rest t = ep_rest s" if "ep_write_fd en s = (d, t)" for en s d t
    using ep_rest_steps(5) [of en s] that by simp
  show "ep_rest (snd (ep_add_read fd ev cb s)) = ep_rest s"
    by (auto simp: ep_add_read_def Let_def ep_rest_steps split: prod.split dest!: c)
  show "ep_rest (snd (ep_add_write fd cb s)) = ep_rest s"
    by (auto simp: ep_add_write_def Let_def ep_rest_steps split: prod.split dest!: c w)
  show "ep_rest (snd (ep_rem_read fd s)) = ep_rest s" "ep_rest (snd (ep_rem_write fd s)) = ep_rest s"
    by (auto simp: ep_rest_def ep_rem_read_def ep_rem_write_def ep_mod_def ctl_del_def ep_close_def ep_note_idle_def Let_def
        split: option.split)
  show "ep_rest (snd (ep_req_write fd ev s)) = ep_rest s"
    by (auto simp: ep_req_write_def ep_rest_steps split: option.split)
qed

lemmas ep_prims_rest =
  ep_rest_ops(1) [unfolded ep_rest_def prod.inject] ep_rest_ops(2) [unfolded ep_rest_def prod.inject]
  ep_rest_ops(3) [unfolded ep_rest_def prod.inject] ep_rest_ops(4) [unfolded ep_rest_def prod.inject]
  ep_rest_ops(5) [unfolded ep_rest_def prod.inject]

lemma ep_resume_cbs: "e_wake_up_cb (ep_resume_wake_up s) = e_wake_up_cb s"
  by (simp add: ep_wake_defs)

lemma ep_alert_exec:
  assumes "keeps (\<lambda>s t. ep_alert s \<longrightarrow> ep_alert t) call" "ep_alert s"
  shows "ep_alert (the_state (ep_exec call th a s))"
  by (rule ep_exec_cases)
    (use assms ep_wake_announced ep_resume_cbs in \<open>auto simp: keeps_def ep_alert_def ep_announced_def ep_prims_rest\<close>)

interpretation epa: epoll_relation "\<lambda>s t. ep_alert s \<longrightarrow> ep_alert t"
  by unfold_locales (auto simp: ep_alert_exec, auto simp: ep_alert_def ep_announced_def ep_prims_rest)

lemma ep_alert_cleanup: "ep_alert (ep_cleanup s) = ep_alert s"
proof -
  have "ep_alert (ep_cleanup_fd fd s) = ep_alert s" for fd s
    by (auto simp: ep_cleanup_fd_def ep_alert_def ep_announced_def ep_close_def Let_def split: option.split)
  then have "ep_alert (fold ep_cleanup_fd fds s) = ep_alert s" for fds by (induction fds arbitrary: s) auto
  moreover have "ep_alert (t\<lparr>e_pending_cleanup := []\<rparr>) = ep_alert t" for t by (simp add: ep_alert_def ep_announced_def)
  ultimately show ?thesis by (simp add: ep_cleanup_def)
qed

text \<open>After the wake-up phase the queue is empty, whatever the batch did to the eventfd.\<close>

lemma ep_alert_wake_phase: "ep_alert (the_state (ep_wake_phase (ep_call d prog th) s))"
proof -
  have "ep_alert (s\<lparr>e_wake_up_cb := []\<rparr>)" by (simp add: ep_alert_def ep_announced_def)
  moreover have "ep_alert (s\<lparr>e_wake_up_cb := []\<rparr>) \<longrightarrow> ep_alert (the_state (rfold (ep_call_wake (ep_call d prog th)) (e_wake_up_cb s) (s\<lparr>e_wake_up_cb := []\<rparr>)))"
    by (rule epa.R_rfold) (rule epa.R_call_wake [OF epa.R_call])
  ultimately show ?thesis by (simp add: ep_wake_phase_def Let_def)
qed

lemma ep_alert_serve:
  assumes "ep_serve (ep_call d prog th) env ready s = Ok u t"
  shows "ep_alert t"
proof -
  let ?call = "ep_call d prog th"
  obtain s1 s2 s3 where 1: "ep_wake_phase ?call s1 = Ok () s2"
    and 2: "ep_queue_phase ?call (ep_foreign ?call (ep_before_queues env) s2) = Ok () s3"
    and 3: "ep_timer_phase ?call (ep_now_after env) (ep_foreign ?call (ep_before_timers env) (ep_cleanup s3)) = Ok u t"
    using assms by (auto simp: ep_serve_def Let_def rbind_eq_Ok)
  have F: "ep_alert (ep_foreign ?call as s)" if "ep_alert s" for as s using epa.R_foreign [OF epa.R_call] that by blast
  have "ep_alert s2" using ep_alert_wake_phase [of d prog th s1] 1 by simp
  then have "ep_alert s3" using epa.R_queue_phase [OF epa.R_call, of "ep_foreign ?call (ep_before_queues env) s2" d prog th] F 2 by simp
  then show ?thesis
    using epa.R_timer_phase [OF epa.R_call, of "ep_foreign ?call (ep_before_timers env) (ep_cleanup s3)" d prog th "ep_now_after env"] F 3
    by (simp add: ep_alert_cleanup)
qed

lemma ep_alert_iteration:
  assumes "ep_alert s" "ep_iteration (ep_call d prog th) env s = Ok u t"
  shows "ep_alert t"
proof -
  obtain tmo s1 where s1: "ep_timeout (ep_now_before env) s = Ok tmo s1"
    using assms(2) by (auto simp: ep_iteration_def rbind_eq_Ok)
  then have "s1 = s" by (auto simp: ep_timeout_def Let_def split: option.splits if_splits)
  moreover have "ep_alert (ep_foreign (ep_call d prog th) (ep_during_wait env) s)" using epa.R_foreign [OF epa.R_call] assms(1) by blast
  ultimately show ?thesis using assms(2) s1 ep_alert_serve [of d prog th env]
    by (auto simp: ep_iteration_def Let_def split: ep_wait_result.splits if_splits)
qed

lemma ep_alert_loop: "ep_alert s \<Longrightarrow> ep_loop (ep_call d prog th) envs s = Ok b t \<Longrightarrow> ep_alert t"
proof (induction envs arbitrary: s)
  case Nil
  then show ?case by (subst (asm) ep_loop.simps) (auto simp: ep_alert_def ep_announced_def split: if_splits)
next
  case (Cons env envs)
  show ?case
  proof (cases "e_running s")
    case True
    then obtain u s1 where "ep_iteration (ep_call d prog th) env s = Ok u s1" "ep_loop (ep_call d prog th) envs s1 = Ok b t"
      using Cons.prems(2) by (subst (asm) ep_loop.simps) (auto simp: rbind_eq_Ok)
    then show ?thesis using Cons.IH ep_alert_iteration [OF Cons.prems(1)] by blast
  next
    case False
    then show ?thesis using Cons.prems by (subst (asm) ep_loop.simps) (auto simp: ep_alert_def ep_announced_def)
  qed
qed

text \<open>C31. A wake-up is not lost: whenever \<open>run\<close> is between two iterations, or has returned, with a callback queued by
  \<open>wake_up\<close> or a removal asked for from another thread, the eventfd is readable, so a wait returns at once and
  the callback runs in the next iteration, or a thread is inside \<open>wake_up\<close>, between the mutex and the write, and
  when it goes on the eventfd is readable. Threads may be preempted in any call of \<open>wake_up\<close> and for any time.\<close>

theorem epoll_wake_up_not_lost:
  assumes "ep_new create evfd ctl (ep_init cache ctls dups qs ps) = Ok () s0"
    and "ep_run d prog th envs (ep_foreign (ep_call d prog th) calls s0) = Ok b s" "e_wake_up_cb s \<noteq> []"
  shows "0 < k_eventfd s \<or> 0 < wt_signalling (k_threads s) \<and> 0 < k_eventfd (ep_resume_wake_up s)"
proof -
  have "e_wake_up_cb s0 = []"
    using assms(1) by (auto simp: ep_new_def ep_init_def Let_def split: sum.splits option.splits)
  then have "ep_alert s0" by (simp add: ep_alert_def ep_announced_def)
  then have "ep_alert (ep_foreign (ep_call d prog th) calls s0)" using epa.R_foreign [OF epa.R_call] by blast
  then have a: "ep_alert ((ep_foreign (ep_call d prog th) calls s0)\<lparr>e_thread := Some th, e_running := True\<rparr>)" by (simp add: ep_alert_def ep_announced_def)
  have "ep_alert s" by (rule ep_alert_loop [OF a assms(2) [unfolded ep_run_def]])
  then show ?thesis using assms(3) by (auto simp: ep_alert_def ep_announced_def ep_wake_defs)
qed

text \<open>Another thread asks for a removal and is preempted before it writes.\<close>

definition ep_paused :: epoll_reactor where
  "ep_paused = the_state (ep_new (Inr 10) (Inr 11) None (ep_init 64 [] [] (\<lambda>_. circular_queue_new) [True]))"

theorem epoll_wake_up_not_lost_witness:
  "\<exists>s. ep_run 1 ep_demo_prog 1 [] (ep_foreign (ep_call 1 ep_demo_prog 1) [(2, Rem_read_rdy 3 None)] ep_paused) = Ok False s \<and>
     e_wake_up_cb s = [Run_removals] \<and> k_eventfd s = 0 \<and> 0 < wt_signalling (k_threads s) \<and> 0 < k_eventfd (ep_resume_wake_up s)"
proof -
  have n: "ep_new (Inr 10) (Inr 11) None (ep_init 64 [] [] (\<lambda>_. circular_queue_new) [True]) = Ok () ep_paused"
    by (simp add: ep_paused_def ep_new_def Let_def)
  have "\<exists>s. ep_run 1 ep_demo_prog 1 [] (ep_foreign (ep_call 1 ep_demo_prog 1) [(2, Rem_read_rdy 3 None)] ep_paused) = Ok False s \<and>
     e_wake_up_cb s = [Run_removals] \<and> k_eventfd s = 0"
    by (simp add: ep_run_def ep_loop_list ep_foreign_def ep_rem_read_rdy_def ep_is_reactor_thread_def ep_paused_def ep_new_def ep_init_def
        ep_defer_removal_def ep_wake_defs preempt_def wake_threads_start_def)
  then show ?thesis using epoll_wake_up_not_lost [OF n, of 1 ep_demo_prog 1 "[]" "[(2, Rem_read_rdy 3 None)]"] by fastforce
qed

lemma ep_timeout_ms_ceil:
  assumes "0 < d"
  shows "0 \<le> ep_timeout_ms (Some (d div 1000000, d mod 1000000 * 1000)) \<and> ep_timeout_ms (Some (d div 1000000, d mod 1000000 * 1000)) \<le> INT_MAX \<and>
    (ep_timeout_ms (Some (d div 1000000, d mod 1000000 * 1000)) < INT_MAX \<longrightarrow>
      d \<le> ep_timeout_ms (Some (d div 1000000, d mod 1000000 * 1000)) * 1000 \<and>
      ep_timeout_ms (Some (d div 1000000, d mod 1000000 * 1000)) * 1000 < d + 1000)"
proof -
  let ?m = "d mod 1000000" and ?q = "d div 1000000"
  let ?r = "(?m * 1000 + 999999) div 1000000"
  have d: "d = ?q * 1000000 + ?m" "0 \<le> ?m" "0 \<le> ?q" using assms by (simp_all add: pos_imp_zdiv_nonneg_iff)
  have "?m * 1000 + 999999 = ?r * 1000000 + (?m * 1000 + 999999) mod 1000000" "0 \<le> (?m * 1000 + 999999) mod 1000000"
    "(?m * 1000 + 999999) mod 1000000 < 1000000" by simp_all
  then have "?m \<le> ?r * 1000" "?r * 1000 < ?m + 1000" "0 \<le> ?r" using d(2) by linarith+
  moreover have "d \<le> (q * 1000 + r) * 1000 \<and> (q * 1000 + r) * 1000 < d + 1000 \<and> 0 \<le> q * 1000 + r"
    if "d = q * 1000000 + m" "m \<le> r * 1000" "r * 1000 < m + 1000" "0 \<le> r" "0 \<le> q" for q m r
    using that by (auto simp: algebra_simps)
  ultimately have "d \<le> (?q * 1000 + ?r) * 1000" "(?q * 1000 + ?r) * 1000 < d + 1000" "0 \<le> ?q * 1000 + ?r" using d by blast+
  then show ?thesis by (simp add: ep_timeout_ms_def Let_def INT_MAX_def)
qed

lemma ep_timeout_cases:
  assumes "ep_timeout now s = Ok r t"
  obtains (none) "get_next_deadline_us (e_timer s) = None" "\<not> e_queue_backlog s" "r = None" "t = s"
    | (now) "r = Some (0, 0)" "t = s" "e_queue_backlog s \<or> (\<exists>d. get_next_deadline_us (e_timer s) = Some d \<and> d - now \<le> 0)"
    | (timer) d where "get_next_deadline_us (e_timer s) = Some d" "0 < d - now" "\<not> e_queue_backlog s" "t = s"
        "r = Some ((d - now) div 1000000, (d - now) mod 1000000 * 1000)"
proof (cases "get_next_deadline_us (e_timer s)")
  case None
  then have "ep_timeout now s = Ok (if e_queue_backlog s then Some (0, 0) else None) s"
    by (simp add: ep_timeout_def)
  then have "r = (if e_queue_backlog s then Some (0, 0) else None)" "t = s" using assms by auto
  then show thesis using that(1) [OF None] that(2) by (cases "e_queue_backlog s") simp_all
next
  case (Some d)
  then have "r = (if e_queue_backlog s then Some (0, 0)
      else Some (if d - now > 0 then ((d - now) div 1000000, (d - now) mod 1000000 * 1000) else (0, 0)))" "t = s"
    using assms by (simp_all add: ep_timeout_def Let_def split: if_splits)
  then show thesis using that(2) that(3) [of d] Some by (cases "e_queue_backlog s"; cases "d - now > 0") simp_all
qed

text \<open>C32. The wait never sleeps past the next timer and never returns early for it: the timeout is exactly the
  time to the earliest deadline, as a normalised \<open>timespec\<close>, zero when it is due or a queue has a backlog,
  and absent when there is nothing to wait for; the whole milliseconds used by \<open>epoll_wait\<close> are the
  timeout rounded up.\<close>

theorem epoll_timeout_exact:
  assumes "ep_timeout now s = Ok r t"
  shows "t = s \<and> (case r of
      None \<Rightarrow> get_next_deadline_us (e_timer s) = None \<and> \<not> e_queue_backlog s \<and> ep_timeout_ms r = -1
    | Some (sec, nsec) \<Rightarrow> 0 \<le> sec \<and> 0 \<le> nsec \<and> nsec < 1000000000 \<and> (\<exists>us. nsec = us * 1000 \<and>
        sec * 1000000 + us = (if e_queue_backlog s then 0 else max 0 (the (get_next_deadline_us (e_timer s)) - now)) \<and>
        0 \<le> ep_timeout_ms r \<and> ep_timeout_ms r \<le> INT_MAX \<and>
        (ep_timeout_ms r < INT_MAX \<longrightarrow> sec * 1000000 + us \<le> ep_timeout_ms r * 1000 \<and> ep_timeout_ms r * 1000 < sec * 1000000 + us + 1000)))"
  using assms
proof (cases rule: ep_timeout_cases)
  case (timer d)
  have "sec * 1000000 + m = d - now" if "sec = (d - now) div 1000000" "m = (d - now) mod 1000000" for sec m
    using that by simp
  then show ?thesis using timer ep_timeout_ms_ceil [of "d - now"]
    by (auto simp: pos_imp_zdiv_nonneg_iff intro!: exI [of _ "(d - now) mod 1000000"])
qed (auto simp: INT_MAX_def ep_timeout_ms_def)

theorem epoll_timeout_exact_witness:
  "\<exists>t. ep_timeout 0 (ep_demo\<lparr>e_timer := \<lparr>m_timer_ctr = 1, m_cb_map = [((1500001, 0), None)]\<rparr>\<rparr>) = Ok (Some (1, 500001000)) t \<and>
     ep_timeout_ms (Some (1, 500001000)) * 1000 < 1500001 + 1000"
proof -
  let ?s = "ep_demo\<lparr>e_timer := \<lparr>m_timer_ctr = 1, m_cb_map = [((1500001, 0), None)]\<rparr>\<rparr>"
  have "ep_timeout 0 ?s = Ok (Some (1, 500001000)) ?s"
    by (simp add: ep_timeout_def get_next_deadline_us_def int64_ok_def Let_def ep_demo_def ep_new_def ep_init_def)
  then show ?thesis using epoll_timeout_exact [of 0 ?s] by (fastforce simp: ep_timeout_ms_def INT_MAX_def)
qed

end
