(* ===== verification/Bfc_Queue_Delivery.thy ===== *)
theory Bfc_Queue_Delivery
  imports Bfc_Epoll_Reactor
begin

text \<open>
  A reactive queue (\<open>event_queue.hpp\<close>), the table that serves it (\<open>reactor_queues.hpp\<close>) and the reactor that waits
  (\<open>poll_reactor.hpp\<close>, \<open>epoll_reactor.hpp\<close>) together: data in a queue that is bound to a reactor and registered
  with it never lies there while the reactor sleeps, but for the time a thread is between the push and the signal,
  and but for a queue that was registered and held data when it was bound, which nobody signals. Both reactors are
  providers of the locale \<open>queue_service\<close>; what they promise is that every step a callback or another thread can
  make keeps \<open>attends\<close>.
\<close>

section \<open>The poll reactor\<close>

text \<open>A queue whose data the reactor knows of: bound, not late, and no thread is about to notify for it.\<close>

definition attended :: "nat \<Rightarrow> nat circular_queue \<Rightarrow> wake_threads \<Rightarrow> bool" where
  "attended q c ts \<longleftrightarrow> m_wake_callback c = Some 0 \<and> q \<notin> wt_late ts \<and> q \<notin> set (wt_pushing ts)"

definition poll_bound :: "nat \<Rightarrow> poll_reactor \<Rightarrow> bool" where
  "poll_bound q s \<longleftrightarrow> attended q (queues s q) (os_threads s)"

definition poll_has_data :: "nat \<Rightarrow> poll_reactor \<Rightarrow> bool" where
  "poll_has_data q s = circular_has_data (queues s q)"

abbreviation poll_waiting :: "poll_reactor \<Rightarrow> nat set" where
  "poll_waiting \<equiv> waiting m_queues poll_bound poll_has_data"

abbreviation poll_attends :: "poll_reactor \<Rightarrow> poll_reactor \<Rightarrow> bool" where
  "poll_attends \<equiv> attends signal announced poll_waiting"

lemmas poll_waiting_defs = waiting_def poll_bound_def attended_def poll_has_data_def

lemma poll_waiting_same:
  assumes "m_queues t = m_queues s" "queues t = queues s" "wt_late (os_threads t) = wt_late (os_threads s)"
    "wt_pushing (os_threads t) = wt_pushing (os_threads s)"
  shows "poll_waiting t = poll_waiting s"
  using assms by (simp add: poll_waiting_defs)

lemma poll_attends_same:
  assumes "m_queues t = m_queues s" "queues t = queues s" "os_threads t = os_threads s"
    "m_wake_pending t = m_wake_pending s" "signal t = signal s"
  shows "poll_attends s t"
  using assms by (simp add: attends_def announced_def poll_waiting_defs)

lemma wake_up_attends: "signal s \<longrightarrow> signal t \<Longrightarrow> poll_attends s (wake_up cb t)"
  using wake_up_signal [of t cb] by (auto simp: attends_def)

lemma rem_queue_attends: "poll_attends s (s\<lparr>m_queues := rq_rem q (m_queues s)\<rparr>)"
  by (auto simp: attends_def poll_waiting_defs rq_rem_def announced_def)

text \<open>A push into a bound queue signals; any other call leaves no queue with data that had none.\<close>

lemma push_queue:
  assumes "circular_push v q = Ok r q'" "m_wake_callback q' = Some 0" "circular_has_data q'" "woken r \<noteq> Some 0"
  shows "q' = q"
  using assms by (auto simp: circular_push_def notify_push_def Let_def split: if_splits option.splits)

lemma pop_queue:
  assumes "circular_pop q = Ok x q'"
  shows "m_wake_callback q' = m_wake_callback q \<and> (circular_has_data q' \<longrightarrow> circular_has_data q)"
  using assms by (auto simp: circular_pop_def circular_has_data_def split: if_splits option.splits)

lemma set_capacity_queue:
  assumes "set_capacity sz alloc_ok n q = Ok x q'"
  shows "m_wake_callback q' = m_wake_callback q \<and> (circular_has_data q' \<longrightarrow> circular_has_data q)"
  using assms by (auto simp: set_capacity_def circular_has_data_def Let_def split: if_splits option.splits)

lemma set_reactor_queue:
  "m_wake_callback (snd (set_reactor r q)) = r" "circular_has_data (snd (set_reactor r q)) = circular_has_data q"
  by (auto simp: set_reactor_def replace_wake_callback_def circular_has_data_def split: option.split)

text \<open>A step that changes one queue and where the threads are, and makes no data known that was not before.\<close>

lemma queue_update_attends:
  assumes "attended q q' ts \<Longrightarrow> circular_has_data q' \<Longrightarrow> q \<in> rq_key ` set (m_queues s) \<Longrightarrow>
      attended q (queues s q) (os_threads s) \<and> circular_has_data (queues s q)"
    and "\<And>p. p \<noteq> q \<Longrightarrow> p \<in> wt_late ts \<longleftrightarrow> p \<in> wt_late (os_threads s)"
    and "\<And>p. p \<noteq> q \<Longrightarrow> p \<in> set (wt_pushing ts) \<longleftrightarrow> p \<in> set (wt_pushing (os_threads s))"
    and "wt_signalling ts = wt_signalling (os_threads s)" "wt_writing ts = wt_writing (os_threads s)"
  shows "poll_attends s (s\<lparr>queues := (queues s)(q := q'), os_threads := ts\<rparr>)"
  using assms(1-3) by (auto simp: attends_def poll_waiting_defs announced_def signal_def assms(4,5))

lemma queue_push_attends: "poll_attends s (the_state (queue_push q v s))"
proof (cases "circular_push v (queues s q)")
  case (Ok r q')
  obtain b ts where p: "preempt (os_threads s) = (b, ts)" by fastforce
  note f = preempt_fields [OF p]
  let ?s = "s\<lparr>queues := (queues s)(q := q'), os_threads := ts\<rparr>"
  have "poll_attends s ?s" if "woken r \<noteq> Some 0"
    using push_queue [OF Ok _ _ that] by (intro queue_update_attends) (auto simp: attended_def f)
  moreover have "poll_attends s (s\<lparr>queues := (queues s)(q := q'), os_threads := ts\<lparr>wt_pushing := q # wt_pushing ts\<rparr>\<rparr>)"
    by (rule queue_update_attends) (auto simp: attended_def f)
  moreover have "poll_attends s (wake_up None ?s)" by (rule wake_up_attends) (simp add: signal_def f)
  ultimately show ?thesis by (simp add: queue_push_def Ok p Let_def)
qed (simp add: queue_push_def)

lemma resume_push_attends: "poll_attends s (resume_push q s)"
proof -
  let ?ts = "(os_threads s)\<lparr>wt_pushing := remove1 q (wt_pushing (os_threads s))\<rparr>"
  have "poll_attends s (s\<lparr>queues := (queues s)(q := queues s q), os_threads := ?ts\<rparr>)" if "notify_push (queues s q) \<noteq> Some 0"
    by (rule queue_update_attends) (use that in \<open>auto simp: attended_def notify_push_def\<close>)
  moreover have "poll_attends s (wake_up None (s\<lparr>os_threads := ?ts\<rparr>))" by (rule wake_up_attends) (simp add: signal_def)
  ultimately show ?thesis by (simp add: resume_push_def Let_def)
qed

lemma bind_queue_attends: "poll_attends s (bind_queue q r s)"
  unfolding bind_queue_def Let_def
  by (rule queue_update_attends) (auto simp: attended_def set_reactor_queue late_after_def split: if_splits)

lemma wake_threads_write: "os_threads (write_wake ws s) = os_threads s"
  by (induction ws s rule: write_wake.induct) auto

lemma wake_threads_exchange:
  "wt_late (os_threads (wake_exchange s)) = wt_late (os_threads s)"
  "wt_pushing (os_threads (wake_exchange s)) = wt_pushing (os_threads s)"
  by (auto simp: wake_exchange_def wake_threads_write Let_def preempt_fields split: prod.split)

lemma resume_attends: "poll_attends s (resume_wake_up s)" "poll_attends s (resume_write s)"
proof -
  have q: "m_queues t = m_queues s \<and> queues t = queues s" if "wakes_only s t" for t using that by (auto simp: wakes_only_def)
  have "poll_waiting (resume_wake_up s) = poll_waiting s"
    by (rule poll_waiting_same) (simp_all add: q [OF wakes_only_resume(1)], simp_all add: resume_wake_up_def Let_def wake_threads_exchange)
  then show "poll_attends s (resume_wake_up s)" using resume_signal(1) [of s] by (simp add: attends_def)
  have "poll_waiting (resume_write s) = poll_waiting s"
    by (rule poll_waiting_same) (simp_all add: q [OF wakes_only_resume(2)], simp_all add: resume_write_def Let_def wake_threads_write)
  then show "poll_attends s (resume_write s)" using resume_signal(2) [of s] by (simp add: attends_def)
qed

lemma exec_action_attends: "poll_attends s (the_state (exec_action th a s))"
proof (cases a)
  case (Queue_pop q)
  have "poll_attends s (s\<lparr>queues := (queues s)(q := q'), os_threads := os_threads s\<rparr>)"
    if "circular_pop (queues s q) = Ok x q'" for x q'
    by (rule queue_update_attends) (use pop_queue [OF that] in \<open>auto simp: attended_def\<close>)
  then show ?thesis using Queue_pop by (auto split: result.split)
next
  case (Queue_set_capacity q n ok)
  have "poll_attends s (s\<lparr>queues := (queues s)(q := q'), os_threads := os_threads s\<rparr>)"
    if "set_capacity 16 (\<lambda>_. ok) n (queues s q) = Ok x q'" for x q'
    by (rule queue_update_attends) (use set_capacity_queue [OF that] in \<open>auto simp: attended_def\<close>)
  then show ?thesis using Queue_set_capacity by (auto split: result.split)
qed (auto simp: add_read_rdy_def add_write_rdy_def req_write_rdy_def rem_read_rdy_def rem_write_rdy_def
      defer_removal_def pr_stop_def add_queue_def rem_queue_def Let_def ops_more
      intro!: wake_up_attends rem_queue_attends queue_push_attends resume_push_attends bind_queue_attends resume_attends
      poll_attends_same split: option.split result.split)

interpretation pat: reactor_relation poll_attends
  by unfold_locales
    (auto intro: attends_trans exec_action_attends, auto intro!: poll_attends_same simp: ops_more)

interpretation pqs: queue_service m_queues poll_bound poll_has_data signal announced "call_user prog th" for prog th
  by unfold_locales (rule pat.R_call_user)

text \<open>Nothing sleeps on data: every waiting queue has a signal pending or the backlog set.\<close>

definition poll_covered :: "poll_reactor \<Rightarrow> bool" where
  "poll_covered s \<longleftrightarrow> signal s \<and> (announced s \<or> m_queue_backlog s \<or> poll_waiting s = {})"

lemma exec_action_backlog: "m_queue_backlog (the_state (exec_action th a s)) = m_queue_backlog s"
proof -
  have w: "m_queue_backlog (wake_up cb t) = m_queue_backlog t" for cb t
    by (rule wake_up_eq [of cb t]) (simp add: posted_def log_def split: option.splits)
  have o: "m_queue_backlog t = m_queue_backlog s" if "wakes_only s t" for t using that by (auto simp: wakes_only_def)
  show ?thesis
    by (cases a) (auto simp: add_read_rdy_def add_write_rdy_def req_write_rdy_def rem_read_rdy_def rem_write_rdy_def
        defer_removal_def pr_stop_def add_queue_def rem_queue_def Let_def ops_more w log_def
        queue_push_def bind_queue_def o [OF wakes_only_resume(1)] o [OF wakes_only_resume(2)] o [OF wakes_only_resume(3)]
        split: option.split result.split prod.split)
qed

lemma attends_covered:
  "poll_attends s t \<Longrightarrow> m_queue_backlog t = m_queue_backlog s \<Longrightarrow> poll_covered s \<Longrightarrow> poll_covered t"
  unfolding attends_def poll_covered_def by auto

interpretation pcv: action_relation "\<lambda>s t. poll_covered s \<longrightarrow> poll_covered t"
proof unfold_locales
  show "poll_covered s \<longrightarrow> poll_covered (the_state (exec_action th a s))" for s th a
    using attends_covered [OF exec_action_attends exec_action_backlog] by blast
  show "poll_covered s \<longrightarrow> poll_covered (s\<lparr>m_timer := tm\<rparr>)" for s tm
    using attends_covered [OF pat.R_timer] by simp
  show "poll_covered s \<longrightarrow> poll_covered (run_cleanup s)" for s
    using attends_covered [OF pat.R_cleanup] by (simp add: ops_more)
qed auto

lemma queue_phase_covers:
  assumes "signal s" "queue_phase prog th s = Ok () t"
  shows "poll_covered t"
proof -
  obtain b u where "rq_notify poll_has_data (call_user prog th) m_queues s = Ok b u" "t = u\<lparr>m_queue_backlog := b\<rparr>"
    using assms(2) by (auto simp: queue_phase_def rbind_eq_Ok poll_has_data_def [abs_def])
  with pqs.notify_covers [OF this(1) assms(1)] show ?thesis
    by (auto simp: poll_covered_def signal_def announced_def poll_waiting_defs)
qed

lemma iteration_covered:
  assumes "poll_covered s" "iteration prog th env s = Ok () t"
  shows "poll_covered t"
proof -
  obtain tmo s0 where p: "poll_timeout (now_before env) s = Ok tmo s0"
    using assms(2) by (cases "poll_timeout (now_before env) s") (auto simp: iteration_def)
  then have "s0 = s" using poll_timeout_state [of "now_before env" s] by simp
  let ?s = "foreign (during_poll env) (prepare_poll tmo s)"
  have "poll_covered (prepare_poll tmo s)" using assms(1)
    by (simp add: poll_covered_def signal_def announced_def prepare_poll_def log_def poll_waiting_defs)
  then have a: "poll_covered ?s" using pcv.R_foreign by blast
  show ?thesis
  proof (cases "polled env")
    case (Poll_error e)
    then show ?thesis using assms(2) p a \<open>s0 = s\<close> by (auto simp: iteration_def Let_def split: if_splits)
  next
    case (Ready revents)
    then have "serve prog th env revents ?s = Ok () t" using assms(2) p \<open>s0 = s\<close> by (simp add: iteration_def Let_def)
    then show ?thesis
    proof (rule serve_Ok)
      fix s1 s2
      assume s1: "(if length (filter (\<lambda>r. r \<noteq> 0) (take (length (m_dispatch ?s)) revents)) > 0
          then rfold (dispatch_item prog th) (zip (m_dispatch ?s) revents) ?s else Ok () ?s) = Ok () s1"
        and s2: "wake_phase prog th (foreign (before_wake env) s1) = Ok () s2"
        and r2: "rbind (queue_phase prog th (foreign (before_queues env) s2)) (\<lambda>_ s.
          timer_phase prog th (now_after env) (foreign (before_timers env) (run_cleanup s))) = Ok () t"
      have "signal ?s" using a by (simp add: poll_covered_def)
      moreover have "signal ?s \<longrightarrow> signal (the_state (rfold (dispatch_item prog th) (zip (m_dispatch ?s) revents) ?s))"
        by (rule sg.R_rfold) (rule sl.R_dispatch_item)
      ultimately have "signal s1" using s1 by (auto split: if_splits)
      moreover have "signal s1 \<longrightarrow> signal (the_state (wake_phase prog th (foreign (before_wake env) s1)))"
        by (rule sg.R_trans [OF sg.R_foreign sl.R_wake_phase])
      ultimately have "signal s2" using s2 by simp
      then have q: "signal (foreign (before_queues env) s2)" using sg.R_foreign by blast
      obtain u where u: "queue_phase prog th (foreign (before_queues env) s2) = Ok () u"
        "timer_phase prog th (now_after env) (foreign (before_timers env) (run_cleanup u)) = Ok () t"
        using r2 by (auto simp: rbind_eq_Ok)
      then have "poll_covered u" using queue_phase_covers [OF q] by blast
      then show ?thesis using pcv.R_after_queues [of u prog th "now_after env" "before_timers env"] u(2) by simp
    qed
  qed
qed

lemma run_loop_covered: "poll_covered s \<Longrightarrow> run_loop prog th envs s = Ok b t \<Longrightarrow> poll_covered t"
proof (induction envs arbitrary: s)
  case Nil
  then show ?case
    by (auto simp: run_loop.simps poll_covered_def signal_def announced_def poll_waiting_defs split: if_splits)
next
  case (Cons env envs)
  show ?case
  proof (cases "m_running s")
    case True
    then obtain s1 where "iteration prog th env s = Ok () s1" "run_loop prog th envs s1 = Ok b t"
      using Cons.prems(2) by (auto simp: run_loop.simps [of prog th "env # envs"] rbind_eq_Ok)
    then show ?thesis using Cons iteration_covered by blast
  next
    case False
    then show ?thesis using Cons.prems
      by (auto simp: run_loop.simps poll_covered_def signal_def announced_def poll_waiting_defs)
  qed
qed

lemma poll_session_covered:
  assumes "poll_session p dups qs rs ws ps calls prog th envs = Ok b s" "Io_fail \<notin> set ws"
  shows "poll_covered s"
proof (rule poll_session_start)
  fix s0
  assume s: "poll_session p dups qs rs ws ps calls prog th envs = pr_run prog th envs (foreign calls s0)"
    and n: "poll_reactor_new (Inr p) (None, None) (None, None) (poll_reactor_init dups qs rs ws ps) = Ok () s0"
  have "poll_covered s0" using n assms(2)
    by (auto simp: poll_reactor_new_def set_non_blocking_def poll_reactor_init_def Let_def poll_covered_def signal_def announced_def poll_waiting_defs)
  then have "poll_covered (foreign calls s0)" using pcv.R_foreign by blast
  then have "poll_covered ((foreign calls s0)\<lparr>m_reactor_thread_id := Some th, m_running := True\<rparr>)"
    by (simp add: poll_covered_def signal_def announced_def poll_waiting_defs)
  from run_loop_covered [OF this] assms s show ?thesis by (auto simp: pr_run_def)
qed

section \<open>The epoll reactor\<close>

definition ep_bound :: "nat \<Rightarrow> epoll_reactor \<Rightarrow> bool" where
  "ep_bound q s \<longleftrightarrow> attended q (e_user_queues s q) (k_threads s)"

definition ep_has_data :: "nat \<Rightarrow> epoll_reactor \<Rightarrow> bool" where
  "ep_has_data q s = circular_has_data (e_user_queues s q)"

abbreviation ep_waiting :: "epoll_reactor \<Rightarrow> nat set" where
  "ep_waiting \<equiv> waiting e_queues ep_bound ep_has_data"

abbreviation ep_attends :: "epoll_reactor \<Rightarrow> epoll_reactor \<Rightarrow> bool" where
  "ep_attends \<equiv> attends (\<lambda>_. True) ep_announced ep_waiting"

lemmas ep_waiting_defs = waiting_def ep_bound_def attended_def ep_has_data_def ep_announced_def

lemma ep_attends_same:
  assumes "e_queues t = e_queues s" "e_user_queues t = e_user_queues s" "k_eventfd t = k_eventfd s" "k_threads t = k_threads s"
  shows "ep_attends s t"
  using assms by (simp add: attends_def ep_waiting_defs)

lemma ep_wake_up_attends: "ep_attends s (ep_wake_up cb t)"
  using ep_wake_announced(1) by (simp add: attends_def)

lemma ep_queue_update_attends:
  assumes "attended q q' ts \<Longrightarrow> circular_has_data q' \<Longrightarrow> q \<in> rq_key ` set (e_queues s) \<Longrightarrow>
      attended q (e_user_queues s q) (k_threads s) \<and> circular_has_data (e_user_queues s q)"
    and "\<And>p. p \<noteq> q \<Longrightarrow> p \<in> wt_late ts \<longleftrightarrow> p \<in> wt_late (k_threads s)"
    and "\<And>p. p \<noteq> q \<Longrightarrow> p \<in> set (wt_pushing ts) \<longleftrightarrow> p \<in> set (wt_pushing (k_threads s))"
    and "wt_signalling ts = wt_signalling (k_threads s)"
  shows "ep_attends s (s\<lparr>e_user_queues := (e_user_queues s)(q := q'), k_threads := ts\<rparr>)"
  using assms(1-3) by (auto simp: attends_def ep_waiting_defs assms(4))

lemma ep_queue_push_attends: "ep_attends s (the_state (ep_queue_push q v s))"
proof (cases "circular_push v (e_user_queues s q)")
  case (Ok r q')
  obtain b ts where p: "preempt (k_threads s) = (b, ts)" by fastforce
  note f = preempt_fields [OF p]
  have "ep_attends s (s\<lparr>e_user_queues := (e_user_queues s)(q := q'), k_threads := ts\<rparr>)" if "woken r \<noteq> Some 0"
    using push_queue [OF Ok _ _ that] by (intro ep_queue_update_attends) (auto simp: attended_def f)
  moreover have "ep_attends s (s\<lparr>e_user_queues := (e_user_queues s)(q := q'), k_threads := ts\<lparr>wt_pushing := q # wt_pushing ts\<rparr>\<rparr>)"
    by (rule ep_queue_update_attends) (auto simp: attended_def f)
  ultimately show ?thesis by (simp add: ep_queue_push_def Ok p Let_def ep_wake_up_attends)
qed (simp add: ep_queue_push_def)

lemma ep_resume_push_attends: "ep_attends s (ep_resume_push q s)"
proof -
  let ?ts = "(k_threads s)\<lparr>wt_pushing := remove1 q (wt_pushing (k_threads s))\<rparr>"
  have "ep_attends s (s\<lparr>e_user_queues := (e_user_queues s)(q := e_user_queues s q), k_threads := ?ts\<rparr>)"
    if "notify_push (e_user_queues s q) \<noteq> Some 0"
    by (rule ep_queue_update_attends) (use that in \<open>auto simp: attended_def notify_push_def\<close>)
  then show ?thesis by (simp add: ep_resume_push_def Let_def ep_wake_up_attends)
qed

lemma ep_bind_queue_attends: "ep_attends s (ep_bind_queue q r s)"
  unfolding ep_bind_queue_def Let_def
  by (rule ep_queue_update_attends) (auto simp: attended_def set_reactor_queue late_after_def split: if_splits)

lemma ep_resume_attends: "ep_attends s (ep_resume_wake_up s)"
proof -
  have "ep_waiting (ep_resume_wake_up s) = ep_waiting s" by (simp add: ep_waiting_defs ep_wake_defs)
  then show ?thesis using ep_wake_announced(2) [of s] by (simp add: attends_def)
qed

lemma ep_exec_attends:
  assumes "keeps ep_attends call"
  shows "ep_attends s (the_state (ep_exec call th a s))"
proof (cases a)
  case (Queue_pop q)
  have "ep_attends s (s\<lparr>e_user_queues := (e_user_queues s)(q := q'), k_threads := k_threads s\<rparr>)"
    if "circular_pop (e_user_queues s q) = Ok x q'" for x q'
    by (rule ep_queue_update_attends) (use pop_queue [OF that] in \<open>auto simp: attended_def\<close>)
  then show ?thesis using Queue_pop by (auto split: result.split)
next
  case (Queue_set_capacity q n ok)
  have "ep_attends s (s\<lparr>e_user_queues := (e_user_queues s)(q := q'), k_threads := k_threads s\<rparr>)"
    if "set_capacity 16 (\<lambda>_. ok) n (e_user_queues s q) = Ok x q'" for x q'
    by (rule ep_queue_update_attends) (use set_capacity_queue [OF that] in \<open>auto simp: attended_def\<close>)
  then show ?thesis using Queue_set_capacity by (auto split: result.split)
next
  case (Rem_queue q)
  then show ?thesis by (auto simp: ep_rem_queue_def attends_def ep_waiting_defs rq_rem_def)
next
  case (Rem_read_rdy fd cb)
  have "ep_attends s (snd (ep_rem_read fd s))" by (rule ep_attends_same) (simp_all add: ep_prims_rest)
  then show ?thesis using Rem_read_rdy attends_trans [OF _ keeps_imp [OF assms]]
    by (auto simp: ep_rem_read_rdy_def ep_done_def ep_defer_removal_def intro: ep_wake_up_attends split: option.split)
next
  case (Rem_write_rdy fd cb)
  have "ep_attends s (snd (ep_rem_write fd s))" by (rule ep_attends_same) (simp_all add: ep_prims_rest)
  then show ?thesis using Rem_write_rdy attends_trans [OF _ keeps_imp [OF assms]]
    by (auto simp: ep_rem_write_rdy_def ep_done_def ep_defer_removal_def intro: ep_wake_up_attends split: option.split)
qed (auto simp: ep_stop_def ep_add_queue_def ep_prims_rest
      intro!: ep_wake_up_attends ep_queue_push_attends ep_resume_push_attends ep_bind_queue_attends ep_resume_attends
      ep_attends_same split: result.split)

interpretation eat: epoll_relation ep_attends
  by unfold_locales
    (auto intro: attends_trans ep_exec_attends, auto intro!: ep_attends_same simp: ep_prims_rest)

interpretation eqs: queue_service e_queues ep_bound ep_has_data "\<lambda>_. True" ep_announced "ep_call d prog th" for d prog th
  by unfold_locales (rule keeps_imp [OF eat.R_call])

definition ep_covered :: "epoll_reactor \<Rightarrow> bool" where
  "ep_covered s \<longleftrightarrow> ep_announced s \<or> e_queue_backlog s \<or> ep_waiting s = {}"

definition ep_attends_backlog :: "epoll_reactor \<Rightarrow> epoll_reactor \<Rightarrow> bool" where
  "ep_attends_backlog s t \<longleftrightarrow> ep_attends s t \<and> e_queue_backlog t = e_queue_backlog s"

lemma ep_exec_backlog:
  assumes "keeps (\<lambda>s t. e_queue_backlog t = e_queue_backlog s) call"
  shows "e_queue_backlog (the_state (ep_exec call th a s)) = e_queue_backlog s"
  by (rule ep_exec_cases [where P = "\<lambda>t. e_queue_backlog t = e_queue_backlog s"])
    (use assms in \<open>auto simp: keeps_def ep_prims_rest ep_wake_defs split: option.splits prod.splits\<close>)

interpretation eab: epoll_action_relation ep_attends_backlog
proof unfold_locales
  show "ep_attends_backlog s (the_state (ep_exec call th a s))" if "keeps ep_attends_backlog call" for call s th a
  proof -
    have "keeps ep_attends call" "keeps (\<lambda>s t. e_queue_backlog t = e_queue_backlog s) call"
      using that by (simp_all add: keeps_def ep_attends_backlog_def)
    then show ?thesis using ep_exec_attends ep_exec_backlog by (simp add: ep_attends_backlog_def)
  qed
  show "ep_attends_backlog s u" if "ep_attends_backlog s t" "ep_attends_backlog t u" for s t u
    using that attends_trans by (auto simp: ep_attends_backlog_def)
qed (auto simp: ep_attends_backlog_def ep_prims_rest intro!: ep_attends_same)

lemma ep_attends_covered: "ep_attends_backlog s t \<Longrightarrow> ep_covered s \<Longrightarrow> ep_covered t"
  unfolding ep_attends_backlog_def attends_def ep_covered_def by auto

lemma ep_covered_cleanup: "ep_covered (ep_cleanup s) = ep_covered s"
proof -
  have "ep_covered (ep_cleanup_fd fd s) = ep_covered s" for fd s
    by (auto simp: ep_cleanup_fd_def ep_covered_def ep_waiting_defs ep_close_def Let_def split: option.split)
  then have "ep_covered (fold ep_cleanup_fd fds s) = ep_covered s" for fds by (induction fds arbitrary: s) auto
  moreover have "ep_covered (t\<lparr>e_pending_cleanup := []\<rparr>) = ep_covered t" for t by (simp add: ep_covered_def ep_waiting_defs)
  ultimately show ?thesis by (simp add: ep_cleanup_def)
qed

lemma ep_queue_phase_covers:
  assumes "ep_queue_phase (ep_call d prog th) s = Ok () t"
  shows "ep_covered t"
proof -
  obtain b u where "rq_notify ep_has_data (ep_call d prog th) e_queues s = Ok b u" "t = u\<lparr>e_queue_backlog := b\<rparr>"
    using assms by (auto simp: ep_queue_phase_def rbind_eq_Ok ep_has_data_def [abs_def])
  with eqs.notify_covers [OF this(1)] show ?thesis by (auto simp: ep_covered_def ep_waiting_defs)
qed

lemma ep_covered_foreign: "ep_covered s \<Longrightarrow> ep_covered (ep_foreign (ep_call d prog th) as s)"
  by (rule ep_attends_covered [OF eab.R_foreign [OF eab.R_call]])

lemma ep_covered_iteration:
  assumes "ep_covered s" "ep_iteration (ep_call d prog th) env s = Ok u t"
  shows "ep_covered t"
proof -
  let ?call = "ep_call d prog th"
  let ?s = "ep_foreign ?call (ep_during_wait env) s"
  obtain tmo s1 where s1: "ep_timeout (ep_now_before env) s = Ok tmo s1"
    using assms(2) by (auto simp: ep_iteration_def rbind_eq_Ok)
  then have s1: "ep_timeout (ep_now_before env) s = Ok tmo s" by (auto simp: ep_timeout_def Let_def split: option.splits if_splits)
  have a: "ep_covered ?s" using assms(1) by (rule ep_covered_foreign)
  show ?thesis
  proof (cases "ep_waited env")
    case (Ep_error e)
    then show ?thesis using assms(2) s1 a by (auto simp: ep_iteration_def Let_def split: if_splits)
  next
    case (Ep_ready ready)
    then have "ep_serve ?call env ready ?s = Ok u t" using assms(2) s1 by (simp add: ep_iteration_def)
    then obtain s2 s3 where "ep_queue_phase ?call (ep_foreign ?call (ep_before_queues env) s2) = Ok () s3"
      and t: "ep_timer_phase ?call (ep_now_after env) (ep_foreign ?call (ep_before_timers env) (ep_cleanup s3)) = Ok u t"
      by (auto simp: ep_serve_def Let_def rbind_eq_Ok)
    then have "ep_covered s3" using ep_queue_phase_covers by blast
    then have "ep_covered (ep_foreign ?call (ep_before_timers env) (ep_cleanup s3))" by (simp add: ep_covered_foreign ep_covered_cleanup)
    from ep_attends_covered [OF eab.R_timer_phase [OF eab.R_call] this] show ?thesis using t by (metis result.sel(2))
  qed
qed

lemma ep_covered_loop: "ep_covered s \<Longrightarrow> ep_loop (ep_call d prog th) envs s = Ok b t \<Longrightarrow> ep_covered t"
proof (induction envs arbitrary: s)
  case Nil
  then show ?case by (subst (asm) ep_loop.simps) (auto simp: ep_covered_def ep_waiting_defs split: if_splits)
next
  case (Cons env envs)
  show ?case
  proof (cases "e_running s")
    case True
    then obtain u s1 where "ep_iteration (ep_call d prog th) env s = Ok u s1" "ep_loop (ep_call d prog th) envs s1 = Ok b t"
      using Cons.prems(2) by (subst (asm) ep_loop.simps) (auto simp: rbind_eq_Ok)
    then show ?thesis using Cons.IH ep_covered_iteration [OF Cons.prems(1)] by blast
  next
    case False
    then show ?thesis using Cons.prems by (subst (asm) ep_loop.simps) (auto simp: ep_covered_def ep_waiting_defs)
  qed
qed

section \<open>Properties\<close>

text \<open>C2. The poll reactor never sleeps on queued data. After any steps of any threads and any run that did not throw, at
  every point where the loop is about to wait: when a queue that is registered with the reactor and bound to
  it holds data, a byte is in the wake pipe, or the wait is done with timeout zero, or a thread that will put
  a byte there is on its way: it has enqueued into this queue and not notified yet, or it is inside \<open>wake_up\<close>
  before its exchange or before its write. Pushes from other threads, preempted anywhere, from callbacks of
  the same pass, data that a callback left in its queue, data that was there before the registration, and
  changes of capacity and binding are all covered, provided writes to the wake pipe do not fail for good.
  The one exception is a queue that was registered and held data when it was bound to the reactor.\<close>

theorem poll_never_sleeps_on_data:
  assumes "poll_session p dups qs rs ws ps calls prog th envs = Ok b s" "Io_fail \<notin> set ws"
    and "q \<in> rq_key ` set (m_queues s)" "m_wake_callback (queues s q) = Some 0" "circular_has_data (queues s q)"
    and "q \<notin> wt_late (os_threads s)"
  shows "0 < os_pipe s \<or> (\<forall>now_us timeout_ms s'. poll_timeout now_us s = Ok timeout_ms s' \<longrightarrow> timeout_ms = 0) \<or>
    q \<in> set (wt_pushing (os_threads s)) \<or> 0 < wt_signalling (os_threads s) \<or> 0 < wt_writing (os_threads s)"
proof (cases "q \<in> set (wt_pushing (os_threads s))")
  case False
  have "poll_covered s" using assms(1,2) by (rule poll_session_covered)
  moreover have "q \<in> poll_waiting s" using assms(3-6) False by (simp add: poll_waiting_defs)
  ultimately consider "0 < os_pipe s" | "0 < wt_writing (os_threads s)" | "0 < wt_signalling (os_threads s)" | "m_queue_backlog s"
    by (auto simp: poll_covered_def signal_def announced_def)
  then show ?thesis by cases (auto simp: poll_timeout_def rbind_eq_Ok Let_def split: option.splits if_splits)
qed simp

text \<open>A queue with two elements is registered; its callback takes one of them per pass.\<close>

definition demo_queue :: "nat circular_queue" where
  "demo_queue = \<lparr>m_wake_callback = Some 0, m_cb = None, m_capacity = 2, m_head = 0, m_count = 2, m_slots = [Some 5, Some 6]\<rparr>"

definition queue_prog :: program where
  "queue_prog c s = [Queue_pop 1]"

definition queue_session :: "(poll_reactor, bool) result" where
  "queue_session = poll_session (3, 4) [] (\<lambda>_. demo_queue) [] [] [] [(1, Add_queue 1 (Some 7))] queue_prog 2 [demo_env [1]]"

lemma queue_session_result:
  "\<exists>s. queue_session = Ok False s \<and> os_pipe s = 0 \<and> rq_key ` set (m_queues s) = {1} \<and>
    m_wake_callback (queues s 1) = Some 0 \<and> circular_has_data (queues s 1) \<and>
    wt_late (os_threads s) = {} \<and> wt_pushing (os_threads s) = [] \<and> wt_signalling (os_threads s) = 0 \<and> wt_writing (os_threads s) = 0"
  by (simp add: queue_session_def queue_prog_def demo_env_def demo_queue_def poll_eval add_queue_def
      circular_pop_def circular_has_data_def size_add_def)

theorem poll_never_sleeps_on_data_witness:
  "\<exists>s. queue_session = Ok False s \<and> os_pipe s = 0 \<and> circular_has_data (queues s 1) \<and>
    (\<forall>now_us timeout_ms s'. poll_timeout now_us s = Ok timeout_ms s' \<longrightarrow> timeout_ms = 0)"
proof -
  obtain s where s: "queue_session = Ok False s" "os_pipe s = 0" "rq_key ` set (m_queues s) = {1}"
    "m_wake_callback (queues s 1) = Some 0" "circular_has_data (queues s 1)" "wt_late (os_threads s) = {}"
    "wt_pushing (os_threads s) = []" "wt_signalling (os_threads s) = 0" "wt_writing (os_threads s) = 0"
    using queue_session_result by blast
  then show ?thesis
    using poll_never_sleeps_on_data [OF s(1) [unfolded queue_session_def] _ _ s(4,5)] by auto
qed

text \<open>
  The exception is real: between two iterations a thread pushes into a queue that is registered and not bound,
  and then binds it. The queue is registered and bound and holds data, no thread is on its way, and the next
  wait is for ever.
\<close>

definition late_queue :: "nat circular_queue" where
  "late_queue = \<lparr>m_wake_callback = None, m_cb = None, m_capacity = 2, m_head = 0, m_count = 0, m_slots = [None, None]\<rparr>"

lemma binding_with_data_is_not_signalled:
  "\<exists>s. poll_session (3, 4) [] (\<lambda>_. late_queue) [] [] [] [(1, Add_queue 1 (Some 7))] queue_prog 2
      [(demo_env [1])\<lparr>before_timers := [(3, Queue_push 1 5), (3, Set_reactor 1 (Some 0))]\<rparr>] = Ok False s \<and>
    rq_key ` set (m_queues s) = {1} \<and> m_wake_callback (queues s 1) = Some 0 \<and> circular_has_data (queues s 1) \<and>
    os_pipe s = 0 \<and> os_threads s = (wake_threads_start [])\<lparr>wt_late := {1}\<rparr> \<and> poll_timeout 0 s = Ok (- 1) s"
  by (simp add: queue_prog_def demo_env_def late_queue_def poll_eval add_queue_def circular_push_def notify_push_def set_reactor_def
      replace_wake_callback_def circular_has_data_def size_add_def)

text \<open>C40. The epoll reactor never sleeps on queued data: after any steps of any threads, preempted anywhere in \<open>push\<close>
  and \<open>wake_up\<close>, and any run that did not throw, when a queue that is registered with the reactor and bound to
  it holds data, the eventfd is readable, or the wait is done with a zero timeout, or a thread that has
  enqueued into this queue or is inside \<open>wake_up\<close> will still write to the eventfd. The exception is, as for
  the poll reactor, a queue that was registered and held data when it was bound.\<close>

theorem epoll_never_sleeps_on_data:
  assumes "ep_new create evfd ctl (ep_init cache ctls dups qs ps) = Ok () s0"
    and "ep_run d prog th envs (ep_foreign (ep_call d prog th) calls s0) = Ok b s"
    and "q \<in> rq_key ` set (e_queues s)" "m_wake_callback (e_user_queues s q) = Some 0" "circular_has_data (e_user_queues s q)"
    and "q \<notin> wt_late (k_threads s)"
  shows "0 < k_eventfd s \<or> (\<forall>now_us timeout s'. ep_timeout now_us s = Ok timeout s' \<longrightarrow> timeout = Some (0, 0)) \<or>
    q \<in> set (wt_pushing (k_threads s)) \<or> 0 < wt_signalling (k_threads s)"
proof (cases "q \<in> set (wt_pushing (k_threads s))")
  case False
  have "ep_covered s0" using assms(1)
    by (auto simp: ep_new_def ep_init_def Let_def ep_covered_def ep_waiting_defs ep_close_def split: sum.splits option.splits)
  then have "ep_covered (ep_foreign (ep_call d prog th) calls s0)" by (rule ep_covered_foreign)
  then have "ep_covered ((ep_foreign (ep_call d prog th) calls s0)\<lparr>e_thread := Some th, e_running := True\<rparr>)"
    by (simp add: ep_covered_def ep_waiting_defs)
  then have "ep_covered s" by (rule ep_covered_loop [OF _ assms(2) [unfolded ep_run_def]])
  moreover have "q \<in> ep_waiting s" using assms(3-6) False by (simp add: ep_waiting_defs)
  ultimately consider "0 < k_eventfd s" | "0 < wt_signalling (k_threads s)" | "e_queue_backlog s"
    by (auto simp: ep_covered_def ep_announced_def)
  then show ?thesis by cases (auto simp: ep_timeout_def rbind_eq_Ok Let_def split: option.splits if_splits)
qed simp

text \<open>The same queue with the epoll reactor.\<close>

definition ep_queue_new :: epoll_reactor where
  "ep_queue_new = the_state (ep_new (Inr 10) (Inr 11) None (ep_init 64 [] [] (\<lambda>_. demo_queue) []))"

lemma ep_queue_new: "ep_new (Inr 10) (Inr 11) None (ep_init 64 [] [] (\<lambda>_. demo_queue) []) = Ok () ep_queue_new"
  by (simp add: ep_queue_new_def ep_new_def Let_def)

definition ep_queue_env :: ep_environment where
  "ep_queue_env = \<lparr>ep_now_before = 0, ep_during_wait = [], ep_waited = Ep_ready [11], ep_before_wake = [], ep_before_queues = [],
     ep_before_timers = [], ep_now_after = 0\<rparr>"

definition ep_queue_prog :: ep_program where
  "ep_queue_prog c s = [Queue_pop 1]"

lemma ep_queue_result:
  "\<exists>s. ep_run 1 ep_queue_prog 2 [ep_queue_env] (ep_foreign (ep_call 1 ep_queue_prog 2) [(1, Add_queue 1 (Some 7))] ep_queue_new) = Ok False s \<and>
     k_eventfd s = 0 \<and> rq_key ` set (e_queues s) = {1} \<and> m_wake_callback (e_user_queues s 1) = Some 0 \<and>
     circular_has_data (e_user_queues s 1) \<and> k_threads s = wake_threads_start []"
  by (simp add: ep_run_def ep_loop_list ep_foreign_def ep_queue_new_def ep_new_def ep_init_def ep_queue_env_def ep_queue_prog_def
      ep_iteration_def ep_timeout_def get_next_deadline_us_def timer_new_def ep_serve_def ep_events_def ep_reported_def ep_disarm_def
      ep_disarm_fd_def EPOLLIN_def EPOLLONESHOT_def ep_dispatch_def ep_add_queue_def ep_wake_defs preempt_def wake_threads_start_def ep_wake_phase_def ep_queue_phase_def
      rq_notify_def circular_has_data_def circular_pop_def demo_queue_def ep_cleanup_def ep_timer_phase_def schedule_def
      timer_extract_def size_add_def Let_def)

theorem epoll_never_sleeps_on_data_witness:
  "\<exists>s. ep_run 1 ep_queue_prog 2 [ep_queue_env] (ep_foreign (ep_call 1 ep_queue_prog 2) [(1, Add_queue 1 (Some 7))] ep_queue_new) = Ok False s \<and>
     circular_has_data (e_user_queues s 1) \<and> (\<forall>now_us timeout s'. ep_timeout now_us s = Ok timeout s' \<longrightarrow> timeout = Some (0, 0))"
proof -
  obtain s where s: "ep_run 1 ep_queue_prog 2 [ep_queue_env] (ep_foreign (ep_call 1 ep_queue_prog 2) [(1, Add_queue 1 (Some 7))] ep_queue_new) = Ok False s"
    "k_eventfd s = 0" "rq_key ` set (e_queues s) = {1}" "m_wake_callback (e_user_queues s 1) = Some 0" "circular_has_data (e_user_queues s 1)"
    "k_threads s = wake_threads_start []"
    using ep_queue_result by blast
  then show ?thesis using epoll_never_sleeps_on_data [OF ep_queue_new s(1) _ s(4,5)] by (auto simp: wake_threads_start_def)
qed

end
