(* ===== verification/Bfc_Default_Reactor.thy ===== *)
theory Bfc_Default_Reactor
  imports Bfc_Epoll_Reactor
begin

text \<open>
  The choice of \<open>src/src/bfc/default_reactor.hpp\<close>: the macros of the build decide which reactor
  \<open>default_reactor\<close> names. Each macro is an argument.
\<close>

record build_macros =
  TARGET_LINUX :: bool
  TARGET_POSIX :: bool
  has_include :: bool
  has_epoll_header :: bool
  linux :: bool

datatype reactor_kind = Poll_kind | Epoll_kind

definition BFC_DEFAULT_REACTOR_EPOLL :: "build_macros \<Rightarrow> bool" where
  "BFC_DEFAULT_REACTOR_EPOLL b =
     (if TARGET_LINUX b then True
      else if TARGET_POSIX b then False
      else if has_include b then has_epoll_header b
      else linux b)"

definition default_reactor :: "build_macros \<Rightarrow> reactor_kind" where
  "default_reactor b = (if BFC_DEFAULT_REACTOR_EPOLL b then Epoll_kind else Poll_kind)"

text \<open>The targets force the choice, the first one winning; otherwise epoll is used where it exists.\<close>

lemma default_reactor_choice:
  "TARGET_LINUX b \<Longrightarrow> default_reactor b = Epoll_kind"
  "\<not> TARGET_LINUX b \<Longrightarrow> TARGET_POSIX b \<Longrightarrow> default_reactor b = Poll_kind"
  "\<not> TARGET_LINUX b \<Longrightarrow> \<not> TARGET_POSIX b \<Longrightarrow> has_include b \<Longrightarrow> default_reactor b = Epoll_kind \<longleftrightarrow> has_epoll_header b"
  by (simp_all add: default_reactor_def BFC_DEFAULT_REACTOR_EPOLL_def)

end
