(* ===== verification/Bfc_Cv_Reactor.thy ===== *)
theory Bfc_Cv_Reactor
  imports Bfc_Event_Queue Bfc_Timer
begin

text \<open>
  The reactor of \<open>src/src/bfc/cv_reactor.hpp\<close>, which waits on a condition variable instead of a descriptor. Its
  contexts are reactive queues, here circular lossy queues named by numbers; a queue that the program
  destroyed is \<open>None\<close>, and using it is the fault \<open>Dangling_pointer\<close>.

  What callbacks and other threads do is the type \<open>cv_action\<close>. A call of \<open>wake_up\<close> with a callback has two critical
  sections; another thread may be between them, which \<open>c_half_woken\<close> counts, so the run loop meets every
  interleaving of the two. The actions of other threads take place before and during the wait, before each context is
  visited and before the other phases of an iteration.
\<close>

section \<open>State\<close>

record cv_reactor =
  c_timeout_ms :: u64
  c_timer :: "nat timer"
  c_wakeup_req :: bool
  c_contexts :: "nat list"
  c_wake_up_cb :: "nat list"
  c_running :: bool
  c_thread :: "nat option"
  c_half_woken :: nat
  c_queues :: "nat \<Rightarrow> nat circular_queue option"

definition cv_new :: "u64 \<Rightarrow> (nat \<Rightarrow> nat circular_queue option) \<Rightarrow> cv_reactor" where
  "cv_new timeout qs =
     \<lparr>c_timeout_ms = timeout, c_timer = timer_new, c_wakeup_req = False, c_contexts = [], c_wake_up_cb = [],
      c_running = False, c_thread = None, c_half_woken = 0, c_queues = qs\<rparr>"

section \<open>Operations\<close>

text \<open>The two critical sections of \<open>wake_up\<close>.\<close>

definition cv_wake_push :: "nat \<Rightarrow> cv_reactor \<Rightarrow> cv_reactor" where
  "cv_wake_push cb s = s\<lparr>c_wake_up_cb := c_wake_up_cb s @ [cb], c_half_woken := Suc (c_half_woken s)\<rparr>"

definition cv_wake_flag :: "cv_reactor \<Rightarrow> cv_reactor" where
  "cv_wake_flag s = s\<lparr>c_wakeup_req := True\<rparr>"

definition cv_wake_up :: "nat option \<Rightarrow> cv_reactor \<Rightarrow> cv_reactor" where
  "cv_wake_up cb s =
     cv_wake_flag (case cb of Some c \<Rightarrow> s\<lparr>c_wake_up_cb := c_wake_up_cb s @ [c]\<rparr> | None \<Rightarrow> s)"

definition cv_stop :: "cv_reactor \<Rightarrow> cv_reactor" where
  "cv_stop s = cv_wake_up None (s\<lparr>c_running := False\<rparr>)"

definition cv_dtor :: "cv_reactor \<Rightarrow> cv_reactor" where
  "cv_dtor s = cv_stop s"

definition cv_is_reactor_thread :: "nat \<Rightarrow> cv_reactor \<Rightarrow> bool" where
  "cv_is_reactor_thread this_thread s = (case c_thread s of None \<Rightarrow> False | Some i \<Rightarrow> i = this_thread)"

definition cv_minimum_timer_step :: "bool \<Rightarrow> nat" where
  "cv_minimum_timer_step on_linux = (if on_linux then 1 else 1000)"

definition cv_set_callback :: "nat \<Rightarrow> nat option \<Rightarrow> cv_reactor \<Rightarrow> (cv_reactor, unit) result" where
  "cv_set_callback ctx cb s =
     (case c_queues s ctx of
        None \<Rightarrow> Throw Dangling_pointer s
      | Some q \<Rightarrow> Ok () (s\<lparr>c_queues := (c_queues s)(ctx \<mapsto> circular_set_callback cb q)\<rparr>))"

definition cv_add_read_rdy :: "nat \<Rightarrow> nat option \<Rightarrow> cv_reactor \<Rightarrow> (cv_reactor, bool) result" where
  "cv_add_read_rdy ctx cb s =
     rbind (cv_set_callback ctx cb s) (\<lambda>_ s.
       Ok True (if ctx \<in> set (c_contexts s) then s else s\<lparr>c_contexts := c_contexts s @ [ctx]\<rparr>))"

definition cv_remove_read_rdy :: "nat \<Rightarrow> cv_reactor \<Rightarrow> (cv_reactor, bool) result" where
  "cv_remove_read_rdy ctx s =
     rbind (cv_set_callback ctx None s) (\<lambda>_ s. Ok True (s\<lparr>c_contexts := removeAll ctx (c_contexts s)\<rparr>))"

datatype cv_action =
    Cv_add nat "nat option" | Cv_remove nat
  | Cv_wake_up "nat option" | Cv_wake_push nat | Cv_wake_flag | Cv_stop
  | Cv_queue_push nat nat | Cv_queue_pop nat | Cv_queue_destroy nat
  | Cv_timer_wait int "nat option" int | Cv_timer_cancel timer_id
  | Cv_raise int

text \<open>A push notifies the reactor the queue is bound to; this reactor is number 0.\<close>

fun cv_exec :: "cv_action \<Rightarrow> cv_reactor \<Rightarrow> (cv_reactor, unit) result" where
  "cv_exec (Cv_add ctx cb) s = rbind (cv_add_read_rdy ctx cb s) (\<lambda>_. Ok ())"
| "cv_exec (Cv_remove ctx) s = rbind (cv_remove_read_rdy ctx s) (\<lambda>_. Ok ())"
| "cv_exec (Cv_wake_up cb) s = Ok () (cv_wake_up cb s)"
| "cv_exec (Cv_wake_push cb) s = Ok () (cv_wake_push cb s)"
| "cv_exec Cv_wake_flag s =
     Ok () (if 0 < c_half_woken s then (cv_wake_flag s)\<lparr>c_half_woken := c_half_woken s - 1\<rparr> else s)"
| "cv_exec Cv_stop s = Ok () (cv_stop s)"
| "cv_exec (Cv_queue_push ctx v) s =
     (case c_queues s ctx of
        None \<Rightarrow> Throw Dangling_pointer s
      | Some q \<Rightarrow>
          (case circular_push v q of
             Throw e _ \<Rightarrow> Throw e s
           | Ok r q' \<Rightarrow>
               (let s = s\<lparr>c_queues := (c_queues s)(ctx \<mapsto> q')\<rparr>
                in Ok () (if woken r = Some 0 then cv_wake_up None s else s))))"
| "cv_exec (Cv_queue_pop ctx) s =
     (case c_queues s ctx of
        None \<Rightarrow> Throw Dangling_pointer s
      | Some q \<Rightarrow>
          (case circular_pop q of
             Throw e _ \<Rightarrow> Throw e s
           | Ok _ q' \<Rightarrow> Ok () (s\<lparr>c_queues := (c_queues s)(ctx \<mapsto> q')\<rparr>)))"
| "cv_exec (Cv_queue_destroy ctx) s = Ok () (s\<lparr>c_queues := (c_queues s)(ctx := None)\<rparr>)"
| "cv_exec (Cv_timer_wait for_us cb now) s =
     (case wait_us for_us cb now (c_timer s) of
        Throw e _ \<Rightarrow> Throw e s
      | Ok _ t \<Rightarrow> Ok () (s\<lparr>c_timer := t\<rparr>))"
| "cv_exec (Cv_timer_cancel i) s = Ok () (s\<lparr>c_timer := snd (cancel i (c_timer s))\<rparr>)"
| "cv_exec (Cv_raise e) s = Throw (Runtime_error e) s"

type_synonym cv_program = "nat \<Rightarrow> cv_reactor \<Rightarrow> cv_action list"

definition cv_call :: "cv_program \<Rightarrow> nat \<Rightarrow> cv_reactor \<Rightarrow> (cv_reactor, unit) result" where
  "cv_call prog cb s = rfold cv_exec (prog cb s) s"

definition cv_foreign :: "cv_action list \<Rightarrow> cv_reactor \<Rightarrow> cv_reactor" where
  "cv_foreign = fold (\<lambda>a s. the_state (cv_exec a s))"

section \<open>The run loop\<close>

definition cv_timeout :: "int \<Rightarrow> cv_reactor \<Rightarrow> (cv_reactor, int) result" where
  "cv_timeout now_us s =
     (let timeout_us = sint (c_timeout_ms s) * 1000
      in if \<not> int64_ok timeout_us then Throw Undefined_behaviour s
         else
           (case get_next_deadline_us (c_timer s) of
              None \<Rightarrow> Ok timeout_us s
            | Some next_deadline_us \<Rightarrow>
                (let diff = next_deadline_us - now_us
                 in if \<not> int64_ok diff then Throw Undefined_behaviour s
                    else Ok (if diff \<le> 0 then 0 else if diff < timeout_us then diff else timeout_us) s)))"

record cv_environment =
  cv_now_before :: int
  cv_before_wait :: "cv_action list"
  cv_during_wait :: "cv_action list"
  cv_before_snapshot :: "cv_action list"
  cv_before_visit :: "nat \<Rightarrow> cv_action list"
  cv_before_wake :: "cv_action list"
  cv_before_timers :: "cv_action list"
  cv_now_after :: int

text \<open>One context of the snapshot, which is a list of pointers.\<close>

definition cv_visit :: "cv_program \<Rightarrow> cv_environment \<Rightarrow> nat \<Rightarrow> cv_reactor \<Rightarrow> (cv_reactor, unit) result" where
  "cv_visit prog env ctx s =
     (let s = cv_foreign (cv_before_visit env ctx) s
      in case c_queues s ctx of
           None \<Rightarrow> Throw Dangling_pointer s
         | Some q \<Rightarrow>
             (if \<not> circular_has_data q then Ok () s
              else case circular_notify_callback q of None \<Rightarrow> Ok () s | Some cb \<Rightarrow> cv_call prog cb s))"

definition cv_context_phase :: "cv_program \<Rightarrow> cv_environment \<Rightarrow> cv_reactor \<Rightarrow> (cv_reactor, unit) result" where
  "cv_context_phase prog env s =
     (if c_wakeup_req s then
        (let s = cv_foreign (cv_before_snapshot env) (s\<lparr>c_wakeup_req := False\<rparr>)
         in rfold (cv_visit prog env) (c_contexts s) s)
      else Ok () s)"

definition cv_wake_phase :: "cv_program \<Rightarrow> cv_reactor \<Rightarrow> (cv_reactor, unit) result" where
  "cv_wake_phase prog s = (let cbl = c_wake_up_cb s in rfold (cv_call prog) cbl (s\<lparr>c_wake_up_cb := []\<rparr>))"

text \<open>
  \<open>wait_for\<close> tests its predicate before it sleeps and returns at once when it holds; else other threads run while it
  sleeps, until the predicate holds or the time-out has passed and the mutex is free.
\<close>

definition cv_wait_done :: "cv_reactor \<Rightarrow> bool" where
  "cv_wait_done s \<longleftrightarrow> c_wakeup_req s \<or> \<not> c_running s"

definition cv_wait :: "cv_environment \<Rightarrow> cv_reactor \<Rightarrow> cv_reactor" where
  "cv_wait env s =
     (let s = cv_foreign (cv_before_wait env) s
      in if cv_wait_done s then s else cv_foreign (cv_during_wait env) s)"

text \<open>An iteration; its value tells whether it left the loop because the reactor was stopped during the wait.\<close>

definition cv_iteration :: "cv_program \<Rightarrow> cv_environment \<Rightarrow> cv_reactor \<Rightarrow> (cv_reactor, bool) result" where
  "cv_iteration prog env s =
     rbind (cv_timeout (cv_now_before env) s) (\<lambda>_ s.
       (let s = cv_wait env s
        in if \<not> c_running s then Ok True s
           else
             rbind (cv_context_phase prog env s) (\<lambda>_ s.
             rbind (cv_wake_phase prog (cv_foreign (cv_before_wake env) s)) (\<lambda>_ s.
             rbind (schedule c_timer (\<lambda>t s. s\<lparr>c_timer := t\<rparr>) (cv_call prog) (cv_now_after env)
                 (cv_foreign (cv_before_timers env) s)) (\<lambda>_.
               Ok False)))))"

fun cv_loop :: "cv_program \<Rightarrow> cv_environment list \<Rightarrow> cv_reactor \<Rightarrow> (cv_reactor, bool) result" where
  "cv_loop prog envs s =
     (if \<not> c_running s then Ok True (s\<lparr>c_thread := None\<rparr>)
      else
        (case envs of
           [] \<Rightarrow> Ok False s
         | env # envs \<Rightarrow>
             rbind (cv_iteration prog env s) (\<lambda>left s.
               if left then Ok True (s\<lparr>c_thread := None\<rparr>) else cv_loop prog envs s)))"

declare cv_loop.simps [simp del]

definition cv_run :: "cv_program \<Rightarrow> nat \<Rightarrow> cv_environment list \<Rightarrow> cv_reactor \<Rightarrow> (cv_reactor, bool) result" where
  "cv_run prog th envs s = cv_loop prog envs (s\<lparr>c_thread := Some th, c_running := True\<rparr>)"

section \<open>Wake-ups\<close>

text \<open>A callback that waits to be run has set the request, or its caller is about to.\<close>

definition cv_alert :: "cv_reactor \<Rightarrow> bool" where
  "cv_alert s \<longleftrightarrow> (c_wake_up_cb s \<noteq> [] \<longrightarrow> c_wakeup_req s \<or> 0 < c_half_woken s)"

lemma cv_alert_exec:
  assumes "cv_alert s"
  shows "cv_alert (the_state (cv_exec a s))"
  using assms
  by (cases a) (auto simp: cv_alert_def cv_wake_up_def cv_wake_flag_def cv_wake_push_def cv_stop_def cv_add_read_rdy_def
      cv_remove_read_rdy_def cv_set_callback_def Let_def split: option.split result.split)

lemma cv_alert_call: "cv_alert s \<Longrightarrow> cv_alert (the_state (cv_call prog cb s))"
  unfolding cv_call_def by (rule rfold_inv [where I = cv_alert]) (rule cv_alert_exec)

lemma cv_alert_foreign: "cv_alert s \<Longrightarrow> cv_alert (cv_foreign as s)"
  unfolding cv_foreign_def by (rule fold_inv [where I = cv_alert]) (rule cv_alert_exec)

lemma cv_alert_wait: "cv_alert s \<Longrightarrow> cv_alert (cv_wait env s)"
  by (simp add: cv_wait_def Let_def cv_alert_foreign)

lemma cv_alert_wake_phase: "cv_alert (the_state (cv_wake_phase prog s))"
proof -
  have "cv_alert (s\<lparr>c_wake_up_cb := []\<rparr>)" by (simp add: cv_alert_def)
  then show ?thesis unfolding cv_wake_phase_def Let_def
    by (rule rfold_inv [where I = cv_alert, rotated]) (rule cv_alert_call)
qed

lemma cv_alert_schedule:
  assumes "cv_alert s"
  shows "cv_alert (the_state (schedule c_timer (\<lambda>t s. s\<lparr>c_timer := t\<rparr>) (cv_call prog) now s))"
proof -
  obtain ex t where e: "timer_extract now (c_timer s) = (ex, t)" by fastforce
  have "cv_alert (s\<lparr>c_timer := t\<rparr>)" using assms by (simp add: cv_alert_def)
  then have "cv_alert (the_state (rfold (\<lambda>(_, cb) s. case cb of None \<Rightarrow> Throw Bad_function_call s | Some c \<Rightarrow> cv_call prog c s) ex (s\<lparr>c_timer := t\<rparr>)))"
    by (rule rfold_inv [where I = cv_alert, rotated]) (auto intro: cv_alert_call split: option.split)
  then show ?thesis by (simp add: schedule_def e)
qed

lemma cv_alert_iteration:
  assumes "cv_alert s" "cv_iteration prog env s = Ok left t"
  shows "cv_alert t"
proof -
  obtain x s1 where t: "cv_timeout (cv_now_before env) s = Ok x s1" using assms(2) by (auto simp: cv_iteration_def rbind_eq_Ok)
  then have s1: "s1 = s" by (auto simp: cv_timeout_def Let_def split: if_splits option.splits)
  let ?s = "cv_wait env s"
  show ?thesis
  proof (cases "c_running ?s")
    case False
    then show ?thesis using assms t s1 cv_alert_wait by (auto simp: cv_iteration_def)
  next
    case True
    then obtain y u z v w where "cv_wake_phase prog (cv_foreign (cv_before_wake env) u) = Ok z v"
      and "schedule c_timer (\<lambda>t s. s\<lparr>c_timer := t\<rparr>) (cv_call prog) (cv_now_after env) (cv_foreign (cv_before_timers env) v) = Ok w t"
      using assms(2) t s1 by (auto simp: cv_iteration_def rbind_eq_Ok)
    then show ?thesis
      using cv_alert_schedule [OF cv_alert_foreign, of v prog "cv_now_after env" "cv_before_timers env"]
        cv_alert_wake_phase [of prog "cv_foreign (cv_before_wake env) u"] by simp
  qed
qed

lemma cv_alert_loop: "cv_alert s \<Longrightarrow> cv_loop prog envs s = Ok b t \<Longrightarrow> cv_alert t"
proof (induction envs arbitrary: s)
  case Nil
  then show ?case by (auto simp: cv_loop.simps cv_alert_def split: if_splits)
next
  case (Cons env envs)
  show ?case
  proof (cases "c_running s")
    case True
    then obtain left u where i: "cv_iteration prog env s = Ok left u"
      and r: "(if left then Ok True (u\<lparr>c_thread := None\<rparr>) else cv_loop prog envs u) = Ok b t"
      using Cons.prems(2) by (subst (asm) cv_loop.simps) (auto simp: rbind_eq_Ok)
    have "cv_alert u" by (rule cv_alert_iteration [OF Cons.prems(1) i])
    then show ?thesis using r Cons.IH [of u] by (cases left) (auto simp: cv_alert_def)
  next
    case False
    then show ?thesis using Cons.prems by (auto simp: cv_loop.simps [of prog "env # envs"] cv_alert_def)
  qed
qed

text \<open>C39. A wake-up is not lost and the wait is bounded: whenever \<open>run\<close> is between two iterations, or has returned,
  with a callback queued by \<open>wake_up\<close>, the wake-up request is set, so the next wait returns at once, or
  the thread that queued it is between the two critical sections of \<open>wake_up\<close> and will set it; and the
  time-out of a wait is never more than the configured one and never past the next timer.\<close>

theorem cv_wake_up_not_lost:
  assumes "cv_run prog th envs (cv_foreign calls (cv_new timeout qs)) = Ok b s"
  shows "(c_wake_up_cb s \<noteq> [] \<longrightarrow> c_wakeup_req s \<or> 0 < c_half_woken s) \<and>
    (cv_timeout now s = Ok us s' \<longrightarrow> s' = s \<and> us \<le> max 0 (sint (c_timeout_ms s) * 1000) \<and>
      (\<forall>d. get_next_deadline_us (c_timer s) = Some d \<longrightarrow> us \<le> max 0 (d - now)))"
proof -
  have "cv_alert (cv_new timeout qs)" by (simp add: cv_alert_def cv_new_def)
  then have "cv_alert (cv_foreign calls (cv_new timeout qs))" by (rule cv_alert_foreign)
  then have "cv_alert ((cv_foreign calls (cv_new timeout qs))\<lparr>c_thread := Some th, c_running := True\<rparr>)" by (simp add: cv_alert_def)
  then have "cv_alert s" using assms unfolding cv_run_def by (rule cv_alert_loop)
  moreover have "s' = s \<and> us \<le> max 0 (sint (c_timeout_ms s) * 1000) \<and>
      (\<forall>d. get_next_deadline_us (c_timer s) = Some d \<longrightarrow> us \<le> max 0 (d - now))" if "cv_timeout now s = Ok us s'"
    using that by (auto simp: cv_timeout_def Let_def split: if_splits option.splits)
  ultimately show ?thesis by (simp add: cv_alert_def)
qed

text \<open>Another thread is inside \<open>wake_up\<close> when the first iteration ends.\<close>

theorem cv_wake_up_not_lost_witness:
  "\<exists>s. cv_run (\<lambda>_ _. []) 1 [\<lparr>cv_now_before = 0, cv_before_wait = [], cv_during_wait = [Cv_wake_up None], cv_before_snapshot = [],
      cv_before_visit = (\<lambda>_. []), cv_before_wake = [], cv_before_timers = [Cv_wake_push 5], cv_now_after = 1\<rparr>]
      (cv_foreign [] (cv_new 100 (\<lambda>_. None))) = Ok False s \<and> c_wake_up_cb s = [5] \<and> (c_wakeup_req s \<or> 0 < c_half_woken s)"
proof -
  let ?env = "\<lparr>cv_now_before = 0, cv_before_wait = [], cv_during_wait = [Cv_wake_up None], cv_before_snapshot = [],
      cv_before_visit = (\<lambda>_. []), cv_before_wake = [], cv_before_timers = [Cv_wake_push 5], cv_now_after = 1\<rparr>"
  have "\<exists>s. cv_run (\<lambda>_ _. []) 1 [?env] (cv_foreign [] (cv_new 100 (\<lambda>_. None))) = Ok False s \<and> c_wake_up_cb s = [5]"
    by (simp add: cv_run_def cv_loop.simps cv_iteration_def cv_wait_def cv_wait_done_def cv_timeout_def cv_foreign_def cv_new_def int64_ok_def
        get_next_deadline_us_def timer_new_def cv_wake_up_def cv_wake_flag_def cv_context_phase_def cv_wake_phase_def
        schedule_def timer_extract_def cv_wake_push_def)
  then obtain s where s: "cv_run (\<lambda>_ _. []) 1 [?env] (cv_foreign [] (cv_new 100 (\<lambda>_. None))) = Ok False s" "c_wake_up_cb s = [5]" by blast
  then show ?thesis using cv_wake_up_not_lost [OF s(1)] by auto
qed

section \<open>Removed contexts\<close>

text \<open>
  The snapshot holds pointers: a context that a callback of the same pass removes and destroys is still visited.
\<close>

lemma cv_visit_dangling: "c_queues (cv_foreign (cv_before_visit env ctx) s) ctx = None \<Longrightarrow>
    \<exists>t. cv_visit prog env ctx s = Throw Dangling_pointer t"
  by (simp add: cv_visit_def Let_def)

end
