(* ===== verification/Bfc_Memory.thy ===== *)
theory Bfc_Memory
  imports Bfc_Prelude
begin

text \<open>
  Owning byte buffers and the memory pools they come from: \<open>simple_buffer\<close> of \<open>src/src/bfc/buffer.hpp\<close>,
  \<open>sized_buffer\<close> of \<open>src/src/bfc/sized_buffer.hpp\<close> and both pools of \<open>src/src/bfc/memory_pool.hpp\<close>.

  The state is an explicit store: the allocated blocks of bytes (a byte is \<open>None\<close> until it is written),
  the buffer objects by address, the size member of the \<open>sized_buffer\<close> objects by address (the storage
  member of a \<open>sized_buffer\<close> is the buffer at the same address) and the pools. Deleting a block that is not
  allocated, copying past the end of a block and returning a block to a pool that is gone are undefined
  behaviour. Whether an allocation succeeds is an argument of the operations that allocate. The lemmas
  show that every live block has exactly one owner, a buffer or the free list of a pool.
\<close>

section \<open>State\<close>

type_synonym addr = nat
type_synonym byte = "8 word"

text \<open>What a deleter captures: the default \<open>delete[]\<close>, or \<open>free\<close> of a pool.\<close>

datatype deleter = Delete_array | Pool_free nat

record simple_buffer =
  b_size :: size_t
  b_data :: "nat option"
  b_deleter :: "deleter option"

record sized_memory_pool =
  pl_size :: size_t
  m_allocations :: "nat list"

record memory =
  blocks :: "nat \<rightharpoonup> byte option list"
  next_block :: nat
  bufs :: "addr \<rightharpoonup> simple_buffer"
  sb_sizes :: "addr \<rightharpoonup> size_t"
  pools :: "nat \<rightharpoonup> sized_memory_pool"

definition memory_empty :: memory where
  "memory_empty = \<lparr>blocks = Map.empty, next_block = 0, bufs = Map.empty, sb_sizes = Map.empty, pools = Map.empty\<rparr>"

definition new_array :: "bool \<Rightarrow> size_t \<Rightarrow> memory \<Rightarrow> (memory, nat) result" where
  "new_array alloc_ok n w =
     (if \<not> alloc_ok then Throw Bad_alloc w
      else Ok (next_block w)
        (w\<lparr>blocks := (blocks w)(next_block w \<mapsto> replicate n None), next_block := next_block w + 1\<rparr>))"

definition delete_array :: "nat \<Rightarrow> memory \<Rightarrow> (memory, unit) result" where
  "delete_array p w =
     (if blocks w p = None then Throw Undefined_behaviour w else Ok () (w\<lparr>blocks := (blocks w)(p := None)\<rparr>))"

definition memcpy :: "nat \<Rightarrow> nat \<Rightarrow> size_t \<Rightarrow> memory \<Rightarrow> (memory, unit) result" where
  "memcpy dst src n w =
     (case (blocks w dst, blocks w src) of
        (Some d, Some s) \<Rightarrow>
          (if n \<le> length d \<and> n \<le> length s then Ok () (w\<lparr>blocks := (blocks w)(dst \<mapsto> take n s @ drop n d)\<rparr>)
           else Throw Undefined_behaviour w)
      | _ \<Rightarrow> Throw Undefined_behaviour w)"

section \<open>Pools\<close>

definition pool_new :: "nat \<Rightarrow> size_t \<Rightarrow> memory \<Rightarrow> memory" where
  "pool_new k n w = w\<lparr>pools := (pools w)(k \<mapsto> \<lparr>pl_size = n, m_allocations = []\<rparr>)\<rparr>"

definition pool_free :: "nat \<Rightarrow> nat \<Rightarrow> memory \<Rightarrow> (memory, unit) result" where
  "pool_free k p w =
     (case pools w k of
        None \<Rightarrow> Throw Undefined_behaviour w
      | Some pl \<Rightarrow> Ok () (w\<lparr>pools := (pools w)(k \<mapsto> pl\<lparr>m_allocations := m_allocations pl @ [p]\<rparr>)\<rparr>))"

definition allocate_raw :: "bool \<Rightarrow> nat \<Rightarrow> memory \<Rightarrow> (memory, nat) result" where
  "allocate_raw alloc_ok k w =
     (case pools w k of
        None \<Rightarrow> Throw Undefined_behaviour w
      | Some pl \<Rightarrow>
          (if m_allocations pl \<noteq> [] then
             (let rv = last (m_allocations pl)
              in Ok rv (w\<lparr>pools := (pools w)(k \<mapsto> pl\<lparr>m_allocations := butlast (m_allocations pl)\<rparr>)\<rparr>))
           else new_array alloc_ok (pl_size pl) w))"

definition pool_size :: "nat \<Rightarrow> memory \<Rightarrow> size_t option" where
  "pool_size k w = map_option pl_size (pools w k)"

text \<open>\<open>~sized_memory_pool\<close> releases the free list only; buffers still out keep a dangling deleter.\<close>

definition pool_dtor :: "nat \<Rightarrow> memory \<Rightarrow> (memory, unit) result" where
  "pool_dtor k w =
     (case pools w k of
        None \<Rightarrow> Throw Undefined_behaviour w
      | Some pl \<Rightarrow>
          rbind (rfold delete_array (m_allocations pl) w) (\<lambda>_ w. Ok () (w\<lparr>pools := (pools w)(k := None)\<rparr>)))"

section \<open>Buffers\<close>

definition buf_null :: simple_buffer where
  "buf_null = \<lparr>b_size = 0, b_data = None, b_deleter = None\<rparr>"

definition put_buf :: "addr \<Rightarrow> simple_buffer \<Rightarrow> memory \<Rightarrow> memory" where
  "put_buf a b w = w\<lparr>bufs := (bufs w)(a \<mapsto> b)\<rparr>"

text \<open>\<open>simple_buffer(p_data, p_size, p_deleter)\<close> and the default constructor.\<close>

definition buf_new :: "addr \<Rightarrow> nat option \<Rightarrow> size_t \<Rightarrow> deleter \<Rightarrow> memory \<Rightarrow> memory" where
  "buf_new a p n d w = put_buf a \<lparr>b_size = n, b_data = p, b_deleter = Some d\<rparr> w"

definition buf_default :: "addr \<Rightarrow> memory \<Rightarrow> memory" where
  "buf_default a w = put_buf a buf_null w"

definition buf_clear :: "addr \<Rightarrow> memory \<Rightarrow> memory" where
  "buf_clear a w = put_buf a buf_null w"

text \<open>A call of the deleter; a call of an empty one throws (and \<open>reset\<close>, being \<open>noexcept\<close>, terminates).\<close>

definition run_deleter :: "deleter option \<Rightarrow> nat \<Rightarrow> memory \<Rightarrow> (memory, unit) result" where
  "run_deleter d p w =
     (case d of
        None \<Rightarrow> Throw Bad_function_call w
      | Some Delete_array \<Rightarrow> delete_array p w
      | Some (Pool_free k) \<Rightarrow> pool_free k p w)"

definition buf_reset :: "addr \<Rightarrow> memory \<Rightarrow> (memory, unit) result" where
  "buf_reset a w =
     (case bufs w a of
        None \<Rightarrow> Throw Undefined_behaviour w
      | Some b \<Rightarrow>
          rbind (case b_data b of Some p \<Rightarrow> run_deleter (b_deleter b) p w | None \<Rightarrow> Ok () w)
            (\<lambda>_ w. Ok () (buf_clear a w)))"

definition buf_dtor :: "addr \<Rightarrow> memory \<Rightarrow> (memory, unit) result" where
  "buf_dtor a w = rbind (buf_reset a w) (\<lambda>_ w. Ok () (w\<lparr>bufs := (bufs w)(a := None)\<rparr>))"

definition buf_transfer :: "addr \<Rightarrow> addr \<Rightarrow> memory \<Rightarrow> (memory, unit) result" where
  "buf_transfer dst src w =
     (case bufs w src of
        None \<Rightarrow> Throw Undefined_behaviour w
      | Some b \<Rightarrow> Ok () (buf_clear src (put_buf dst b w)))"

definition buf_move_ctor :: "addr \<Rightarrow> addr \<Rightarrow> memory \<Rightarrow> (memory, unit) result" where
  "buf_move_ctor dst src w =
     (case bufs w src of
        None \<Rightarrow> Throw Undefined_behaviour w
      | Some b \<Rightarrow> Ok () (buf_clear src (put_buf dst b w)))"

definition buf_move_assign :: "addr \<Rightarrow> addr \<Rightarrow> memory \<Rightarrow> (memory, unit) result" where
  "buf_move_assign dst src w =
     (if dst \<noteq> src then rbind (buf_reset dst w) (\<lambda>_. buf_transfer dst src) else Ok () w)"

definition buf_data :: "addr \<Rightarrow> memory \<Rightarrow> nat option" where
  "buf_data a w = b_data (the (bufs w a))"

definition buf_size :: "addr \<Rightarrow> memory \<Rightarrow> size_t" where
  "buf_size a w = b_size (the (bufs w a))"

definition buf_empty :: "addr \<Rightarrow> memory \<Rightarrow> bool" where
  "buf_empty a w \<longleftrightarrow> buf_size a w = 0"

text \<open>\<open>sized_memory_pool::allocate\<close> constructs a buffer at \<open>a\<close>.\<close>

definition pool_allocate :: "bool \<Rightarrow> nat \<Rightarrow> addr \<Rightarrow> memory \<Rightarrow> (memory, unit) result" where
  "pool_allocate alloc_ok k a w =
     rbind (allocate_raw alloc_ok k w)
       (\<lambda>rv w. Ok () (buf_new a (Some rv) (pl_size (the (pools w k))) (Pool_free k) w))"

text \<open>
  \<open>log2_memory_pool\<close>: eleven pools of 16 to 16384 bytes, here numbered from \<open>base\<close>. \<open>ceil_log2\<close> is
  \<open>std::ceil(std::log2(n))\<close>: the doubles are exact where the result selects a pool.
\<close>

fun ceil_log2 :: "nat \<Rightarrow> nat" where
  "ceil_log2 n = (if n \<le> 1 then 0 else Suc (ceil_log2 ((n + 1) div 2)))"

declare ceil_log2.simps [simp del]

definition log2_pool_sizes :: "size_t list" where
  "log2_pool_sizes = [16, 32, 64, 128, 256, 512, 1024, 2048, 4096, 8192, 16384]"

definition log2_pool_new :: "nat \<Rightarrow> memory \<Rightarrow> memory" where
  "log2_pool_new base w =
     fold (\<lambda>i. pool_new (base + i) (log2_pool_sizes ! i)) [0..<length log2_pool_sizes] w"

definition log2_pool_index :: "size_t \<Rightarrow> fault + nat" where
  "log2_pool_index p_size =
     (if p_size \<le> 8 then Inl Bad_alloc
      else
        (let index = int (ceil_log2 p_size) - 4
         in if 0 \<le> index \<and> index < int (length log2_pool_sizes) then Inr (nat index) else Inl Out_of_range))"

definition log2_allocate :: "bool \<Rightarrow> nat \<Rightarrow> size_t \<Rightarrow> addr \<Rightarrow> memory \<Rightarrow> (memory, unit) result" where
  "log2_allocate alloc_ok base p_size a w =
     (case log2_pool_index p_size of
        Inl e \<Rightarrow> Throw e w
      | Inr i \<Rightarrow> pool_allocate alloc_ok (base + i) a w)"

definition log2_free :: "nat \<Rightarrow> nat \<Rightarrow> size_t \<Rightarrow> memory \<Rightarrow> (memory, unit) result" where
  "log2_free base p_alloc p_size w =
     (case log2_pool_index p_size of
        Inl e \<Rightarrow> Throw e w
      | Inr i \<Rightarrow> pool_free (base + i) p_alloc w)"

section \<open>Sized buffers\<close>

definition sb_default :: "addr \<Rightarrow> memory \<Rightarrow> memory" where
  "sb_default a w = (buf_default a w)\<lparr>sb_sizes := (sb_sizes w)(a \<mapsto> 0)\<rparr>"

definition sb_size :: "addr \<Rightarrow> memory \<Rightarrow> size_t" where
  "sb_size a w = the (sb_sizes w a)"

definition sb_capacity :: "addr \<Rightarrow> memory \<Rightarrow> size_t" where
  "sb_capacity a w = buf_size a w"

definition sb_empty :: "addr \<Rightarrow> memory \<Rightarrow> bool" where
  "sb_empty a w \<longleftrightarrow> sb_size a w = 0"

definition sb_data :: "addr \<Rightarrow> memory \<Rightarrow> nat option" where
  "sb_data a w = buf_data a w"

definition sb_set_size :: "addr \<Rightarrow> size_t \<Rightarrow> memory \<Rightarrow> memory" where
  "sb_set_size a n w = w\<lparr>sb_sizes := (sb_sizes w)(a \<mapsto> n)\<rparr>"

definition sb_clear :: "addr \<Rightarrow> memory \<Rightarrow> (memory, unit) result" where
  "sb_clear a w = rbind (buf_reset a w) (\<lambda>_ w. Ok () (sb_set_size a 0 w))"

text \<open>\<open>m_storage = bfc::buffer(data, n)\<close>: move assignment from a temporary, which is left empty.\<close>

definition assign_temporary :: "addr \<Rightarrow> nat \<Rightarrow> size_t \<Rightarrow> memory \<Rightarrow> (memory, unit) result" where
  "assign_temporary a p n w = rbind (buf_reset a w) (\<lambda>_ w. Ok () (buf_new a (Some p) n Delete_array w))"

definition sb_reserve :: "bool \<Rightarrow> addr \<Rightarrow> size_t \<Rightarrow> memory \<Rightarrow> (memory, unit) result" where
  "sb_reserve alloc_ok a new_capacity w =
     (if new_capacity \<le> sb_capacity a w then Ok () w
      else
        rbind (new_array alloc_ok new_capacity w) (\<lambda>data w.
        rbind (case buf_data a w of
                 Some src \<Rightarrow> (if sb_size a w > 0 then memcpy data src (sb_size a w) w else Ok () w)
               | None \<Rightarrow> Ok () w)
          (\<lambda>_. assign_temporary a data new_capacity)))"

definition sb_resize :: "bool \<Rightarrow> addr \<Rightarrow> size_t \<Rightarrow> memory \<Rightarrow> (memory, unit) result" where
  "sb_resize alloc_ok a new_size w =
     rbind (if new_size > sb_capacity a w then sb_reserve alloc_ok a new_size w else Ok () w)
       (\<lambda>_ w. Ok () (sb_set_size a new_size w))"

definition sb_new :: "bool \<Rightarrow> addr \<Rightarrow> size_t \<Rightarrow> memory \<Rightarrow> (memory, unit) result" where
  "sb_new alloc_ok a initial_size w = sb_resize alloc_ok a initial_size (sb_default a w)"

definition sb_from_buffer :: "addr \<Rightarrow> addr \<Rightarrow> size_t \<Rightarrow> memory \<Rightarrow> (memory, unit) result" where
  "sb_from_buffer a src n w =
     rbind (buf_move_assign a src (sb_default a w)) (\<lambda>_ w. Ok () (sb_set_size a n w))"

text \<open>The defaulted moves copy \<open>m_size\<close> and move \<open>m_storage\<close>.\<close>

definition sb_move_ctor :: "addr \<Rightarrow> addr \<Rightarrow> memory \<Rightarrow> (memory, unit) result" where
  "sb_move_ctor dst src w = buf_move_ctor dst src (sb_set_size dst (sb_size src w) w)"

definition sb_move_assign :: "addr \<Rightarrow> addr \<Rightarrow> memory \<Rightarrow> (memory, unit) result" where
  "sb_move_assign dst src w = buf_move_assign dst src (sb_set_size dst (sb_size src w) w)"

definition sb_dtor :: "addr \<Rightarrow> memory \<Rightarrow> (memory, unit) result" where
  "sb_dtor a w = rbind (buf_dtor a w) (\<lambda>_ w. Ok () (w\<lparr>sb_sizes := (sb_sizes w)(a := None)\<rparr>))"

text \<open>\<open>to_buffer\<close> constructs its result at \<open>dst\<close>.\<close>

definition sb_to_buffer :: "bool \<Rightarrow> addr \<Rightarrow> addr \<Rightarrow> memory \<Rightarrow> (memory, unit) result" where
  "sb_to_buffer alloc_ok a dst w =
     (if sb_size a w = 0 then rbind (sb_clear a w) (\<lambda>_ w. Ok () (buf_default dst w))
      else if sb_size a w = buf_size a w then buf_move_ctor dst a (sb_set_size a 0 w)
      else
        (let out_size = sb_size a w in
         rbind (new_array alloc_ok out_size w) (\<lambda>data w.
         rbind (case buf_data a w of Some src \<Rightarrow> memcpy data src out_size w | None \<Rightarrow> Ok () w) (\<lambda>_ w.
         rbind (sb_clear a w) (\<lambda>_ w.
           Ok () (buf_new dst (Some data) out_size Delete_array w))))))"


section \<open>Ownership\<close>

datatype owner = In_buffer addr | In_pool nat nat

definition owns :: "memory \<Rightarrow> owner \<Rightarrow> nat \<Rightarrow> bool" where
  "owns w ow p \<longleftrightarrow>
     (case ow of
        In_buffer a \<Rightarrow> (case bufs w a of None \<Rightarrow> False | Some b \<Rightarrow> b_data b = Some p)
      | In_pool k i \<Rightarrow>
          (case pools w k of None \<Rightarrow> False | Some pl \<Rightarrow> i < length (m_allocations pl) \<and> m_allocations pl ! i = p))"

definition block_len :: "memory \<Rightarrow> nat \<Rightarrow> size_t option" where
  "block_len w p = map_option length (blocks w p)"

text \<open>A buffer fits its block and its deleter, and a free list holds blocks of its pool's size.\<close>

definition buf_ok :: "memory \<Rightarrow> simple_buffer \<Rightarrow> bool" where
  "buf_ok w b \<longleftrightarrow>
     (case b_data b of
        None \<Rightarrow> b_size b = 0
      | Some p \<Rightarrow> block_len w p = Some (b_size b) \<and>
          (case b_deleter b of
             None \<Rightarrow> False
           | Some Delete_array \<Rightarrow> True
           | Some (Pool_free k) \<Rightarrow> pool_size k w = Some (b_size b)))"

definition pool_ok :: "memory \<Rightarrow> sized_memory_pool \<Rightarrow> bool" where
  "pool_ok w pl \<longleftrightarrow> (\<forall>p \<in> set (m_allocations pl). block_len w p = Some (pl_size pl))"

text \<open>
  Well-formed memory: ownership is a partial function whose domain is the live blocks, so every block
  has exactly one owner and nothing owns a dead block.
\<close>

definition mem_wf :: "memory \<Rightarrow> bool" where
  "mem_wf w \<longleftrightarrow>
     (\<exists>own. (\<forall>ow p. owns w ow p \<longleftrightarrow> own p = Some ow) \<and> dom own = dom (blocks w)) \<and>
     (\<forall>p. blocks w p \<noteq> None \<longrightarrow> p < next_block w) \<and>
     (\<forall>a b. bufs w a = Some b \<longrightarrow> buf_ok w b) \<and> (\<forall>k pl. pools w k = Some pl \<longrightarrow> pool_ok w pl)"

lemma mem_wf_own:
  assumes "mem_wf w"
  obtains own where "\<And>ow p. owns w ow p \<longleftrightarrow> own p = Some ow" "dom own = dom (blocks w)"
  using assms unfolding mem_wf_def by blast

lemma mem_wfD:
  assumes "mem_wf w"
  shows "blocks w p \<noteq> None \<Longrightarrow> p < next_block w" "bufs w a = Some b \<Longrightarrow> buf_ok w b"
    "pools w k = Some pl \<Longrightarrow> pool_ok w pl"
  using assms unfolding mem_wf_def by blast+

lemma mem_wfI:
  assumes "\<And>ow p. owns w ow p \<longleftrightarrow> own p = Some ow" "dom own = dom (blocks w)"
    and "\<And>p. blocks w p \<noteq> None \<Longrightarrow> p < next_block w" "\<And>a b. bufs w a = Some b \<Longrightarrow> buf_ok w b"
    and "\<And>k pl. pools w k = Some pl \<Longrightarrow> pool_ok w pl"
  shows "mem_wf w"
  using assms unfolding mem_wf_def by blast

lemma owns_simps [simp]:
  "owns w (In_buffer a) p \<longleftrightarrow> (\<exists>b. bufs w a = Some b \<and> b_data b = Some p)"
  "owns w (In_pool k i) p \<longleftrightarrow> (\<exists>pl. pools w k = Some pl \<and> i < length (m_allocations pl) \<and> m_allocations pl ! i = p)"
  by (auto simp: owns_def split: option.splits)

lemma owned_live:
  assumes "mem_wf w"
  shows "bufs w a = Some b \<Longrightarrow> b_data b = Some p \<Longrightarrow> blocks w p \<noteq> None"
    and "pools w k = Some pl \<Longrightarrow> p \<in> set (m_allocations pl) \<Longrightarrow> blocks w p \<noteq> None"
  using mem_wfD(2,3) [OF assms] by (fastforce simp: buf_ok_def pool_ok_def block_len_def)+

lemma ok_cong:
  assumes "block_len w' = block_len w" "\<And>k. pool_size k w' = pool_size k w"
  shows "buf_ok w' b = buf_ok w b" "pool_ok w' pl = pool_ok w pl"
  using assms by (simp_all add: buf_ok_def pool_ok_def split: option.splits deleter.splits)

lemma ok_frame [simp]:
  "buf_ok (put_buf a b' w) b = buf_ok w b" "pool_ok (put_buf a b' w) pl = pool_ok w pl"
  "buf_ok (w\<lparr>bufs := m\<rparr>) b = buf_ok w b" "pool_ok (w\<lparr>bufs := m\<rparr>) pl = pool_ok w pl"
  "buf_ok (w\<lparr>sb_sizes := z\<rparr>) b = buf_ok w b" "pool_ok (w\<lparr>sb_sizes := z\<rparr>) pl = pool_ok w pl"
  by (auto intro!: ok_cong simp: put_buf_def block_len_def fun_eq_iff pool_size_def)

lemma bufs_put [simp]:
  "bufs (put_buf a b w) = (bufs w)(a \<mapsto> b)" "blocks (put_buf a b w) = blocks w" "pools (put_buf a b w) = pools w"
  "next_block (put_buf a b w) = next_block w" "sb_sizes (put_buf a b w) = sb_sizes w"
  by (simp_all add: put_buf_def)

lemma buf_ok_null [simp]: "buf_ok w buf_null"
  by (simp add: buf_ok_def buf_null_def)

text \<open>The steps that move ownership; every operation is a sequence of these.\<close>

lemma wf_null:
  assumes "mem_wf w" "bufs w a = None \<or> b_data (the (bufs w a)) = None"
  shows "mem_wf (put_buf a buf_null w)" "mem_wf (w\<lparr>bufs := (bufs w)(a := None)\<rparr>)"
proof -
  obtain own where own: "\<And>ow p. owns w ow p \<longleftrightarrow> own p = Some ow" "dom own = dom (blocks w)"
    by (rule mem_wf_own [OF assms(1)]) blast
  have o: "owns w' ow p \<longleftrightarrow> owns w ow p" if "w' = put_buf a buf_null w \<or> w' = w\<lparr>bufs := (bufs w)(a := None)\<rparr>" for w' ow p
    using that assms(2) by (cases ow) (auto simp: buf_null_def split: if_splits)
  show "mem_wf (put_buf a buf_null w)"
    by (rule mem_wfI [where own = own])
      (use own mem_wfD [OF assms(1)] o in \<open>auto simp: bufs_put split: if_splits\<close>)
  show "mem_wf (w\<lparr>bufs := (bufs w)(a := None)\<rparr>)"
    by (rule mem_wfI [where own = own])
      (use own mem_wfD [OF assms(1)] o in \<open>auto split: if_splits\<close>)
qed

lemma wf_move:
  assumes wf: "mem_wf w" and b: "bufs w src = Some b" and ne: "dst \<noteq> src"
    and dst: "bufs w dst = None \<or> b_data (the (bufs w dst)) = None"
  shows "mem_wf (put_buf src buf_null (put_buf dst b w))"
proof -
  let ?w = "put_buf src buf_null (put_buf dst b w)"
  obtain own where own: "\<And>ow p. owns w ow p \<longleftrightarrow> own p = Some ow" "dom own = dom (blocks w)"
    by (rule mem_wf_own [OF wf]) blast
  define own' where "own' p = (if own p = Some (In_buffer src) then Some (In_buffer dst) else own p)" for p
  have nd: "own p \<noteq> Some (In_buffer dst)" for p
    using own(1) [of "In_buffer dst" p] dst by auto
  have s: "own p = Some (In_buffer src) \<longleftrightarrow> b_data b = Some p" for p
    using own(1) [of "In_buffer src" p] b by auto
  show ?thesis
  proof (rule mem_wfI [where own = own'])
    show "owns ?w ow p \<longleftrightarrow> own' p = Some ow" for ow p
    proof (cases ow)
      case (In_buffer a)
      consider "a = src" | "a = dst" "a \<noteq> src" | "a \<noteq> src" "a \<noteq> dst" by blast
      then show ?thesis
        using ne s [of p] nd [of p] own(1) [of ow p] In_buffer by cases (auto simp: put_buf_def own'_def buf_null_def)
    next
      case (In_pool k i)
      then show ?thesis using own(1) [of ow p] s [of p] by (auto simp: put_buf_def own'_def)
    qed
    show "dom own' = dom (blocks ?w)" using own(2) by (auto simp: own'_def put_buf_def dom_def)
  qed (use mem_wfD [OF wf] b in \<open>auto simp: bufs_put split: if_splits\<close>)
qed

lemmas wf_defs = put_buf_def buf_ok_def buf_null_def pool_ok_def block_len_def pool_size_def

definition with_block :: "nat \<Rightarrow> byte option list option \<Rightarrow> memory \<Rightarrow> memory" where
  "with_block p bytes w = w\<lparr>blocks := (blocks w)(p := bytes)\<rparr>"

text \<open>A block replaced by one of the same length.\<close>

lemma wf_bytes:
  assumes wf: "mem_wf w" and "block_len w p = Some (length bytes)"
  shows "mem_wf (with_block p (Some bytes) w)"
proof -
  obtain own where own: "\<And>ow p. owns w ow p \<longleftrightarrow> own p = Some ow" "dom own = dom (blocks w)"
    by (rule mem_wf_own [OF wf]) blast
  have len: "block_len (with_block p (Some bytes) w) q = block_len w q" for q
    using assms(2) by (auto simp: block_len_def with_block_def)
  have "p \<in> dom (blocks w)" using assms(2) by (auto simp: block_len_def)
  show ?thesis
  proof (rule mem_wfI [where own = own])
    show "owns (with_block p (Some bytes) w) ow q \<longleftrightarrow> own q = Some ow" for ow q
      using own(1) [of ow q] by (cases ow) (auto simp: with_block_def)
    show "buf_ok (with_block p (Some bytes) w) b" if "bufs (with_block p (Some bytes) w) a = Some b" for a b
    proof -
      have "buf_ok w b" using that mem_wfD(2) [OF wf] by (simp add: with_block_def)
      then show ?thesis using len
        by (auto simp: buf_ok_def with_block_def pool_size_def split: option.splits deleter.splits)
    qed
    show "pool_ok (with_block p (Some bytes) w) pl" if "pools (with_block p (Some bytes) w) k = Some pl" for k pl
    proof -
      have "pool_ok w pl" using that mem_wfD(3) [OF wf] by (simp add: with_block_def)
      then show ?thesis using len by (simp add: pool_ok_def)
    qed
  qed (use own mem_wfD(1) [OF wf] \<open>p \<in> dom (blocks w)\<close> in \<open>auto simp: with_block_def split: if_splits\<close>)
qed

text \<open>A new block given to a buffer that holds none, with its default deleter or that of a pool.\<close>

lemma wf_new:
  assumes wf: "mem_wf w" and a: "bufs w a = None \<or> b_data (the (bufs w a)) = None"
    and p: "next_block w \<le> p" and d: "case d of Delete_array \<Rightarrow> True | Pool_free k \<Rightarrow> pool_size k w = Some (length bytes)"
  shows "mem_wf (put_buf a \<lparr>b_size = length bytes, b_data = Some p, b_deleter = Some d\<rparr>
    ((with_block p (Some bytes) w)\<lparr>next_block := Suc p\<rparr>))" (is "mem_wf ?w")
proof -
  obtain own where own: "\<And>ow p. owns w ow p \<longleftrightarrow> own p = Some ow" "dom own = dom (blocks w)"
    by (rule mem_wf_own [OF wf]) blast
  have "blocks w p = None" using mem_wfD(1) [OF wf, of p] p by fastforce
  moreover from this have "own p = None" using own(2) by blast
  ultimately have fresh: "blocks w p = None" "own p = None" .
  have len: "block_len ?w q = (if q = p then Some (length bytes) else block_len w q)" for q
    by (simp add: block_len_def with_block_def put_buf_def)
  have live: "q \<noteq> p" if "block_len w q = Some n" for q n using that fresh by (auto simp: block_len_def)
  show ?thesis
  proof (rule mem_wfI [where own = "own(p \<mapsto> In_buffer a)"])
    show "owns ?w ow q \<longleftrightarrow> (own(p \<mapsto> In_buffer a)) q = Some ow" for ow q
    proof (cases ow)
      case (In_buffer a')
      then show ?thesis using own(1) [of ow q] own(1) [of ow p] fresh a
        by (cases "a' = a") (auto simp: put_buf_def with_block_def)
    next
      case (In_pool k i)
      then show ?thesis using own(1) [of ow q] own(1) [of ow p] fresh by (auto simp: put_buf_def with_block_def)
    qed
    show "buf_ok ?w b" if "bufs ?w a' = Some b" for a' b
    proof (cases "a' = a")
      case True
      then show ?thesis using that d len by (auto simp: buf_ok_def put_buf_def with_block_def pool_size_def block_len_def split: deleter.splits)
    next
      case False
      then have "buf_ok w b" using that mem_wfD(2) [OF wf] by (simp add: put_buf_def with_block_def)
      then show ?thesis using len live
        by (fastforce simp: buf_ok_def put_buf_def with_block_def pool_size_def split: option.splits deleter.splits)
    qed
    show "pool_ok ?w pl" if "pools ?w k = Some pl" for k pl
    proof -
      have "pool_ok w pl" using that mem_wfD(3) [OF wf] by (simp add: put_buf_def with_block_def)
      then show ?thesis using len live by (fastforce simp: pool_ok_def)
    qed
    show "dom (own(p \<mapsto> In_buffer a)) = dom (blocks ?w)" using own(2) by (auto simp: with_block_def)
    show "q < next_block ?w" if "blocks ?w q \<noteq> None" for q
      using that mem_wfD(1) [OF wf, of q] p by (cases "q = p") (simp_all add: with_block_def)
  qed
qed

text \<open>The block of a buffer deleted, the buffer left empty.\<close>

lemma wf_delete:
  assumes wf: "mem_wf w" and b: "bufs w a = Some b" "b_data b = Some p"
  shows "mem_wf (put_buf a buf_null (with_block p None w))" (is "mem_wf ?w")
proof -
  obtain own where own: "\<And>ow p. owns w ow p \<longleftrightarrow> own p = Some ow" "dom own = dom (blocks w)"
    by (rule mem_wf_own [OF wf]) blast
  have ow: "own p = Some (In_buffer a)" using own(1) [of "In_buffer a" p] b by auto
  have len: "block_len ?w q = (if q = p then None else block_len w q)" for q
    by (simp add: block_len_def with_block_def put_buf_def)
  show ?thesis
  proof (rule mem_wfI [where own = "own(p := None)"])
    show "owns ?w o' q \<longleftrightarrow> (own(p := None)) q = Some o'" for o' q
    proof (cases o')
      case (In_buffer a')
      then show ?thesis using own(1) [of o' q] ow b
        by (cases "a' = a") (auto simp: put_buf_def with_block_def buf_null_def)
    next
      case (In_pool k i)
      then show ?thesis using own(1) [of o' q] ow by (auto simp: put_buf_def with_block_def)
    qed
    show "buf_ok ?w b'" if "bufs ?w a' = Some b'" for a' b'
    proof (cases "a' = a")
      case True
      then show ?thesis using that by (auto simp: put_buf_def buf_ok_def buf_null_def)
    next
      case False
      then have b': "bufs w a' = Some b'" using that by (simp add: put_buf_def with_block_def)
      have "b_data b' \<noteq> Some p" using own(1) [of "In_buffer a'" p] ow b' False by auto
      then show ?thesis using mem_wfD(2) [OF wf b'] len
        by (auto simp: buf_ok_def put_buf_def with_block_def pool_size_def split: option.splits deleter.splits)
    qed
    show "pool_ok ?w pl" if "pools ?w k = Some pl" for k pl
    proof -
      have pl: "pools w k = Some pl" using that by (simp add: put_buf_def with_block_def)
      have "q \<noteq> p" if "q \<in> set (m_allocations pl)" for q
      proof
        assume "q = p"
        with that obtain i where "i < length (m_allocations pl)" "m_allocations pl ! i = p" by (auto simp: in_set_conv_nth)
        then show False using pl own(1) [of "In_pool k i" p] ow by auto
      qed
      then show ?thesis using mem_wfD(3) [OF wf pl] len by (auto simp: pool_ok_def)
    qed
  qed (use own(2) mem_wfD(1) [OF wf] in \<open>auto simp: with_block_def split: if_splits\<close>)
qed

text \<open>The block of a buffer given back to its pool, and a block taken from a pool's free list.\<close>

lemma wf_to_pool:
  assumes wf: "mem_wf w" and b: "bufs w a = Some b" "b_data b = Some p" and pl: "pools w k = Some pl"
    and size: "pl_size pl = b_size b"
  shows "mem_wf (put_buf a buf_null (w\<lparr>pools := (pools w)(k \<mapsto> pl\<lparr>m_allocations := m_allocations pl @ [p]\<rparr>)\<rparr>))"
    (is "mem_wf ?w")
proof -
  obtain own where own: "\<And>ow p. owns w ow p \<longleftrightarrow> own p = Some ow" "dom own = dom (blocks w)"
    by (rule mem_wf_own [OF wf]) blast
  have ow: "own p = Some (In_buffer a)" using own(1) [of "In_buffer a" p] b by auto
  have len: "block_len ?w = block_len w" by (simp add: fun_eq_iff block_len_def)
  have ps: "pool_size k' ?w = pool_size k' w" for k' using pl by (simp add: pool_size_def)
  show ?thesis
  proof (rule mem_wfI [where own = "own(p \<mapsto> In_pool k (length (m_allocations pl)))"])
    show "owns ?w o' q \<longleftrightarrow> (own(p \<mapsto> In_pool k (length (m_allocations pl)))) q = Some o'" for o' q
    proof (cases o')
      case (In_buffer a')
      then show ?thesis using own(1) [of o' q] ow b by (cases "a' = a") (auto simp: buf_null_def)
    next
      case (In_pool k' i)
      have np: "\<not> owns w (In_pool k' i) p" using own(1) [of "In_pool k' i" p] ow by simp
      show ?thesis
      proof (cases "k' = k")
        case True
        have "owns ?w o' q \<longleftrightarrow> (if i = length (m_allocations pl) then q = p else owns w o' q)"
          using In_pool True pl by (auto simp: nth_append)
        then show ?thesis using own(1) [of o' q] np In_pool True pl
          by (auto simp del: owns_simps) (auto simp: owns_simps)
      next
        case False
        then have "owns ?w o' q \<longleftrightarrow> owns w o' q" using In_pool by simp
        then show ?thesis using own(1) [of o' q] np In_pool False by (auto simp del: owns_simps)
      qed
    qed
    show "dom (own(p \<mapsto> In_pool k (length (m_allocations pl)))) = dom (blocks ?w)"
      using own(2) owned_live(1) [OF wf b] by auto
    show "buf_ok ?w b'" if "bufs ?w a' = Some b'" for a' b'
      using that mem_wfD(2) [OF wf, of a' b'] ok_cong [OF len ps] by (auto split: if_splits)
    show "pool_ok ?w pl'" if "pools ?w k' = Some pl'" for k' pl'
    proof (cases "k' = k")
      case True
      moreover have "block_len w p = Some (pl_size pl)" using mem_wfD(2) [OF wf b(1)] b(2) size by (simp add: buf_ok_def)
      ultimately show ?thesis using that mem_wfD(3) [OF wf pl] len by (auto simp: pool_ok_def)
    next
      case False
      then show ?thesis using that mem_wfD(3) [OF wf, of k' pl'] ok_cong [OF len ps] by simp
    qed
  qed (use mem_wfD(1) [OF wf] in simp)
qed

lemma wf_from_pool:
  assumes wf: "mem_wf w" and a: "bufs w a = None \<or> b_data (the (bufs w a)) = None"
    and pl: "pools w k = Some pl" "m_allocations pl \<noteq> []"
  shows "mem_wf (put_buf a \<lparr>b_size = pl_size pl, b_data = Some (last (m_allocations pl)), b_deleter = Some (Pool_free k)\<rparr>
      (w\<lparr>pools := (pools w)(k \<mapsto> pl\<lparr>m_allocations := butlast (m_allocations pl)\<rparr>)\<rparr>))" (is "mem_wf ?w")
proof -
  obtain own where own: "\<And>ow p. owns w ow p \<longleftrightarrow> own p = Some ow" "dom own = dom (blocks w)"
    by (rule mem_wf_own [OF wf]) blast
  let ?p = "last (m_allocations pl)" and ?n = "length (m_allocations pl) - 1"
  have l: "?p = m_allocations pl ! ?n" "?n < length (m_allocations pl)" using pl(2) by (simp_all add: last_conv_nth)
  have ow: "own ?p = Some (In_pool k ?n)" using own(1) [of "In_pool k ?n" ?p] pl l by auto
  have len: "block_len ?w = block_len w" by (simp add: fun_eq_iff block_len_def)
  have ps: "pool_size k' ?w = pool_size k' w" for k' using pl by (simp add: pool_size_def)
  have bl: "block_len w ?p = Some (pl_size pl)" using mem_wfD(3) [OF wf pl(1)] pl(2) by (simp add: pool_ok_def)
  show ?thesis
  proof (rule mem_wfI [where own = "own(?p \<mapsto> In_buffer a)"])
    show "owns ?w o' q \<longleftrightarrow> (own(?p \<mapsto> In_buffer a)) q = Some o'" for o' q
    proof (cases o')
      case (In_buffer a')
      then show ?thesis using own(1) [of o' q] own(1) [of o' ?p] ow a by (cases "a' = a") auto
    next
      case (In_pool k' i)
      show ?thesis
      proof (cases "k' = k")
        case True
        have "owns ?w o' q \<longleftrightarrow> owns w o' q \<and> i \<noteq> ?n"
          using In_pool True pl by (auto simp: nth_butlast)
        moreover have "own q = Some (In_pool k ?n) \<longleftrightarrow> q = ?p"
          using own(1) [of "In_pool k ?n" q] pl l by auto
        ultimately show ?thesis using own(1) [of o' q] In_pool True ow by (auto simp del: owns_simps)
      next
        case False
        then have "owns ?w o' q \<longleftrightarrow> owns w o' q" using In_pool by simp
        then show ?thesis using own(1) [of o' q] ow In_pool False by (auto simp del: owns_simps)
      qed
    qed
    show "dom (own(?p \<mapsto> In_buffer a)) = dom (blocks ?w)"
      using own(2) bl by (auto simp: block_len_def)
    show "buf_ok ?w b'" if "bufs ?w a' = Some b'" for a' b'
    proof (cases "a' = a")
      case True
      then show ?thesis using that bl len ps pl by (auto simp: buf_ok_def pool_size_def)
    next
      case False
      then show ?thesis using that mem_wfD(2) [OF wf, of a' b'] ok_cong [OF len ps] by simp
    qed
    show "pool_ok ?w pl'" if "pools ?w k' = Some pl'" for k' pl'
    proof (cases "k' = k")
      case True
      then show ?thesis using that mem_wfD(3) [OF wf pl(1)] len in_set_butlastD [of _ "m_allocations pl"]
        by (auto simp: pool_ok_def simp del: in_set_butlastD)
    next
      case False
      then show ?thesis using that mem_wfD(3) [OF wf, of k' pl'] ok_cong [OF len ps] by simp
    qed
  qed (use mem_wfD(1) [OF wf] in simp)
qed

section \<open>The operations keep ownership\<close>

lemma buf_reset_Ok:
  assumes wf: "mem_wf w" and b: "bufs w a = Some b"
  obtains w' where "buf_reset a w = Ok () w'" "mem_wf w'" "bufs w' = (bufs w)(a \<mapsto> buf_null)"
    "sb_sizes w' = sb_sizes w" "next_block w' = next_block w"
    "\<And>p. b_data b \<noteq> Some p \<Longrightarrow> blocks w' p = blocks w p" "\<And>k. pool_size k w' = pool_size k w"
proof (cases "b_data b")
  case None
  then have "buf_reset a w = Ok () (put_buf a buf_null w)" using b by (simp add: buf_reset_def buf_clear_def)
  with that wf_null(1) [OF wf, of a] b None show ?thesis by (simp add: pool_size_def)
next
  case (Some p)
  have ok: "block_len w p = Some (b_size b)" "b_deleter b \<noteq> None"
    "\<And>k. b_deleter b = Some (Pool_free k) \<Longrightarrow> pool_size k w = Some (b_size b)"
    using mem_wfD(2) [OF wf b] Some by (auto simp: buf_ok_def split: option.splits)
  obtain d where "b_deleter b = Some d" using ok(2) by auto
  then show ?thesis
  proof (cases d)
    case Delete_array
    have "blocks w p \<noteq> None" using ok(1) by (auto simp: block_len_def)
    then have "buf_reset a w = Ok () (put_buf a buf_null (with_block p None w))"
      using b Some \<open>b_deleter b = Some d\<close> Delete_array
      by (simp add: buf_reset_def run_deleter_def delete_array_def buf_clear_def with_block_def)
    with that wf_delete [OF wf b Some] Some show ?thesis by (simp add: with_block_def pool_size_def)
  next
    case (Pool_free k)
    then obtain pl where pl: "pools w k = Some pl" "pl_size pl = b_size b"
      using ok(3) \<open>b_deleter b = Some d\<close> by (auto simp: pool_size_def)
    then have "buf_reset a w = Ok () (put_buf a buf_null (w\<lparr>pools := (pools w)(k \<mapsto> pl\<lparr>m_allocations := m_allocations pl @ [p]\<rparr>)\<rparr>))"
      using b Some \<open>b_deleter b = Some d\<close> Pool_free by (simp add: buf_reset_def run_deleter_def pool_free_def buf_clear_def)
    with that wf_to_pool [OF wf b Some pl] Some pl show ?thesis by (simp add: pool_size_def)
  qed
qed

lemma buf_dtor_Ok:
  assumes wf: "mem_wf w" and b: "bufs w a = Some b"
  obtains w' where "buf_dtor a w = Ok () w'" "mem_wf w'" "bufs w' = (bufs w)(a := None)"
    "sb_sizes w' = sb_sizes w" "\<And>k. pool_size k w' = pool_size k w"
proof (rule buf_reset_Ok [OF wf b])
  fix w' assume w': "buf_reset a w = Ok () w'" "mem_wf w'" "bufs w' = (bufs w)(a \<mapsto> buf_null)"
    "sb_sizes w' = sb_sizes w" "\<And>k. pool_size k w' = pool_size k w"
  have "mem_wf (w'\<lparr>bufs := (bufs w')(a := None)\<rparr>)"
    by (rule wf_null(2)) (use w' in \<open>simp_all add: buf_null_def\<close>)
  then show ?thesis using w' by (intro that [of "w'\<lparr>bufs := (bufs w')(a := None)\<rparr>"]) (simp_all add: buf_dtor_def pool_size_def)
qed

lemma buf_move_ctor_Ok:
  assumes "mem_wf w" "bufs w src = Some b" "bufs w dst = None"
  shows "buf_move_ctor dst src w = Ok () (put_buf src buf_null (put_buf dst b w))"
    "mem_wf (put_buf src buf_null (put_buf dst b w))"
proof -
  have "dst \<noteq> src" using assms by auto
  then show "mem_wf (put_buf src buf_null (put_buf dst b w))" using wf_move [OF assms(1,2)] assms(3) by simp
qed (use assms in \<open>simp add: buf_move_ctor_def buf_clear_def\<close>)

lemma buf_move_assign_Ok:
  assumes wf: "mem_wf w" and b: "bufs w dst = Some d" "bufs w src = Some b"
  obtains w' where "buf_move_assign dst src w = Ok () w'" "mem_wf w'"
    "bufs w' = (if dst = src then bufs w else (bufs w)(dst \<mapsto> b, src \<mapsto> buf_null))"
    "sb_sizes w' = sb_sizes w" "\<And>k. pool_size k w' = pool_size k w"
proof (cases "dst = src")
  case True
  then show ?thesis using that [of w] wf by (simp add: buf_move_assign_def)
next
  case False
  show ?thesis
  proof (rule buf_reset_Ok [OF wf b(1)])
    fix w' assume w': "buf_reset dst w = Ok () w'" "mem_wf w'" "bufs w' = (bufs w)(dst \<mapsto> buf_null)"
      "sb_sizes w' = sb_sizes w" "\<And>k. pool_size k w' = pool_size k w"
    have src: "bufs w' src = Some b" using w' b False by simp
    have "mem_wf (put_buf src buf_null (put_buf dst b w'))"
      by (rule wf_move [OF w'(2) src False]) (simp add: w' buf_null_def)
    then show ?thesis using w' src False
      by (intro that [of "put_buf src buf_null (put_buf dst b w')"])
        (simp_all add: buf_move_assign_def buf_transfer_def buf_clear_def pool_size_def)
  qed
qed

lemma pool_allocate_Ok:
  assumes wf: "mem_wf w" and a: "bufs w a = None" and pl: "pools w k = Some pl"
  shows "case pool_allocate alloc_ok k a w of
      Ok _ w' \<Rightarrow> mem_wf w' \<and> (\<exists>p. bufs w' = (bufs w)(a \<mapsto> \<lparr>b_size = pl_size pl, b_data = Some p, b_deleter = Some (Pool_free k)\<rparr>)) \<and>
        sb_sizes w' = sb_sizes w
    | Throw e w' \<Rightarrow> e = Bad_alloc \<and> \<not> alloc_ok \<and> w' = w"
proof (cases "m_allocations pl = []")
  case False
  with wf_from_pool [OF wf _ pl, of a] a pl show ?thesis
    by (auto simp: pool_allocate_def allocate_raw_def buf_new_def Let_def)
next
  case True
  have "mem_wf (put_buf a \<lparr>b_size = length (replicate (pl_size pl) (None :: byte option)), b_data = Some (next_block w), b_deleter = Some (Pool_free k)\<rparr>
      ((with_block (next_block w) (Some (replicate (pl_size pl) None)) w)\<lparr>next_block := Suc (next_block w)\<rparr>))"
    by (rule wf_new [OF wf]) (use a pl in \<open>simp_all add: pool_size_def\<close>)
  then show ?thesis using True pl
    by (auto simp: pool_allocate_def allocate_raw_def new_array_def buf_new_def with_block_def put_buf_def)
qed

lemma wf_pool_new:
  assumes wf: "mem_wf w" and k: "pools w k = None"
  shows "mem_wf (pool_new k n w)"
proof -
  obtain own where own: "\<And>ow p. owns w ow p \<longleftrightarrow> own p = Some ow" "dom own = dom (blocks w)"
    by (rule mem_wf_own [OF wf]) blast
  have len: "block_len (pool_new k n w) = block_len w" by (simp add: fun_eq_iff block_len_def pool_new_def)
  have ps: "pool_size k' w = Some m \<Longrightarrow> pool_size k' (pool_new k n w) = Some m" for k' m
    using k by (auto simp: pool_size_def pool_new_def)
  show ?thesis
  proof (rule mem_wfI [where own = own])
    show "owns (pool_new k n w) ow q \<longleftrightarrow> own q = Some ow" for ow q
      using own(1) [of ow q] k by (cases ow) (auto simp: pool_new_def split: if_splits)
    show "buf_ok (pool_new k n w) b" if "bufs (pool_new k n w) a = Some b" for a b
    proof -
      have "buf_ok w b" using that mem_wfD(2) [OF wf] by (simp add: pool_new_def)
      then show ?thesis using len ps by (auto simp: buf_ok_def split: option.splits deleter.splits)
    qed
    show "pool_ok (pool_new k n w) pl" if "pools (pool_new k n w) k' = Some pl" for k' pl
      using that mem_wfD(3) [OF wf, of k' pl] len by (auto simp: pool_ok_def pool_new_def split: if_splits)
  qed (use own(2) mem_wfD(1) [OF wf] in \<open>auto simp: pool_new_def\<close>)
qed

lemma delete_all:
  assumes "distinct ps" "\<forall>p \<in> set ps. blocks w p \<noteq> None"
  shows "rfold delete_array ps w = Ok () (w\<lparr>blocks := (\<lambda>p. if p \<in> set ps then None else blocks w p)\<rparr>)"
  using assms
proof (induction ps arbitrary: w)
  case (Cons p ps)
  have "rfold delete_array ps (w\<lparr>blocks := (blocks w)(p := None)\<rparr>) =
      Ok () (w\<lparr>blocks := (\<lambda>q. if q \<in> set ps then None else ((blocks w)(p := None)) q)\<rparr>)"
  proof -
    have "\<forall>q \<in> set ps. blocks (w\<lparr>blocks := (blocks w)(p := None)\<rparr>) q \<noteq> None" using Cons.prems by auto
    with Cons.IH [of "w\<lparr>blocks := (blocks w)(p := None)\<rparr>"] Cons.prems(1) show ?thesis by (simp cong: if_cong)
  qed
  moreover have "(\<lambda>q. if q \<in> set ps then None else ((blocks w)(p := None)) q) =
      (\<lambda>q. if q \<in> set (p # ps) then None else blocks w q)" by auto
  moreover have "delete_array p w = Ok () (w\<lparr>blocks := (blocks w)(p := None)\<rparr>)"
    using Cons.prems by (simp add: delete_array_def)
  ultimately show ?case by simp
qed simp

lemma dom_without: "dom (\<lambda>p. if p \<in> A then None else f p) = dom f - A"
  by (auto split: if_splits)

definition pool_idle :: "nat \<Rightarrow> memory \<Rightarrow> bool" where
  "pool_idle k w \<longleftrightarrow> (\<forall>a b. bufs w a = Some b \<and> b_data b \<noteq> None \<longrightarrow> b_deleter b \<noteq> Some (Pool_free k))"

lemma pool_dtor_Ok:
  assumes wf: "mem_wf w" and pl: "pools w k = Some pl" and idle: "pool_idle k w"
  shows "pool_dtor k w = Ok () (w\<lparr>blocks := (\<lambda>p. if p \<in> set (m_allocations pl) then None else blocks w p),
      pools := (pools w)(k := None)\<rparr>)"
    and "mem_wf (w\<lparr>blocks := (\<lambda>p. if p \<in> set (m_allocations pl) then None else blocks w p),
      pools := (pools w)(k := None)\<rparr>)" (is "mem_wf ?w")
proof -
  let ?ps = "m_allocations pl"
  obtain own where own: "\<And>ow p. owns w ow p \<longleftrightarrow> own p = Some ow" "dom own = dom (blocks w)"
    by (rule mem_wf_own [OF wf]) blast
  have at: "own (?ps ! i) = Some (In_pool k i)" if "i < length ?ps" for i
    using own(1) [of "In_pool k i" "?ps ! i"] pl that by auto
  then have "distinct ?ps" unfolding distinct_conv_nth by (metis option.inject owner.inject(2))
  moreover have "\<forall>p \<in> set ?ps. blocks w p \<noteq> None" using owned_live(2) [OF wf pl] by blast
  ultimately show "pool_dtor k w = Ok () ?w" using pl by (simp add: pool_dtor_def delete_all)
  have mem: "p \<in> set ?ps \<longleftrightarrow> (\<exists>i. own p = Some (In_pool k i))" for p
  proof -
    have "own p = Some (In_pool k i) \<longleftrightarrow> i < length ?ps \<and> ?ps ! i = p" for i
      using own(1) [of "In_pool k i" p] pl by auto
    then show ?thesis by (auto simp: in_set_conv_nth)
  qed
  have len: "block_len ?w p = block_len w p" if "p \<notin> set ?ps" for p using that by (simp add: block_len_def)
  show "mem_wf ?w"
  proof (rule mem_wfI [where own = "\<lambda>p. if p \<in> set ?ps then None else own p"])
    show "owns ?w ow q \<longleftrightarrow> (if q \<in> set ?ps then None else own q) = Some ow" for ow q
      using own(1) [of ow q] mem [of q] pl by (cases ow) (auto split: if_splits)
    show "buf_ok ?w b" if "bufs ?w a = Some b" for a b
    proof -
      have b: "bufs w a = Some b" using that by simp
      have "p \<notin> set ?ps" if "b_data b = Some p" for p using own(1) [of "In_buffer a" p] b that mem [of p] by auto
      moreover have "b_deleter b \<noteq> Some (Pool_free k)" if "b_data b \<noteq> None" using idle b that by (auto simp: pool_idle_def)
      ultimately show ?thesis using mem_wfD(2) [OF wf b] len
        by (auto simp: buf_ok_def pool_size_def split: option.splits deleter.splits)
    qed
    show "pool_ok ?w pl'" if "pools ?w k' = Some pl'" for k' pl'
    proof -
      have k': "k' \<noteq> k" "pools w k' = Some pl'" using that by (auto split: if_splits)
      have "p \<notin> set ?ps" if p: "p \<in> set (m_allocations pl')" for p
      proof -
        obtain i where "i < length (m_allocations pl')" "m_allocations pl' ! i = p" using p by (auto simp: in_set_conv_nth)
        then have "own p = Some (In_pool k' i)" using own(1) [of "In_pool k' i" p] k' by auto
        then show ?thesis using mem [of p] k' by auto
      qed
      then show ?thesis using mem_wfD(3) [OF wf k'(2)] len by (auto simp: pool_ok_def)
    qed
    show "dom (\<lambda>p. if p \<in> set ?ps then None else own p) = dom (blocks ?w)" using own(2) by (simp add: dom_without)
  qed (use mem_wfD(1) [OF wf] in \<open>auto split: if_splits\<close>)
qed

text \<open>A block that is not owned yet commutes with \<open>reset\<close>.\<close>

lemma buf_reset_extra:
  assumes "buf_reset a w = Ok () w'" "bufs w a = Some b" "b_data b \<noteq> Some p"
  shows "buf_reset a ((with_block p bytes w)\<lparr>next_block := m\<rparr>) = Ok () ((with_block p bytes w')\<lparr>next_block := m\<rparr>)"
proof (cases "b_data b")
  case None
  then show ?thesis using assms by (auto simp: buf_reset_def buf_clear_def put_buf_def with_block_def)
next
  case (Some q)
  then have "q \<noteq> p" using assms(3) by auto
  then show ?thesis using assms Some
    by (auto simp: buf_reset_def buf_clear_def put_buf_def with_block_def run_deleter_def delete_array_def pool_free_def
        rbind_eq_Ok fun_upd_twist split: option.splits deleter.splits if_splits)
qed

text \<open>What replacing the storage of a buffer by a new block does.\<close>

lemma assign_temporary_Ok:
  assumes wf: "mem_wf w" and b: "bufs w a = Some b"
  obtains w' where "assign_temporary a (next_block w) (length bytes)
      ((with_block (next_block w) (Some bytes) w)\<lparr>next_block := Suc (next_block w)\<rparr>) = Ok () w'" "mem_wf w'"
    "bufs w' = (bufs w)(a \<mapsto> \<lparr>b_size = length bytes, b_data = Some (next_block w), b_deleter = Some Delete_array\<rparr>)"
    "sb_sizes w' = sb_sizes w" "blocks w' (next_block w) = Some bytes"
proof (rule buf_reset_Ok [OF wf b])
  fix w1 assume w1: "buf_reset a w = Ok () w1" "mem_wf w1" "bufs w1 = (bufs w)(a \<mapsto> buf_null)"
    "sb_sizes w1 = sb_sizes w" "next_block w1 = next_block w"
  have ne: "b_data b \<noteq> Some (next_block w)"
    using owned_live(1) [OF wf b, of "next_block w"] mem_wfD(1) [OF wf, of "next_block w"] by auto
  let ?w = "put_buf a \<lparr>b_size = length bytes, b_data = Some (next_block w), b_deleter = Some Delete_array\<rparr>
      ((with_block (next_block w) (Some bytes) w1)\<lparr>next_block := Suc (next_block w)\<rparr>)"
  have "mem_wf ?w" by (rule wf_new [OF w1(2)]) (simp_all add: w1 buf_null_def)
  moreover have "assign_temporary a (next_block w) (length bytes)
      ((with_block (next_block w) (Some bytes) w)\<lparr>next_block := Suc (next_block w)\<rparr>) = Ok () ?w"
    using buf_reset_extra [OF w1(1) b ne] by (simp add: assign_temporary_def buf_new_def)
  ultimately show ?thesis by (intro that [of ?w]) (simp_all add: w1 with_block_def)
qed

section \<open>Sized buffers keep their contents\<close>

definition sb_ok :: "memory \<Rightarrow> addr \<Rightarrow> bool" where
  "sb_ok w a \<longleftrightarrow>
     (\<exists>n b. sb_sizes w a = Some n \<and> bufs w a = Some b \<and> (b_data b = None \<or> n \<le> b_size b))"

text \<open>The bytes a \<open>sized_buffer\<close> or a \<open>buffer\<close> holds.\<close>

definition sb_bytes :: "addr \<Rightarrow> memory \<Rightarrow> byte option list" where
  "sb_bytes a w = (case sb_data a w of None \<Rightarrow> [] | Some p \<Rightarrow> take (sb_size a w) (the (blocks w p)))"

definition buf_bytes :: "addr \<Rightarrow> memory \<Rightarrow> byte option list" where
  "buf_bytes a w = (case buf_data a w of None \<Rightarrow> [] | Some p \<Rightarrow> the (blocks w p))"

lemma mem_wf_sizes [simp]: "mem_wf (w\<lparr>sb_sizes := z\<rparr>) = mem_wf w"
proof -
  have "owns (w\<lparr>sb_sizes := z\<rparr>) ow p = owns w ow p" for ow p by (cases ow) auto
  then show ?thesis by (simp add: mem_wf_def)
qed

lemma memcpy_new:
  assumes "blocks w src = Some bytes" "n \<le> length bytes" "n \<le> m" "src \<noteq> p"
  shows "memcpy p src n ((with_block p (Some (replicate m None)) w)\<lparr>next_block := k\<rparr>) =
    Ok () ((with_block p (Some (take n bytes @ replicate (m - n) None)) w)\<lparr>next_block := k\<rparr>)"
  using assms by (simp add: memcpy_def with_block_def)

lemma sb_reserve_Ok:
  assumes wf: "mem_wf w" and ok: "sb_ok w a" and c: "sb_capacity a w < c"
  obtains w' where "sb_reserve True a c w = Ok () w'" "mem_wf w'" "sb_sizes w' = sb_sizes w"
    "bufs w' = (bufs w)(a \<mapsto> \<lparr>b_size = c, b_data = Some (next_block w), b_deleter = Some Delete_array\<rparr>)"
    "blocks w' (next_block w) = Some (sb_bytes a w @ replicate (c - length (sb_bytes a w)) None)"
proof -
  obtain s b where sb: "sb_sizes w a = Some s" "bufs w a = Some b" "b_data b = None \<or> s \<le> b_size b"
    using ok by (auto simp: sb_ok_def)
  have n: "b_data b = None \<or> s \<le> c" using sb c by (auto simp: sb_capacity_def buf_size_def)
  let ?p = "next_block w"
  let ?w1 = "(with_block ?p (Some (replicate c None)) w)\<lparr>next_block := Suc ?p\<rparr>"
  let ?bytes = "sb_bytes a w @ replicate (c - length (sb_bytes a w)) None"
  have new: "new_array True c w = Ok ?p ?w1" by (simp add: new_array_def with_block_def)
  have cp: "(case buf_data a ?w1 of Some src \<Rightarrow> (if sb_size a ?w1 > 0 then memcpy ?p src (sb_size a ?w1) ?w1 else Ok () ?w1)
      | None \<Rightarrow> Ok () ?w1) = Ok () ((with_block ?p (Some ?bytes) w)\<lparr>next_block := Suc ?p\<rparr>)"
  proof (cases "b_data b")
    case None
    then show ?thesis using sb by (simp add: buf_data_def sb_bytes_def sb_data_def with_block_def)
  next
    case (Some q)
    have "block_len w q = Some (b_size b)" using mem_wfD(2) [OF wf sb(2)] Some by (simp add: buf_ok_def)
    then obtain bytes where bytes: "blocks w q = Some bytes" "length bytes = b_size b" by (auto simp: block_len_def)
    have "q \<noteq> ?p" using mem_wfD(1) [OF wf, of q] bytes by auto
    then show ?thesis using Some sb bytes n memcpy_new [OF bytes(1), of s c ?p "Suc ?p"]
      by (auto simp: buf_data_def sb_bytes_def sb_data_def sb_size_def with_block_def)
  qed
  have len: "length ?bytes = c"
    using n sb by (auto simp: sb_bytes_def sb_size_def sb_data_def buf_data_def split: option.splits)
  show ?thesis
  proof (rule assign_temporary_Ok [OF wf sb(2), of ?bytes])
    fix w' assume w': "assign_temporary a ?p (length ?bytes) ((with_block ?p (Some ?bytes) w)\<lparr>next_block := Suc ?p\<rparr>) = Ok () w'"
      "mem_wf w'" "bufs w' = (bufs w)(a \<mapsto> \<lparr>b_size = length ?bytes, b_data = Some ?p, b_deleter = Some Delete_array\<rparr>)"
      "sb_sizes w' = sb_sizes w" "blocks w' ?p = Some ?bytes"
    have "sb_reserve True a c w = Ok () w'"
      using c w'(1) unfolding len by (simp add: sb_reserve_def new cp)
    then show ?thesis using w' len by (intro that [of w']) simp_all
  qed
qed

lemma take_min_length: "take (min n (min s (length xs))) xs = take (min n s) xs"
  by (cases "s \<le> length xs") (auto simp: min_def)

lemma sb_resize_Ok:
  assumes wf: "mem_wf w" and ok: "sb_ok w a"
  obtains w' where "sb_resize True a n w = Ok () w'" "mem_wf w'" "sb_sizes w' = (sb_sizes w)(a \<mapsto> n)"
    "\<And>a'. a' \<noteq> a \<Longrightarrow> bufs w' a' = bufs w a'" "sb_ok w' a"
    "take (length (sb_bytes a w)) (sb_bytes a w') = take n (sb_bytes a w)"
proof -
  obtain s b where sb: "sb_sizes w a = Some s" "bufs w a = Some b" "b_data b = None \<or> s \<le> b_size b"
    using ok by (auto simp: sb_ok_def)
  show ?thesis
  proof (cases "n > sb_capacity a w")
    case False
    then have "sb_resize True a n w = Ok () (sb_set_size a n w)" by (simp add: sb_resize_def)
    moreover have "take (length (sb_bytes a w)) (sb_bytes a (sb_set_size a n w)) = take n (sb_bytes a w)"
      using sb by (auto simp: sb_bytes_def sb_data_def buf_data_def sb_set_size_def sb_size_def min.commute take_min_length split: option.splits)
    moreover have "sb_ok (sb_set_size a n w) a"
      using sb False by (auto simp: sb_ok_def sb_set_size_def sb_capacity_def buf_size_def)
    ultimately show ?thesis using wf sb
      by (intro that [of "sb_set_size a n w"]) (simp_all add: sb_set_size_def sb_size_def)
  next
    case True
    show ?thesis
    proof (rule sb_reserve_Ok [OF wf ok True])
      fix w' assume w': "sb_reserve True a n w = Ok () w'" "mem_wf w'" "sb_sizes w' = sb_sizes w"
        "bufs w' = (bufs w)(a \<mapsto> \<lparr>b_size = n, b_data = Some (next_block w), b_deleter = Some Delete_array\<rparr>)"
        "blocks w' (next_block w) = Some (sb_bytes a w @ replicate (n - length (sb_bytes a w)) None)"
      have "length (sb_bytes a w) \<le> n"
        using sb True by (auto simp: sb_bytes_def sb_size_def sb_capacity_def buf_size_def sb_data_def buf_data_def split: option.splits)
      then show ?thesis using w' True
        by (intro that [of "sb_set_size a n w'"])
          (simp_all add: sb_resize_def sb_set_size_def sb_ok_def sb_bytes_def [of _ "sb_set_size a n w'"]
            sb_data_def buf_data_def sb_size_def, simp add: sb_bytes_def [of _ "_\<lparr>sb_sizes := _\<rparr>"] sb_data_def buf_data_def sb_size_def)
    qed
  qed
qed

text \<open>\<open>to_buffer\<close> of a buffer that is larger than the data: the bytes are copied into a new block of the exact size.\<close>

lemma sb_copy_new:
  assumes wf: "mem_wf w" and sb: "sb_sizes w a = Some s" "bufs w a = Some b" "b_data b = None \<or> s \<le> b_size b"
    and w1: "w1 = (with_block (next_block w) (Some (replicate s None)) w)\<lparr>next_block := Suc (next_block w)\<rparr>"
  shows "(case buf_data a w1 of Some src \<Rightarrow> memcpy (next_block w) src s w1 | None \<Rightarrow> Ok () w1) =
    Ok () ((with_block (next_block w) (Some (sb_bytes a w @ replicate (s - length (sb_bytes a w)) None)) w)\<lparr>next_block := Suc (next_block w)\<rparr>)"
proof (cases "b_data b")
  case None
  then show ?thesis using sb by (simp add: w1 buf_data_def sb_bytes_def sb_data_def with_block_def)
next
  case (Some q)
  then obtain bytes where bytes: "blocks w q = Some bytes" using owned_live(1) [OF wf sb(2)] by auto
  have len: "length bytes = b_size b" using mem_wfD(2) [OF wf sb(2)] bytes Some by (simp add: buf_ok_def block_len_def)
  have "q \<noteq> next_block w" using mem_wfD(1) [OF wf, of q] bytes by auto
  then show ?thesis using Some sb len memcpy_new [OF bytes, of s s "next_block w" "Suc (next_block w)"] bytes
    by (auto simp: w1 buf_data_def sb_bytes_def sb_data_def sb_size_def with_block_def)
qed

lemma sb_to_buffer_part:
  assumes wf: "mem_wf w" and sb: "sb_sizes w a = Some s" "bufs w a = Some b" "b_data b = None \<or> s \<le> b_size b"
    and dst: "bufs w dst = None" and s: "s \<noteq> 0" "s \<noteq> b_size b"
  obtains w' b' where "sb_to_buffer True a dst w = Ok () w'" "mem_wf w'" "sb_sizes w' = (sb_sizes w)(a \<mapsto> 0)"
    "bufs w' = (bufs w)(a \<mapsto> buf_null, dst \<mapsto> b')" "b_size b' = sb_size a w"
    "sb_data a w \<noteq> None \<Longrightarrow> buf_bytes dst w' = sb_bytes a w"
proof (rule buf_reset_Ok [OF wf sb(2)])
  let ?p = "next_block w"
  let ?bytes = "sb_bytes a w @ replicate (s - length (sb_bytes a w)) None"
  let ?b = "\<lparr>b_size = length ?bytes, b_data = Some ?p, b_deleter = Some Delete_array\<rparr>"
  fix w1 assume w1: "buf_reset a w = Ok () w1" "mem_wf w1" "bufs w1 = (bufs w)(a \<mapsto> buf_null)" "sb_sizes w1 = sb_sizes w"
    "next_block w1 = next_block w"
  let ?w2 = "put_buf dst ?b ((with_block ?p (Some ?bytes) (sb_set_size a 0 w1))\<lparr>next_block := Suc ?p\<rparr>)"
  have ad: "a \<noteq> dst" using sb(2) dst by auto
  have len: "length ?bytes = s" by (auto simp: sb_bytes_def sb_size_def sb split: option.splits)
  have ne: "b_data b \<noteq> Some ?p" using owned_live(1) [OF wf sb(2), of ?p] mem_wfD(1) [OF wf, of ?p] by auto
  have new: "new_array True s w = Ok ?p ((with_block ?p (Some (replicate s None)) w)\<lparr>next_block := Suc ?p\<rparr>)"
    by (simp add: new_array_def with_block_def)
  have "sb_to_buffer True a dst w =
      Ok () (put_buf dst ?b (sb_set_size a 0 ((with_block ?p (Some ?bytes) w1)\<lparr>next_block := Suc ?p\<rparr>)))"
    using s sb buf_reset_extra [OF w1(1) sb(2) ne, where bytes = "Some ?bytes" and m = "Suc ?p"] len
    by (simp add: sb_to_buffer_def sb_size_def buf_size_def new sb_copy_new [OF wf sb refl] sb_clear_def buf_new_def Let_def)
  moreover have "sb_set_size a 0 ((with_block ?p (Some ?bytes) w1)\<lparr>next_block := Suc ?p\<rparr>) =
      (with_block ?p (Some ?bytes) (sb_set_size a 0 w1))\<lparr>next_block := Suc ?p\<rparr>"
    by (cases w1) (simp add: sb_set_size_def with_block_def)
  ultimately have "sb_to_buffer True a dst w = Ok () ?w2" by simp
  moreover have "mem_wf ?w2" by (rule wf_new) (use w1 dst ad in \<open>simp_all add: sb_set_size_def\<close>)
  moreover have "sb_data a w \<noteq> None \<Longrightarrow> ?bytes = sb_bytes a w"
    using sb owned_live(1) [OF wf sb(2)] mem_wfD(2) [OF wf sb(2)]
    by (auto simp: sb_bytes_def sb_data_def buf_data_def sb_size_def buf_ok_def block_len_def split: option.splits)
  ultimately show ?thesis using w1 ad len sb
    by (intro that [of ?w2 ?b]) (simp_all add: sb_set_size_def with_block_def buf_bytes_def buf_data_def sb_size_def)
qed

lemma sb_to_buffer_Ok:
  assumes wf: "mem_wf w" and ok: "sb_ok w a" and dst: "bufs w dst = None"
  obtains w' b' where "sb_to_buffer True a dst w = Ok () w'" "mem_wf w'" "sb_sizes w' = (sb_sizes w)(a \<mapsto> 0)"
    "bufs w' = (bufs w)(a \<mapsto> buf_null, dst \<mapsto> b')" "b_size b' = sb_size a w"
    "sb_data a w \<noteq> None \<Longrightarrow> buf_bytes dst w' = sb_bytes a w"
proof -
  obtain s b where sb: "sb_sizes w a = Some s" "bufs w a = Some b" "b_data b = None \<or> s \<le> b_size b"
    using ok by (auto simp: sb_ok_def)
  have ad: "a \<noteq> dst" using sb(2) dst by auto
  have lenb: "blocks w q = Some bytes \<Longrightarrow> b_data b = Some q \<Longrightarrow> length bytes = b_size b" for q bytes
    using mem_wfD(2) [OF wf sb(2)] by (simp add: buf_ok_def block_len_def)
  consider (zero) "s = 0" | (whole) "s \<noteq> 0" "s = b_size b" | (part) "s \<noteq> 0" "s \<noteq> b_size b" by blast
  then show ?thesis
  proof cases
    case zero
    show ?thesis
    proof (rule buf_reset_Ok [OF wf sb(2)])
      fix w1 assume w1: "buf_reset a w = Ok () w1" "mem_wf w1" "bufs w1 = (bufs w)(a \<mapsto> buf_null)" "sb_sizes w1 = sb_sizes w"
      let ?w = "buf_default dst (sb_set_size a 0 w1)"
      have "mem_wf ?w" unfolding buf_default_def
        by (rule wf_null(1)) (use w1 dst ad in \<open>simp_all add: sb_set_size_def\<close>)
      then show ?thesis using zero sb w1 ad
        by (intro that [of ?w buf_null])
          (simp_all add: sb_to_buffer_def sb_size_def sb_clear_def sb_set_size_def buf_default_def buf_null_def buf_bytes_def
            sb_bytes_def buf_data_def split: option.splits)
    qed
  next
    case whole
    let ?w = "put_buf a buf_null (put_buf dst b (sb_set_size a 0 w))"
    have "buf_move_ctor dst a (sb_set_size a 0 w) = Ok () ?w \<and> mem_wf ?w"
      using buf_move_ctor_Ok [of "sb_set_size a 0 w" a b dst] wf sb dst by (simp add: sb_set_size_def)
    then show ?thesis using whole sb ad lenb
      by (intro that [of ?w b])
        (auto simp: sb_to_buffer_def sb_size_def buf_size_def sb_set_size_def buf_bytes_def sb_bytes_def buf_data_def
          sb_data_def owned_live(1) [OF wf sb(2)] fun_upd_twist split: option.splits dest: owned_live(1) [OF wf sb(2)])
  next
    case part
    show ?thesis by (rule sb_to_buffer_part [OF wf sb dst part]) (rule that)
  qed
qed

section \<open>Programs\<close>

datatype mem_op =
    Buffer_new bool addr size_t | Buffer_default addr | Buffer_reset addr | Buffer_dtor addr
  | Buffer_move_ctor addr addr | Buffer_move_assign addr addr
  | Pool_new nat size_t | Pool_allocate bool nat addr | Pool_dtor nat | Log2_allocate bool nat size_t addr
  | Sized_default addr | Sized_new bool addr size_t | Sized_from_buffer addr addr size_t
  | Sized_move_ctor addr addr | Sized_move_assign addr addr | Sized_reserve bool addr size_t
  | Sized_resize bool addr size_t | Sized_clear addr | Sized_to_buffer bool addr addr | Sized_dtor addr

fun mem_exec :: "mem_op \<Rightarrow> memory \<Rightarrow> (memory, unit) result" where
  "mem_exec (Buffer_new ok a n) w = rbind (new_array ok n w) (\<lambda>p w. Ok () (buf_new a (Some p) n Delete_array w))"
| "mem_exec (Buffer_default a) w = Ok () (buf_default a w)"
| "mem_exec (Buffer_reset a) w = buf_reset a w"
| "mem_exec (Buffer_dtor a) w = buf_dtor a w"
| "mem_exec (Buffer_move_ctor dst src) w = buf_move_ctor dst src w"
| "mem_exec (Buffer_move_assign dst src) w = buf_move_assign dst src w"
| "mem_exec (Pool_new k n) w = Ok () (pool_new k n w)"
| "mem_exec (Pool_allocate ok k a) w = pool_allocate ok k a w"
| "mem_exec (Pool_dtor k) w = pool_dtor k w"
| "mem_exec (Log2_allocate ok base n a) w = log2_allocate ok base n a w"
| "mem_exec (Sized_default a) w = Ok () (sb_default a w)"
| "mem_exec (Sized_new ok a n) w = sb_new ok a n w"
| "mem_exec (Sized_from_buffer a src n) w = sb_from_buffer a src n w"
| "mem_exec (Sized_move_ctor dst src) w = sb_move_ctor dst src w"
| "mem_exec (Sized_move_assign dst src) w = sb_move_assign dst src w"
| "mem_exec (Sized_reserve ok a n) w = sb_reserve ok a n w"
| "mem_exec (Sized_resize ok a n) w = sb_resize ok a n w"
| "mem_exec (Sized_clear a) w = sb_clear a w"
| "mem_exec (Sized_to_buffer ok a dst) w = sb_to_buffer ok a dst w"
| "mem_exec (Sized_dtor a) w = sb_dtor a w"

text \<open>
  What a C++ program guarantees by itself: objects are constructed where there is none and used while
  they live; a pool outlives the buffers taken from it; a \<open>sized_buffer\<close> made from a buffer is not larger
  than it; \<open>reserve\<close> is not called on a moved-from \<open>sized_buffer\<close>.
\<close>

definition no_object :: "memory \<Rightarrow> addr \<Rightarrow> bool" where
  "no_object w a \<longleftrightarrow> bufs w a = None \<and> sb_sizes w a = None"

definition is_buffer :: "memory \<Rightarrow> addr \<Rightarrow> bool" where
  "is_buffer w a \<longleftrightarrow> bufs w a \<noteq> None \<and> sb_sizes w a = None"

definition is_sized :: "memory \<Rightarrow> addr \<Rightarrow> bool" where
  "is_sized w a \<longleftrightarrow> bufs w a \<noteq> None \<and> sb_sizes w a \<noteq> None"

fun mem_op_ok :: "mem_op \<Rightarrow> memory \<Rightarrow> bool" where
  "mem_op_ok (Buffer_new ok a n) w = no_object w a"
| "mem_op_ok (Buffer_default a) w = no_object w a"
| "mem_op_ok (Buffer_reset a) w = is_buffer w a"
| "mem_op_ok (Buffer_dtor a) w = is_buffer w a"
| "mem_op_ok (Buffer_move_ctor dst src) w = (no_object w dst \<and> is_buffer w src)"
| "mem_op_ok (Buffer_move_assign dst src) w = (is_buffer w dst \<and> is_buffer w src)"
| "mem_op_ok (Pool_new k n) w = (pools w k = None)"
| "mem_op_ok (Pool_allocate ok k a) w = (pools w k \<noteq> None \<and> no_object w a)"
| "mem_op_ok (Pool_dtor k) w = (pools w k \<noteq> None \<and> pool_idle k w)"
| "mem_op_ok (Log2_allocate ok base n a) w =
     (no_object w a \<and> (\<forall>i < length log2_pool_sizes. pools w (base + i) \<noteq> None))"
| "mem_op_ok (Sized_default a) w = no_object w a"
| "mem_op_ok (Sized_new ok a n) w = no_object w a"
| "mem_op_ok (Sized_from_buffer a src n) w = (no_object w a \<and> is_buffer w src \<and> n \<le> buf_size src w)"
| "mem_op_ok (Sized_move_ctor dst src) w = (no_object w dst \<and> is_sized w src)"
| "mem_op_ok (Sized_move_assign dst src) w = (is_sized w dst \<and> is_sized w src)"
| "mem_op_ok (Sized_reserve ok a n) w = (is_sized w a \<and> sb_size a w \<le> sb_capacity a w)"
| "mem_op_ok (Sized_resize ok a n) w = is_sized w a"
| "mem_op_ok (Sized_clear a) w = is_sized w a"
| "mem_op_ok (Sized_to_buffer ok a dst) w = (is_sized w a \<and> no_object w dst)"
| "mem_op_ok (Sized_dtor a) w = is_sized w a"

primrec mem_prog_ok :: "mem_op list \<Rightarrow> memory \<Rightarrow> bool" where
  "mem_prog_ok [] w = True"
| "mem_prog_ok (op # ops) w =
     (mem_op_ok op w \<and> (case mem_exec op w of Ok _ w' \<Rightarrow> mem_prog_ok ops w' | Throw _ _ \<Rightarrow> True))"

definition mem_inv :: "memory \<Rightarrow> bool" where
  "mem_inv w \<longleftrightarrow> mem_wf w \<and> (\<forall>a. sb_sizes w a \<noteq> None \<longrightarrow> sb_ok w a)"

definition mem_good :: "(memory, unit) result \<Rightarrow> bool" where
  "mem_good r \<longleftrightarrow>
     (case r of Ok _ w \<Rightarrow> mem_inv w | Throw e w \<Rightarrow> (e = Bad_alloc \<or> e = Out_of_range) \<and> mem_inv w)"

lemma mem_invI:
  assumes inv: "mem_inv w" and wf: "mem_wf w'"
    and other: "\<And>a. a \<notin> A \<Longrightarrow> bufs w' a = bufs w a \<and> sb_sizes w' a = sb_sizes w a"
    and here: "\<And>a. a \<in> A \<Longrightarrow> sb_sizes w' a \<noteq> None \<Longrightarrow> sb_ok w' a"
  shows "mem_inv w'"
  unfolding mem_inv_def
proof (intro conjI allI impI wf)
  fix a assume "sb_sizes w' a \<noteq> None"
  then show "sb_ok w' a" using inv other [of a] here [of a] by (cases "a \<in> A") (auto simp: mem_inv_def sb_ok_def)
qed

lemma mem_good_Ok: "r = Ok () w \<Longrightarrow> mem_inv w \<Longrightarrow> mem_good r"
  by (simp add: mem_good_def)

lemma mem_good_Throw: "r = Throw e w \<Longrightarrow> e = Bad_alloc \<or> e = Out_of_range \<Longrightarrow> mem_inv w \<Longrightarrow> mem_good r"
  by (simp add: mem_good_def)

lemma sb_default_inv:
  assumes "mem_inv w" "no_object w a"
  shows "mem_inv (sb_default a w)" "sb_ok (sb_default a w) a"
proof -
  have "mem_wf (put_buf a buf_null w)"
    using wf_null(1) [of w a] assms by (simp add: mem_inv_def no_object_def)
  then show "mem_inv (sb_default a w)"
    by (intro mem_invI [OF assms(1), where A = "{a}"])
      (auto simp: sb_default_def buf_default_def sb_ok_def buf_null_def)
  show "sb_ok (sb_default a w) a" by (simp add: sb_default_def buf_default_def sb_ok_def buf_null_def)
qed

lemma sb_resize_good:
  assumes inv: "mem_inv w" and ok: "sb_ok w a"
  shows "mem_good (sb_resize alloc a n w)"
proof (cases "alloc \<or> n \<le> sb_capacity a w")
  case False
  then have "sb_resize alloc a n w = Throw Bad_alloc w" by (simp add: sb_resize_def sb_reserve_def new_array_def)
  then show ?thesis using inv by (simp add: mem_good_def)
next
  case True
  then have eq: "sb_resize alloc a n w = sb_resize True a n w" by (auto simp: sb_resize_def)
  have wf: "mem_wf w" using inv by (simp add: mem_inv_def)
  show ?thesis unfolding eq
  proof (rule sb_resize_Ok [OF wf ok])
    fix w' assume w': "sb_resize True a n w = Ok () w'" "mem_wf w'" "sb_sizes w' = (sb_sizes w)(a \<mapsto> n)"
      "\<And>a'. a' \<noteq> a \<Longrightarrow> bufs w' a' = bufs w a'" "sb_ok w' a"
    have "mem_inv w'" by (rule mem_invI [OF inv w'(2), where A = "{a}"]) (use w' in auto)
    then show "mem_good (sb_resize True a n w)" using w'(1) by (simp add: mem_good_def)
  qed
qed

lemma buffer_ops_good:
  assumes inv: "mem_inv w"
  shows "no_object w a \<Longrightarrow> mem_good (mem_exec (Buffer_new ok a n) w)"
    and "no_object w a \<Longrightarrow> mem_good (mem_exec (Buffer_default a) w)"
    and "is_buffer w a \<Longrightarrow> mem_good (mem_exec (Buffer_reset a) w)"
    and "is_buffer w a \<Longrightarrow> mem_good (mem_exec (Buffer_dtor a) w)"
    and "no_object w dst \<Longrightarrow> is_buffer w src \<Longrightarrow> mem_good (mem_exec (Buffer_move_ctor dst src) w)"
    and "is_buffer w dst \<Longrightarrow> is_buffer w src \<Longrightarrow> mem_good (mem_exec (Buffer_move_assign dst src) w)"
proof -
  have wf: "mem_wf w" using inv by (simp add: mem_inv_def)
  note I = mem_invI [OF inv]
  show "mem_good (mem_exec (Buffer_new ok a n) w)" if a: "no_object w a"
  proof (cases ok)
    case True
    let ?w = "put_buf a \<lparr>b_size = length (replicate n (None :: byte option)), b_data = Some (next_block w), b_deleter = Some Delete_array\<rparr>
      ((with_block (next_block w) (Some (replicate n None)) w)\<lparr>next_block := Suc (next_block w)\<rparr>)"
    have "mem_wf ?w" by (rule wf_new [OF wf]) (use a in \<open>simp_all add: no_object_def\<close>)
    then have "mem_inv ?w" by (rule I [where A = "{a}"]) (use a in \<open>auto simp: with_block_def no_object_def\<close>)
    then show ?thesis using True by (simp add: mem_good_def new_array_def buf_new_def with_block_def put_buf_def)
  qed (use inv in \<open>simp add: mem_good_def new_array_def\<close>)
  show "mem_good (mem_exec (Buffer_default a) w)" if a: "no_object w a"
  proof -
    have "mem_inv (put_buf a buf_null w)"
      by (rule I [OF wf_null(1) [OF wf], where A = "{a}"]) (use a in \<open>auto simp: no_object_def\<close>)
    then show ?thesis by (simp add: mem_good_def buf_default_def)
  qed
  show "mem_good (mem_exec (Buffer_reset a) w)" if "is_buffer w a"
  proof -
    obtain b where b: "bufs w a = Some b" using \<open>is_buffer w a\<close> by (auto simp: is_buffer_def)
    show ?thesis
    proof (rule buf_reset_Ok [OF wf b])
      fix w' assume w': "buf_reset a w = Ok () w'" "mem_wf w'" "bufs w' = (bufs w)(a \<mapsto> buf_null)" "sb_sizes w' = sb_sizes w"
      have "mem_inv w'" by (rule I [OF w'(2), where A = "{a}"]) (use w' \<open>is_buffer w a\<close> in \<open>auto simp: is_buffer_def\<close>)
      then show ?thesis using w'(1) by (simp add: mem_good_def)
    qed
  qed
  show "mem_good (mem_exec (Buffer_dtor a) w)" if "is_buffer w a"
  proof -
    obtain b where b: "bufs w a = Some b" using \<open>is_buffer w a\<close> by (auto simp: is_buffer_def)
    show ?thesis
    proof (rule buf_dtor_Ok [OF wf b])
      fix w' assume w': "buf_dtor a w = Ok () w'" "mem_wf w'" "bufs w' = (bufs w)(a := None)" "sb_sizes w' = sb_sizes w"
      have "mem_inv w'" by (rule I [OF w'(2), where A = "{a}"]) (use w' \<open>is_buffer w a\<close> in \<open>auto simp: is_buffer_def\<close>)
      then show ?thesis using w'(1) by (simp add: mem_good_def)
    qed
  qed
  show "mem_good (mem_exec (Buffer_move_ctor dst src) w)" if s: "no_object w dst" "is_buffer w src"
  proof -
    obtain b where b: "bufs w src = Some b" using s by (auto simp: is_buffer_def)
    have d: "bufs w dst = None" using s by (simp add: no_object_def)
    have "mem_inv (put_buf src buf_null (put_buf dst b w))"
      by (rule I [OF buf_move_ctor_Ok(2) [OF wf b d], where A = "{src, dst}"]) (use s in \<open>auto simp: is_buffer_def no_object_def\<close>)
    then show ?thesis using buf_move_ctor_Ok(1) [OF wf b d] by (simp add: mem_good_def)
  qed
  show "mem_good (mem_exec (Buffer_move_assign dst src) w)" if s: "is_buffer w dst" "is_buffer w src"
  proof -
    obtain b d where b: "bufs w dst = Some d" "bufs w src = Some b" using s by (auto simp: is_buffer_def)
    show ?thesis
    proof (rule buf_move_assign_Ok [OF wf b])
      fix w' assume w': "buf_move_assign dst src w = Ok () w'" "mem_wf w'"
        "bufs w' = (if dst = src then bufs w else (bufs w)(dst \<mapsto> b, src \<mapsto> buf_null))" "sb_sizes w' = sb_sizes w"
      have "mem_inv w'" by (rule I [OF w'(2), where A = "{src, dst}"]) (use w' s in \<open>auto simp: is_buffer_def\<close>)
      then show ?thesis using w'(1) by (simp add: mem_good_def)
    qed
  qed
qed

lemma pool_allocate_good:
  assumes inv: "mem_inv w" and a: "no_object w a" and k: "pools w k \<noteq> None"
  shows "mem_good (pool_allocate ok k a w)"
proof -
  obtain pl where pl: "pools w k = Some pl" using k by auto
  have wf: "mem_wf w" and a': "bufs w a = None" using inv a by (auto simp: mem_inv_def no_object_def)
  note P = pool_allocate_Ok [OF wf a' pl, of ok]
  show ?thesis
  proof (cases "pool_allocate ok k a w")
    case (Ok u w')
    then have "mem_inv w'" using P by (intro mem_invI [OF inv, where A = "{a}"]) (use a in \<open>auto simp: no_object_def\<close>)
    then show ?thesis using Ok by (simp add: mem_good_def)
  next
    case (Throw e w')
    then show ?thesis using P inv by (simp add: mem_good_def)
  qed
qed

lemma pool_ops_good:
  assumes inv: "mem_inv w"
  shows "pools w k = None \<Longrightarrow> mem_good (mem_exec (Pool_new k n) w)"
    and "pools w k \<noteq> None \<Longrightarrow> pool_idle k w \<Longrightarrow> mem_good (mem_exec (Pool_dtor k) w)"
    and "no_object w a \<Longrightarrow> \<forall>i < length log2_pool_sizes. pools w (base + i) \<noteq> None \<Longrightarrow>
      mem_good (mem_exec (Log2_allocate ok base m a) w)"
proof -
  have wf: "mem_wf w" using inv by (simp add: mem_inv_def)
  show "mem_good (mem_exec (Pool_new k n) w)" if "pools w k = None"
    using mem_invI [OF inv wf_pool_new [OF wf that, of n], where A = "{}"] by (auto simp: mem_good_def pool_new_def)
  show "mem_good (mem_exec (Pool_dtor k) w)" if k: "pools w k \<noteq> None" "pool_idle k w"
  proof -
    obtain pl where pl: "pools w k = Some pl" using k by auto
    show ?thesis using pool_dtor_Ok(1) [OF wf pl k(2)] mem_invI [OF inv pool_dtor_Ok(2) [OF wf pl k(2)], where A = "{}"]
      by (simp add: mem_good_def)
  qed
  show "mem_good (mem_exec (Log2_allocate ok base m a) w)"
    if "no_object w a" "\<forall>i < length log2_pool_sizes. pools w (base + i) \<noteq> None"
  proof (cases "log2_pool_index m")
    case (Inl e)
    then have "e = Bad_alloc \<or> e = Out_of_range" by (auto simp: log2_pool_index_def Let_def split: if_splits)
    then show ?thesis using Inl inv by (auto simp: log2_allocate_def mem_good_def)
  next
    case (Inr i)
    then have "i < length log2_pool_sizes" by (auto simp: log2_pool_index_def Let_def split: if_splits)
    then show ?thesis using Inr that pool_allocate_good [OF inv that(1)] by (simp add: log2_allocate_def)
  qed
qed

lemma sized_ops_good:
  assumes inv: "mem_inv w"
  shows "no_object w a \<Longrightarrow> mem_good (mem_exec (Sized_default a) w)"
    and "no_object w a \<Longrightarrow> mem_good (mem_exec (Sized_new ok a n) w)"
    and "no_object w a \<Longrightarrow> is_buffer w src \<Longrightarrow> n \<le> buf_size src w \<Longrightarrow> mem_good (mem_exec (Sized_from_buffer a src n) w)"
    and "no_object w dst \<Longrightarrow> is_sized w src \<Longrightarrow> mem_good (mem_exec (Sized_move_ctor dst src) w)"
    and "is_sized w dst \<Longrightarrow> is_sized w src \<Longrightarrow> mem_good (mem_exec (Sized_move_assign dst src) w)"
proof -
  have wf: "mem_wf w" using inv by (simp add: mem_inv_def)
  note I = mem_invI [OF inv]
  have D: "mem_inv (sb_default a w)" "sb_ok (sb_default a w) a" if "no_object w a" for a
    using sb_default_inv [OF inv that] .
  show "mem_good (mem_exec (Sized_default a) w)" if "no_object w a" using D [OF that] by (simp add: mem_good_def)
  show "mem_good (mem_exec (Sized_new ok a n) w)" if "no_object w a"
    using sb_resize_good [OF D [OF that]] by (simp add: sb_new_def)
  show "mem_good (mem_exec (Sized_from_buffer a src n) w)" if s: "no_object w a" "is_buffer w src" "n \<le> buf_size src w"
  proof -
    let ?w = "sb_default a w"
    obtain b where b: "bufs w src = Some b" using s by (auto simp: is_buffer_def)
    have ne: "a \<noteq> src" using s by (auto simp: no_object_def is_buffer_def)
    have b': "bufs ?w a = Some buf_null" "bufs ?w src = Some b" using b ne by (auto simp: sb_default_def buf_default_def)
    have wf': "mem_wf ?w" using D [OF s(1)] by (simp add: mem_inv_def)
    show ?thesis
    proof (rule buf_move_assign_Ok [OF wf' b'])
      fix w' assume w': "buf_move_assign a src ?w = Ok () w'" "mem_wf w'"
        "bufs w' = (if a = src then bufs ?w else (bufs ?w)(a \<mapsto> b, src \<mapsto> buf_null))" "sb_sizes w' = sb_sizes ?w"
      have "mem_inv (sb_set_size a n w')"
        by (rule I [where A = "{a, src}"])
          (use w' s b ne in \<open>auto simp: sb_set_size_def sb_default_def buf_default_def sb_ok_def buf_size_def is_buffer_def\<close>)
      then show ?thesis using w'(1) by (simp add: sb_from_buffer_def mem_good_def)
    qed
  qed
  show "mem_good (mem_exec (Sized_move_ctor dst src) w)" if s: "no_object w dst" "is_sized w src"
  proof -
    have "sb_ok w src" using inv s by (simp add: mem_inv_def is_sized_def)
    then obtain m b where b: "sb_sizes w src = Some m" "bufs w src = Some b" "b_data b = None \<or> m \<le> b_size b"
      by (auto simp: sb_ok_def)
    let ?w = "sb_set_size dst m w"
    have "mem_wf ?w" "bufs ?w src = Some b" "bufs ?w dst = None"
      using wf b s by (simp_all add: sb_set_size_def no_object_def)
    note M = buf_move_ctor_Ok [OF this]
    have "mem_inv (put_buf src buf_null (put_buf dst b ?w))"
      by (rule I [OF M(2), where A = "{src, dst}"]) (use b s in \<open>auto simp: sb_set_size_def sb_ok_def buf_null_def no_object_def\<close>)
    then show ?thesis using M(1) b by (simp add: sb_move_ctor_def sb_size_def mem_good_def)
  qed
  show "mem_good (mem_exec (Sized_move_assign dst src) w)" if s: "is_sized w dst" "is_sized w src"
  proof -
    have "sb_ok w src" using inv s by (simp add: mem_inv_def is_sized_def)
    then obtain m b where b: "sb_sizes w src = Some m" "bufs w src = Some b" "b_data b = None \<or> m \<le> b_size b"
      by (auto simp: sb_ok_def)
    obtain d where d: "bufs w dst = Some d" using s by (auto simp: is_sized_def)
    let ?w = "sb_set_size dst m w"
    have w: "mem_wf ?w" "bufs ?w dst = Some d" "bufs ?w src = Some b" using wf b d by (simp_all add: sb_set_size_def)
    show ?thesis
    proof (rule buf_move_assign_Ok [OF w])
      fix w' assume w': "buf_move_assign dst src ?w = Ok () w'" "mem_wf w'"
        "bufs w' = (if dst = src then bufs ?w else (bufs ?w)(dst \<mapsto> b, src \<mapsto> buf_null))" "sb_sizes w' = sb_sizes ?w"
      have "mem_inv w'"
        by (rule I [OF w'(2), where A = "{src, dst}"]) (use w' b in \<open>auto simp: sb_set_size_def sb_ok_def buf_null_def split: if_splits\<close>)
      then show ?thesis using w'(1) b by (simp add: sb_move_assign_def sb_size_def mem_good_def)
    qed
  qed
qed

lemma sized_ops_good2:
  assumes inv: "mem_inv w" and s: "is_sized w a"
  shows "sb_size a w \<le> sb_capacity a w \<Longrightarrow> mem_good (mem_exec (Sized_reserve ok a n) w)"
    and "mem_good (mem_exec (Sized_resize ok a n) w)" and "mem_good (mem_exec (Sized_clear a) w)"
    and "no_object w dst \<Longrightarrow> mem_good (mem_exec (Sized_to_buffer ok a dst) w)"
    and "mem_good (mem_exec (Sized_dtor a) w)"
proof -
  have wf: "mem_wf w" and ok: "sb_ok w a" using inv s by (auto simp: mem_inv_def is_sized_def)
  obtain m b where b: "sb_sizes w a = Some m" "bufs w a = Some b" using ok by (auto simp: sb_ok_def)
  note I = mem_invI [OF inv]
  show "mem_good (mem_exec (Sized_reserve ok a n) w)" if sz: "sb_size a w \<le> sb_capacity a w"
  proof -
    consider "n \<le> sb_capacity a w" | "n > sb_capacity a w" "\<not> ok" | (grow) "n > sb_capacity a w" "ok" by linarith
    then show ?thesis
    proof cases
      case grow
      show ?thesis
      proof (rule sb_reserve_Ok [OF wf \<open>sb_ok w a\<close> grow(1)])
        fix w' assume w': "sb_reserve True a n w = Ok () w'" "mem_wf w'" "sb_sizes w' = sb_sizes w"
          "bufs w' = (bufs w)(a \<mapsto> \<lparr>b_size = n, b_data = Some (next_block w), b_deleter = Some Delete_array\<rparr>)"
        have "mem_inv w'"
          by (rule I [OF w'(2), where A = "{a}"]) (use w' b sz grow in \<open>auto simp: sb_ok_def sb_size_def\<close>)
        then show ?thesis using w'(1) grow by (simp add: mem_good_def)
      qed
    qed (use inv in \<open>simp_all add: sb_reserve_def new_array_def mem_good_def\<close>)
  qed
  show "mem_good (mem_exec (Sized_resize ok a n) w)" using sb_resize_good [OF inv \<open>sb_ok w a\<close>] by simp
  show "mem_good (mem_exec (Sized_clear a) w)"
  proof (rule buf_reset_Ok [OF wf b(2)])
    fix w' assume w': "buf_reset a w = Ok () w'" "mem_wf w'" "bufs w' = (bufs w)(a \<mapsto> buf_null)" "sb_sizes w' = sb_sizes w"
    have "mem_inv (sb_set_size a 0 w')"
      by (rule I [where A = "{a}"]) (use w' in \<open>auto simp: sb_set_size_def sb_ok_def buf_null_def\<close>)
    then show ?thesis using w'(1) by (simp add: sb_clear_def mem_good_def)
  qed
  show "mem_good (mem_exec (Sized_dtor a) w)"
  proof (rule buf_dtor_Ok [OF wf b(2)])
    fix w' assume w': "buf_dtor a w = Ok () w'" "mem_wf w'" "bufs w' = (bufs w)(a := None)" "sb_sizes w' = sb_sizes w"
    have "mem_inv (w'\<lparr>sb_sizes := (sb_sizes w')(a := None)\<rparr>)" by (rule I [where A = "{a}"]) (use w' in auto)
    then show ?thesis using w'(1) by (simp add: sb_dtor_def mem_good_def)
  qed
  show "mem_good (mem_exec (Sized_to_buffer ok a dst) w)" if d: "no_object w dst"
  proof (cases "ok \<or> sb_size a w = 0 \<or> sb_size a w = buf_size a w")
    case False
    then have "sb_to_buffer ok a dst w = Throw Bad_alloc w" by (simp add: sb_to_buffer_def new_array_def Let_def)
    then show ?thesis using inv by (simp add: mem_good_def)
  next
    case True
    then have eq: "sb_to_buffer ok a dst w = sb_to_buffer True a dst w" by (auto simp: sb_to_buffer_def)
    have d': "bufs w dst = None" using d by (simp add: no_object_def)
    show ?thesis
    proof (rule sb_to_buffer_Ok [OF wf \<open>sb_ok w a\<close> d'])
      fix w' b' assume w': "sb_to_buffer True a dst w = Ok () w'" "mem_wf w'" "sb_sizes w' = (sb_sizes w)(a \<mapsto> 0)"
        "bufs w' = (bufs w)(a \<mapsto> buf_null, dst \<mapsto> b')"
      have ne: "dst \<noteq> a" using b(2) d' by auto
      have "mem_inv w'"
        by (rule I [OF w'(2), where A = "{a, dst}"]) (use w' d ne in \<open>auto simp: sb_ok_def buf_null_def no_object_def\<close>)
      then show ?thesis using w'(1) eq by (simp add: mem_good_def)
    qed
  qed
qed

lemma mem_exec_good:
  assumes "mem_inv w" "mem_op_ok op w"
  shows "mem_good (mem_exec op w)"
  using assms(2) buffer_ops_good [OF assms(1)] pool_ops_good [OF assms(1)] pool_allocate_good [OF assms(1)]
    sized_ops_good [OF assms(1)] sized_ops_good2 [OF assms(1)]
  by (cases op) (simp_all del: mem_exec.simps, simp)

lemma mem_prog_good:
  "mem_inv w \<Longrightarrow> mem_prog_ok ops w \<Longrightarrow> mem_good (rfold mem_exec ops w)"
proof (induction ops arbitrary: w)
  case (Cons op ops)
  have g: "mem_good (mem_exec op w)" using mem_exec_good Cons.prems by simp
  then show ?case using Cons by (cases "mem_exec op w") (auto simp: mem_good_def)
qed (simp add: mem_good_def)


section \<open>Size classes\<close>

lemma ceil_log2_le: "ceil_log2 n \<le> k \<longleftrightarrow> n \<le> 2 ^ k"
proof (induction n arbitrary: k rule: ceil_log2.induct)
  case (1 n)
  show ?case
  proof (cases "n \<le> 1")
    case True
    then show ?thesis by (simp add: ceil_log2.simps [of n] order_trans [OF _ one_le_power])
  next
    case False
    have "n \<le> 2 ^ k \<longleftrightarrow> k \<noteq> 0 \<and> (n + 1) div 2 \<le> 2 ^ (k - 1)"
    proof (cases k)
      case (Suc j)
      then show ?thesis by (simp add: less_eq_div_iff_mult_less_eq) presburger
    qed (use False in simp)
    moreover have "ceil_log2 n = Suc (ceil_log2 ((n + 1) div 2))" using False by (subst ceil_log2.simps) simp
    then have "ceil_log2 n \<le> k \<longleftrightarrow> k \<noteq> 0 \<and> ceil_log2 ((n + 1) div 2) \<le> k - 1" by (cases k) simp_all
    ultimately show ?thesis using "1.IH" [OF False, of "k - 1"] by simp
  qed
qed

lemma log2_pool_sizes_powers: "log2_pool_sizes = map (\<lambda>i. 2 ^ (i + 4)) [0..<11]"
  by (simp add: log2_pool_sizes_def upt_rec)

lemma log2_pool_sizes_nth: "i < length log2_pool_sizes \<Longrightarrow> log2_pool_sizes ! i = 2 ^ (i + 4)"
  by (simp add: log2_pool_sizes_powers)

lemma log2_pool_index_cases:
  "n \<le> 8 \<Longrightarrow> log2_pool_index n = Inl Bad_alloc"
  "16384 < n \<Longrightarrow> log2_pool_index n = Inl Out_of_range"
  "8 < n \<Longrightarrow> n \<le> 16384 \<Longrightarrow> \<exists>i < length log2_pool_sizes. log2_pool_index n = Inr i \<and>
     n \<le> log2_pool_sizes ! i \<and> log2_pool_sizes ! i < 2 * n"
proof -
  have len: "length log2_pool_sizes = 11" by (simp add: log2_pool_sizes_def)
  show "n \<le> 8 \<Longrightarrow> log2_pool_index n = Inl Bad_alloc" by (simp add: log2_pool_index_def)
  show "log2_pool_index n = Inl Out_of_range" if "16384 < n"
    using that ceil_log2_le [of n 14] by (simp add: log2_pool_index_def Let_def len)
  assume n: "8 < n" "n \<le> 16384"
  let ?c = "ceil_log2 n"
  have c: "4 \<le> ?c" "?c \<le> 14" using n ceil_log2_le [of n 3] ceil_log2_le [of n 14] by simp_all
  have "n \<le> 2 ^ ?c" using ceil_log2_le [of n ?c] by simp
  moreover have "2 ^ ?c < 2 * n"
  proof -
    have "\<not> n \<le> 2 ^ (?c - 1)" using ceil_log2_le [of n "?c - 1"] c by linarith
    moreover have "(2::nat) ^ ?c = 2 * 2 ^ (?c - 1)" using c by (simp flip: power_Suc)
    ultimately show ?thesis by simp
  qed
  moreover have "log2_pool_index n = Inr (?c - 4)" using n c by (simp add: log2_pool_index_def Let_def len nat_diff_distrib)
  moreover have "?c - 4 < length log2_pool_sizes" "log2_pool_sizes ! (?c - 4) = 2 ^ ?c"
    using c log2_pool_sizes_nth [of "?c - 4"] by (simp_all add: len)
  ultimately show "\<exists>i < length log2_pool_sizes. log2_pool_index n = Inr i \<and>
     n \<le> log2_pool_sizes ! i \<and> log2_pool_sizes ! i < 2 * n" by metis
qed

section \<open>Properties\<close>

lemmas mem_eval = mem_exec.simps memory_empty_def new_array_def delete_array_def memcpy_def pool_new_def pool_free_def
  allocate_raw_def pool_size_def pool_dtor_def buf_null_def put_buf_def buf_new_def buf_default_def buf_clear_def
  run_deleter_def buf_reset_def buf_dtor_def buf_transfer_def buf_move_ctor_def buf_move_assign_def buf_data_def
  buf_size_def pool_allocate_def log2_pool_index_def log2_allocate_def sb_default_def sb_size_def sb_capacity_def
  sb_data_def sb_set_size_def sb_clear_def assign_temporary_def sb_reserve_def sb_resize_def sb_new_def
  sb_from_buffer_def sb_move_ctor_def sb_move_assign_def sb_dtor_def sb_to_buffer_def

lemmas mem_prog_eval = mem_eval no_object_def is_buffer_def is_sized_def pool_idle_def Let_def numeral_eq_Suc

lemma mem_inv_empty: "mem_inv memory_empty"
  unfolding mem_inv_def
  by (intro conjI mem_wfI [where own = Map.empty])
    (simp_all add: memory_empty_def owns_def split: owner.splits)

lemma mem_wf_no_owner:
  assumes "mem_wf w" "bufs w = Map.empty" "pools w = Map.empty"
  shows "blocks w = Map.empty"
proof -
  obtain own where own: "\<And>ow p. owns w ow p \<longleftrightarrow> own p = Some ow" "dom own = dom (blocks w)"
    by (rule mem_wf_own [OF assms(1)]) blast
  have "own p = None" for p
  proof (rule ccontr)
    assume "own p \<noteq> None"
    then obtain ow where "owns w ow p" using own(1) by auto
    then show False using assms(2,3) by (cases ow) auto
  qed
  then have "dom (blocks w) = {}" using own(2) by (metis domIff equals0I)
  then show ?thesis by simp
qed

text \<open>C4. Any sequence of operations on buffers, sized buffers and pools that uses objects while they live
  runs without undefined behaviour: no block is deleted twice or used after it was given back, the only
  exceptions are \<open>std::bad_alloc\<close> and the \<open>std::out_of_range\<close> of a log2 pool, every live block has
  exactly one owner throughout, and when all buffers and pools are destroyed no block is left.
\<close>

theorem every_block_has_one_owner:
  assumes "mem_prog_ok ops memory_empty"
  shows "case rfold mem_exec ops memory_empty of
      Ok _ w \<Rightarrow> mem_wf w \<and> (bufs w = Map.empty \<and> pools w = Map.empty \<longrightarrow> blocks w = Map.empty)
    | Throw e w \<Rightarrow> (e = Bad_alloc \<or> e = Out_of_range) \<and> mem_wf w"
  using mem_prog_good [OF mem_inv_empty assms] mem_wf_no_owner
  by (auto simp: mem_good_def mem_inv_def split: result.splits)

text \<open>A pool of 16 bytes, two buffers, a move, and a sized buffer grown and converted.\<close>

definition mem_demo :: "mem_op list" where
  "mem_demo = [Pool_new 0 16, Pool_allocate True 0 1, Buffer_default 2, Buffer_move_assign 2 1, Buffer_dtor 1,
     Sized_from_buffer 3 2 4, Sized_resize True 3 20, Sized_to_buffer True 3 4, Pool_allocate True 0 5,
     Buffer_dtor 2, Sized_dtor 3, Buffer_dtor 4, Buffer_dtor 5, Pool_dtor 0]"

theorem every_block_has_one_owner_witness:
  "mem_prog_ok mem_demo memory_empty \<and> (case rfold mem_exec mem_demo memory_empty of
      Ok _ w \<Rightarrow> mem_wf w \<and> blocks w = Map.empty | Throw _ _ \<Rightarrow> False)"
proof -
  have ok: "mem_prog_ok mem_demo memory_empty"
    unfolding mem_demo_def by (simp add: mem_prog_eval)
  have "\<exists>w. rfold mem_exec mem_demo memory_empty = Ok () w \<and> bufs w = Map.empty \<and> pools w = Map.empty"
    unfolding mem_demo_def by (simp add: mem_prog_eval fun_eq_iff)
  then show ?thesis using ok every_block_has_one_owner [OF ok] by auto
qed

text \<open>C26. A log2 pool serves a request of \<open>n\<close> bytes with a buffer of at least \<open>n\<close> and fewer than \<open>2 * n\<close> bytes
  when \<open>8 < n \<le> 16384\<close>; smaller requests throw \<open>std::bad_alloc\<close>, larger ones \<open>std::out_of_range\<close>, and a
  request that throws changes nothing.
\<close>

theorem log2_pool_size_classes:
  assumes "mem_wf w" "bufs w a = None"
    and "\<forall>i < length log2_pool_sizes. pool_size (base + i) w = Some (log2_pool_sizes ! i)"
  shows "case log2_allocate alloc_ok base n a w of
      Ok _ w' \<Rightarrow> 8 < n \<and> n \<le> 16384 \<and> n \<le> buf_size a w' \<and> buf_size a w' < 2 * n \<and> mem_wf w'
    | Throw e w' \<Rightarrow> w' = w \<and>
        (if n \<le> 8 then e = Bad_alloc else if 16384 < n then e = Out_of_range else e = Bad_alloc \<and> \<not> alloc_ok)"
proof -
  consider "n \<le> 8" | "16384 < n" | (served) "8 < n" "n \<le> 16384" by linarith
  then show ?thesis
  proof cases
    case served
    then obtain i where i: "i < length log2_pool_sizes" "log2_pool_index n = Inr i"
      "n \<le> log2_pool_sizes ! i" "log2_pool_sizes ! i < 2 * n"
      using log2_pool_index_cases(3) by blast
    obtain pl where pl: "pools w (base + i) = Some pl" "pl_size pl = log2_pool_sizes ! i"
      using assms(3) i(1) by (auto simp: pool_size_def)
    show ?thesis
      using pool_allocate_Ok [OF assms(1,2) pl(1), of alloc_ok] pl(2) i served
      by (auto simp: log2_allocate_def buf_size_def split: result.splits)
  qed (simp_all add: log2_allocate_def log2_pool_index_cases)
qed

definition log2_demo :: memory where
  "log2_demo = log2_pool_new 0 memory_empty"

lemma log2_demo_ok:
  "mem_wf log2_demo" "bufs log2_demo a = None"
  "\<forall>i < length log2_pool_sizes. pool_size (0 + i) log2_demo = Some (log2_pool_sizes ! i)"
proof -
  have "mem_prog_ok (map (\<lambda>i. Pool_new i (2 ^ (i + 4))) [0..<11]) memory_empty"
    by (simp add: upt_rec mem_eval)
  moreover have "rfold mem_exec (map (\<lambda>i. Pool_new i (2 ^ (i + 4))) [0..<11]) memory_empty = Ok () log2_demo"
    by (simp add: upt_rec log2_demo_def log2_pool_new_def log2_pool_sizes_powers)
  ultimately show "mem_wf log2_demo"
    using mem_prog_good [OF mem_inv_empty] by (fastforce simp: mem_good_def mem_inv_def)
  show "bufs log2_demo a = None"
    by (simp add: log2_demo_def log2_pool_new_def log2_pool_sizes_def upt_rec pool_new_def memory_empty_def)
  have "list_all (\<lambda>i. pool_size i log2_demo = Some (log2_pool_sizes ! i)) [0..<11]"
    by (simp add: log2_demo_def log2_pool_new_def log2_pool_sizes_def upt_rec pool_new_def memory_empty_def pool_size_def)
  then show "\<forall>i < length log2_pool_sizes. pool_size (0 + i) log2_demo = Some (log2_pool_sizes ! i)"
    by (simp add: list_all_iff log2_pool_sizes_powers)
qed

theorem log2_pool_size_classes_witness:
  "(case log2_allocate True 0 100 1 log2_demo of Ok _ w \<Rightarrow> 100 \<le> buf_size 1 w \<and> buf_size 1 w < 200 | Throw _ _ \<Rightarrow> False) \<and>
   log2_allocate True 0 8 1 log2_demo = Throw Bad_alloc log2_demo \<and>
   log2_allocate True 0 16385 1 log2_demo = Throw Out_of_range log2_demo"
proof (intro conjI)
  note S = log2_pool_size_classes [OF log2_demo_ok(1,2,3), where alloc_ok = True and a = 1]
  show "case log2_allocate True 0 100 1 log2_demo of Ok _ w \<Rightarrow> 100 \<le> buf_size 1 w \<and> buf_size 1 w < 200 | Throw _ _ \<Rightarrow> False"
    using S [of 100] by (cases "log2_allocate True 0 100 1 log2_demo") simp_all
  show "log2_allocate True 0 8 1 log2_demo = Throw Bad_alloc log2_demo"
    using S [of 8] by (cases "log2_allocate True 0 8 1 log2_demo") simp_all
  show "log2_allocate True 0 16385 1 log2_demo = Throw Out_of_range log2_demo"
    using S [of 16385] by (cases "log2_allocate True 0 16385 1 log2_demo") simp_all
qed

lemma sb_resize_data:
  assumes "mem_wf w" "sb_ok w a" "sb_data a w \<noteq> None" "sb_resize True a n w = Ok () w'"
  shows "sb_data a w' \<noteq> None"
proof (cases "n > sb_capacity a w")
  case True
  show ?thesis
  proof (rule sb_reserve_Ok [OF assms(1,2) True])
    fix w1 assume "sb_reserve True a n w = Ok () w1"
      "bufs w1 = (bufs w)(a \<mapsto> \<lparr>b_size = n, b_data = Some (next_block w), b_deleter = Some Delete_array\<rparr>)"
    then show ?thesis using assms(4) True by (auto simp: sb_resize_def sb_set_size_def sb_data_def buf_data_def)
  qed
qed (use assms(3,4) in \<open>auto simp: sb_resize_def sb_set_size_def sb_data_def buf_data_def\<close>)

text \<open>C25. Growing a \<open>sized_buffer\<close> keeps its contents: after \<open>resize(n)\<close> its size is \<open>n\<close> and its first
  \<open>min n (old size)\<close> bytes are the old ones; \<open>to_buffer\<close> then returns a buffer of exactly these bytes and
  leaves the \<open>sized_buffer\<close> empty.
\<close>

theorem resize_then_to_buffer:
  assumes "mem_wf w" "sb_ok w a" "sb_data a w \<noteq> None" "bufs w dst = None" "0 < n"
  shows "\<exists>w1 w2. sb_resize True a n w = Ok () w1 \<and> sb_size a w1 = n \<and>
    take (sb_size a w) (sb_bytes a w1) = take n (sb_bytes a w) \<and>
    sb_to_buffer True a dst w1 = Ok () w2 \<and> buf_bytes dst w2 = sb_bytes a w1 \<and> buf_size dst w2 = n \<and>
    sb_size a w2 = 0 \<and> mem_wf w2"
proof (rule sb_resize_Ok [OF assms(1,2), where n = n])
  have len: "length (sb_bytes a w) = sb_size a w"
    using assms(2,3) mem_wfD(2) [OF assms(1)]
    by (fastforce simp: sb_ok_def sb_bytes_def sb_data_def buf_data_def sb_size_def buf_ok_def block_len_def)
  fix w1 assume w1: "sb_resize True a n w = Ok () w1" "mem_wf w1" "sb_sizes w1 = (sb_sizes w)(a \<mapsto> n)"
    "\<And>a'. a' \<noteq> a \<Longrightarrow> bufs w1 a' = bufs w a'" "sb_ok w1 a"
    "take (length (sb_bytes a w)) (sb_bytes a w1) = take n (sb_bytes a w)"
  have ne: "dst \<noteq> a" using assms(2,4) by (auto simp: sb_ok_def)
  have d: "bufs w1 dst = None" using w1(4) [of dst] ne assms(4) by simp
  have data: "sb_data a w1 \<noteq> None"
    using sb_resize_data [OF assms(1,2,3) w1(1)] .
  show ?thesis
  proof (rule sb_to_buffer_Ok [OF w1(2,5) d])
    fix w2 b' assume w2: "sb_to_buffer True a dst w1 = Ok () w2" "mem_wf w2" "sb_sizes w2 = (sb_sizes w1)(a \<mapsto> 0)"
      "bufs w2 = (bufs w1)(a \<mapsto> buf_null, dst \<mapsto> b')" "b_size b' = sb_size a w1"
      "sb_data a w1 \<noteq> None \<Longrightarrow> buf_bytes dst w2 = sb_bytes a w1"
    show ?thesis using w1 w2 data len by (intro exI [of _ w1] exI [of _ w2]) (simp add: sb_size_def buf_size_def)
  qed
qed

definition sized_demo :: memory where
  "sized_demo = the_state (rfold mem_exec [Sized_new True 0 2] memory_empty)"

theorem resize_then_to_buffer_witness:
  "sb_bytes 0 sized_demo = [None, None] \<and> (\<exists>w1 w2. sb_resize True 0 5 sized_demo = Ok () w1 \<and>
     sb_to_buffer True 0 1 w1 = Ok () w2 \<and> buf_bytes 1 w2 = sb_bytes 0 w1 \<and> buf_size 1 w2 = 5)"
proof -
  have "mem_prog_ok [Sized_new True 0 2] memory_empty" by (simp add: mem_prog_eval)
  from mem_prog_good [OF mem_inv_empty this]
  have "mem_wf sized_demo" "sb_ok sized_demo 0"
    by (auto simp: sized_demo_def mem_good_def mem_inv_def mem_prog_eval)
  moreover have "sb_data 0 sized_demo \<noteq> None" "bufs sized_demo 1 = None"
    by (simp_all add: sized_demo_def mem_prog_eval)
  ultimately show ?thesis
    using resize_then_to_buffer [of sized_demo 0 1 5] by (auto simp: sized_demo_def mem_prog_eval sb_bytes_def)
qed

text \<open>C27. A moved-from \<open>sized_buffer\<close> keeps its old size although its storage is gone: the defaulted move
  copies \<open>m_size\<close>. A \<open>reserve\<close> below that size followed by one above it copies past the end of the
  storage.
\<close>

theorem moved_from_sized_buffer_overreads:
  assumes "mem_wf w" "no_object w a" "no_object w b" "a \<noteq> b" "0 < m" "m < n" "n < k"
  shows "\<exists>w'. rfold mem_exec [Sized_new True a n, Sized_move_ctor b a, Sized_reserve True a m, Sized_reserve True a k] w =
    Throw Undefined_behaviour w'"
  using assms by (simp add: mem_eval no_object_def)

theorem moved_from_sized_buffer_overreads_witness:
  "\<exists>w'. rfold mem_exec [Sized_new True 0 10, Sized_move_ctor 1 0, Sized_reserve True 0 5, Sized_reserve True 0 20] memory_empty =
    Throw Undefined_behaviour w'"
  by (rule moved_from_sized_buffer_overreads)
    (use mem_inv_empty in \<open>simp_all add: mem_inv_def no_object_def memory_empty_def\<close>)

end
