(* ===== verification/Bfc_Shared_Buffer.thy ===== *)
theory Bfc_Shared_Buffer
  imports Bfc_Memory
begin

text \<open>
  Reference-counted storage: \<open>shared_sized_buffer\<close> of \<open>src/src/bfc/shared_sized_buffer.hpp\<close>, and the views
  \<open>simple_buffer_view\<close> and \<open>simple_shared_buffer_view\<close> of \<open>src/src/bfc/buffer.hpp\<close>.

  Views are objects at addresses that point to a storage (or a control block of a \<open>std::shared_ptr\<close>) with
  a count. What a client may rely on is the locale \<open>shared_handles\<close>, interpreted for both kinds of view:
  the count of an object is the number of its handles, an object lives exactly as long as it has a
  handle, and destroying a handle never fails. A program over \<open>shared_sized_buffer\<close> objects is a sequence
  of operations; the lemmas show that it has no undefined behaviour and releases every storage once.
\<close>

section \<open>Reference counts\<close>

definition handles_of :: "('a \<Rightarrow> 'o option option) \<Rightarrow> 'o \<Rightarrow> 'a set" where
  "handles_of h k = {a. h a = Some (Some k)}"

definition rc_ok :: "('a \<Rightarrow> 'o option option) \<Rightarrow> ('o \<Rightarrow> int option) \<Rightarrow> bool" where
  "rc_ok h c \<longleftrightarrow> finite (dom h) \<and>
     (\<forall>k. c k = (if handles_of h k = {} then None else Some (int (card (handles_of h k)))))"

lemma finite_handles [simp]: "finite (dom h) \<Longrightarrow> finite (handles_of h k)"
  by (rule finite_subset [of _ "dom h"]) (auto simp: handles_of_def)

lemma mem_handles: "a \<in> handles_of h k \<longleftrightarrow> h a = Some (Some k)"
  by (simp add: handles_of_def)

lemma handles_of_upd:
  "handles_of (h(a := x)) k = (if x = Some (Some k) then insert a (handles_of h k) else handles_of h k - {a})"
  by (auto simp: handles_of_def)

lemma rc_live: "rc_ok h c \<Longrightarrow> h a = Some (Some k) \<Longrightarrow> \<exists>n \<ge> 1. c k = Some n"
proof -
  assume ok: "rc_ok h c" "h a = Some (Some k)"
  then have "a \<in> handles_of h k" "finite (handles_of h k)" by (simp_all add: rc_ok_def mem_handles)
  moreover from this have "0 < card (handles_of h k)" by (auto simp: card_gt_0_iff)
  ultimately show ?thesis using ok(1) by (auto simp: rc_ok_def)
qed

lemma rc_none: "rc_ok h Map.empty \<Longrightarrow> h a \<noteq> Some (Some k)"
  using rc_live [of h Map.empty a k] by auto

text \<open>The four ways a handle changes.\<close>

lemma rc_null:
  assumes "rc_ok h c" "h a = None \<or> h a = Some None" "x = None \<or> x = Some None"
  shows "rc_ok (h(a := x)) c"
proof -
  have "handles_of (h(a := x)) k = handles_of h k" for k using assms(2,3) by (auto simp: handles_of_def)
  then show ?thesis using assms(1,3) by (auto simp: rc_ok_def dom_def [of "h(a := x)"] intro: finite_subset [of _ "insert a (dom h)"])
qed

lemma rc_acquire:
  assumes "rc_ok h c" "h a = None \<or> h a = Some None" "c k = Some n"
  shows "rc_ok (h(a := Some (Some k))) (c(k \<mapsto> n + 1))"
proof -
  have "a \<notin> handles_of h k'" for k' using assms(2) by (auto simp: handles_of_def)
  then show ?thesis using assms(1,3)
    by (auto simp: rc_ok_def handles_of_upd card_insert_if split: if_splits)
qed

lemma rc_fresh:
  assumes "rc_ok h c" "h a = None \<or> h a = Some None" "c k = None"
  shows "rc_ok (h(a := Some (Some k))) (c(k \<mapsto> 1))"
proof -
  have "a \<notin> handles_of h k'" for k' using assms(2) by (auto simp: handles_of_def)
  then show ?thesis using assms(1,3)
    by (auto simp: rc_ok_def handles_of_upd card_insert_if split: if_splits)
qed

lemma rc_release:
  assumes "rc_ok h c" "h a = Some (Some k)" "c k = Some n" "x = None \<or> x = Some None"
  shows "rc_ok (h(a := x)) (if n = 1 then c(k := None) else c(k \<mapsto> n - 1))"
proof -
  have a: "a \<in> handles_of h k" "\<And>k'. k' \<noteq> k \<Longrightarrow> a \<notin> handles_of h k'" using assms(2) by (auto simp: handles_of_def)
  have fin: "finite (handles_of h k)" using assms(1) by (simp add: rc_ok_def)
  have n: "n = int (card (handles_of h k))" using assms(1,3) by (auto simp: rc_ok_def split: if_splits)
  have one: "n = 1 \<longleftrightarrow> handles_of h k - {a} = {}"
    using a(1) fin n by (auto simp: card_1_singleton_iff)
  have "finite (dom (h(a := x)))" using assms(1) by (auto simp: rc_ok_def)
  moreover have "int (card (handles_of h k - {a})) = n - 1"
    using a(1) fin n card_gt_0_iff [of "handles_of h k"] by (auto simp: card_Diff_singleton of_nat_diff)
  ultimately show ?thesis using assms(1,4) one a(2)
    by (auto simp: rc_ok_def handles_of_upd)
qed

lemma rc_move:
  assumes "rc_ok h c" "h dst = None \<or> h dst = Some None" "h src = Some (Some k)" "x = None \<or> x = Some None"
  shows "rc_ok (h(dst := Some (Some k), src := x)) c"
proof -
  have ne: "dst \<noteq> src" using assms(2,3) by auto
  have "handles_of (h(dst := Some (Some k), src := x)) k' =
      (if k' = k then insert dst (handles_of h k - {src}) else handles_of h k')" for k'
    using assms(2-4) ne by (auto simp: handles_of_def)
  moreover have s: "src \<in> handles_of h k" using assms(3) by (simp add: mem_handles)
  moreover have "card (insert dst (handles_of h k - {src})) = card (handles_of h k)"
  proof -
    have "finite (handles_of h k)" "dst \<notin> handles_of h k" using assms(1,2) by (auto simp: rc_ok_def mem_handles)
    then show ?thesis using card_Suc_Diff1 [of "handles_of h k" src] s by (simp add: card_insert_disjoint)
  qed
  ultimately show ?thesis using assms(1) by (auto simp: rc_ok_def)
qed

text \<open>The contract of a reference-counted handle type.\<close>

locale shared_handles =
  fixes handle :: "'w \<Rightarrow> 'a \<Rightarrow> 'o option option"
    and count :: "'w \<Rightarrow> 'o \<Rightarrow> int option"
    and inv :: "'w \<Rightarrow> bool"
    and copy_ctor :: "'a \<Rightarrow> 'a \<Rightarrow> 'w \<Rightarrow> ('w, unit) result"
    and dtor :: "'a \<Rightarrow> 'w \<Rightarrow> ('w, unit) result"
  assumes counted: "inv w \<Longrightarrow> rc_ok (handle w) (count w)"
    and copies: "inv w \<Longrightarrow> handle w dst = None \<Longrightarrow> handle w src = Some k \<Longrightarrow>
      \<exists>w'. copy_ctor dst src w = Ok () w' \<and> inv w' \<and> handle w' = (handle w)(dst \<mapsto> k)"
    and destroys: "inv w \<Longrightarrow> handle w a = Some k \<Longrightarrow>
      \<exists>w'. dtor a w = Ok () w' \<and> inv w' \<and> handle w' = (handle w)(a := None)"
begin

lemma lives_while_referenced:
  "inv w \<Longrightarrow> count w k \<noteq> None \<longleftrightarrow> (\<exists>a. handle w a = Some (Some k))"
  using counted [of w] by (auto simp: rc_ok_def handles_of_def)

lemma count_is_number_of_handles:
  "inv w \<Longrightarrow> count w k = Some n \<Longrightarrow> n = int (card {a. handle w a = Some (Some k)}) \<and> n \<ge> 1"
  using counted [of w] rc_live [of "handle w" "count w" _ k]
  by (fastforce simp: rc_ok_def handles_of_def split: if_splits)

lemma destroys_all:
  assumes "inv w" "distinct as" "set as = dom (handle w)"
  shows "\<exists>w'. rfold dtor as w = Ok () w' \<and> inv w' \<and> handle w' = Map.empty \<and> count w' = Map.empty"
  using assms
proof (induction as arbitrary: w)
  case Nil
  then have "handle w = Map.empty" by (metis dom_eq_empty_conv list.set(1))
  then show ?case using Nil(1) lives_while_referenced [OF Nil(1)] by (auto simp: fun_eq_iff)
next
  case (Cons a as)
  then obtain k where "handle w a = Some k" by (auto dest: equalityD1)
  with destroys [OF Cons.prems(1)] obtain w1 where
    w1: "dtor a w = Ok () w1" "inv w1" "handle w1 = (handle w)(a := None)" by blast
  have "set as = dom (handle w1)" using Cons.prems w1(3) by auto
  then show ?case using Cons.IH [OF w1(2)] Cons.prems w1(1) by auto
qed

lemma copy_outlives_original:
  assumes "inv w" "handle w dst = None" "handle w src = Some (Some k)"
  shows "\<exists>w1 w2. copy_ctor dst src w = Ok () w1 \<and> dtor src w1 = Ok () w2 \<and> inv w2 \<and> count w2 k = count w k \<and>
    handle w2 dst = Some (Some k) \<and> handle w2 src = None"
proof -
  obtain w1 where w1: "copy_ctor dst src w = Ok () w1" "inv w1" "handle w1 = (handle w)(dst \<mapsto> Some k)"
    using copies [OF assms] by blast
  have ne: "dst \<noteq> src" using assms by auto
  then obtain w2 where w2: "dtor src w1 = Ok () w2" "inv w2" "handle w2 = (handle w1)(src := None)"
    using destroys [OF w1(2), of src "Some k"] w1(3) assms(3) by auto
  have "rc_ok (handle w2) (count w)"
    using rc_move [OF counted [OF assms(1)], of dst src k None] assms w1(3) w2(3) by (simp add: fun_upd_twist)
  then have "count w2 k = count w k" using counted [OF w2(2)] by (simp add: rc_ok_def)
  then show ?thesis using w1 w2 ne by (intro exI [of _ w1] exI [of _ w2]) simp
qed

end


section \<open>Shared sized buffers\<close>

text \<open>
  The store: blocks of bytes (the blocks of a \<open>memory\<close>), storages, view objects. A release function given
  to \<open>adopt\<close> is user code; its call is recorded with its identity and the block is gone. \<open>held\<close> are the
  blocks that belong to the caller: blocks it allocated and did not hand over, and blocks whose storage
  had no release function. \<open>adopted\<close> records every hand-over with a release function.
\<close>

datatype releaser = Release_delete | Release_custom nat

record storage =
  st_bytes :: "nat option"
  st_capacity :: size_t
  st_release :: "releaser option"
  st_refs :: int

record shared_sized_buffer =
  m_storage :: "nat option"
  m_offset :: size_t
  m_ssize :: size_t

record shared_world =
  mem :: memory
  storages :: "nat \<rightharpoonup> storage"
  next_storage :: nat
  views :: "addr \<rightharpoonup> shared_sized_buffer"
  held :: "nat set"
  released :: "(nat \<times> nat) list"
  adopted :: "(nat \<times> nat) list"

definition shared_empty :: shared_world where
  "shared_empty = \<lparr>mem = memory_empty, storages = Map.empty, next_storage = 0, views = Map.empty,
     held = {}, released = [], adopted = []\<rparr>"

definition storage_new :: storage where
  "storage_new = \<lparr>st_bytes = None, st_capacity = 0, st_release = None, st_refs = 1\<rparr>"

definition ssb_null :: shared_sized_buffer where
  "ssb_null = \<lparr>m_storage = None, m_offset = 0, m_ssize = 0\<rparr>"

definition put_view :: "addr \<Rightarrow> shared_sized_buffer \<Rightarrow> shared_world \<Rightarrow> shared_world" where
  "put_view a v w = w\<lparr>views := (views w)(a \<mapsto> v)\<rparr>"

definition lift_mem :: "(memory \<Rightarrow> (memory, 'a) result) \<Rightarrow> shared_world \<Rightarrow> (shared_world, 'a) result" where
  "lift_mem f w = (case f (mem w) of Ok x m \<Rightarrow> Ok x (w\<lparr>mem := m\<rparr>) | Throw e m \<Rightarrow> Throw e (w\<lparr>mem := m\<rparr>))"

definition run_release :: "releaser \<Rightarrow> nat \<Rightarrow> shared_world \<Rightarrow> (shared_world, unit) result" where
  "run_release r p w =
     (case r of
        Release_delete \<Rightarrow> lift_mem (delete_array p) w
      | Release_custom k \<Rightarrow>
          rbind (lift_mem (delete_array p) w) (\<lambda>_ w. Ok () (w\<lparr>released := released w @ [(k, p)]\<rparr>)))"

text \<open>\<open>~storage\<close>, then the storage is gone.\<close>

definition storage_dtor :: "nat \<Rightarrow> storage \<Rightarrow> shared_world \<Rightarrow> (shared_world, unit) result" where
  "storage_dtor s st w =
     rbind (case (st_release st, st_bytes st) of
              (Some r, Some p) \<Rightarrow> run_release r p w
            | (None, Some p) \<Rightarrow> Ok () (w\<lparr>held := insert p (held w)\<rparr>)
            | (_, None) \<Rightarrow> Ok () w)
       (\<lambda>_ w. Ok () (w\<lparr>storages := (storages w)(s := None)\<rparr>))"

definition acquire :: "nat option \<Rightarrow> shared_world \<Rightarrow> (shared_world, nat option) result" where
  "acquire p_storage w =
     (case p_storage of
        None \<Rightarrow> Ok None w
      | Some s \<Rightarrow>
          (case storages w s of
             None \<Rightarrow> Throw Undefined_behaviour w
           | Some st \<Rightarrow> Ok (Some s) (w\<lparr>storages := (storages w)(s \<mapsto> st\<lparr>st_refs := st_refs st + 1\<rparr>)\<rparr>)))"

definition release_ref :: "nat option \<Rightarrow> shared_world \<Rightarrow> (shared_world, unit) result" where
  "release_ref p_storage w =
     (case p_storage of
        None \<Rightarrow> Ok () w
      | Some s \<Rightarrow>
          (case storages w s of
             None \<Rightarrow> Throw Undefined_behaviour w
           | Some st \<Rightarrow>
               (let st' = st\<lparr>st_refs := st_refs st - 1\<rparr>; w' = w\<lparr>storages := (storages w)(s \<mapsto> st')\<rparr>
                in if st_refs st = 1 then storage_dtor s st' w' else Ok () w')))"

definition ssb_default :: "addr \<Rightarrow> shared_world \<Rightarrow> shared_world" where
  "ssb_default a w = put_view a ssb_null w"

definition ssb_copy_ctor :: "addr \<Rightarrow> addr \<Rightarrow> shared_world \<Rightarrow> (shared_world, unit) result" where
  "ssb_copy_ctor a p_other w =
     (case views w p_other of
        None \<Rightarrow> Throw Undefined_behaviour w
      | Some v \<Rightarrow>
          rbind (acquire (m_storage v) w)
            (\<lambda>s w. Ok () (put_view a \<lparr>m_storage = s, m_offset = m_offset v, m_ssize = m_ssize v\<rparr> w)))"

definition ssb_copy_assign :: "addr \<Rightarrow> addr \<Rightarrow> shared_world \<Rightarrow> (shared_world, unit) result" where
  "ssb_copy_assign a p_other w =
     (case (views w a, views w p_other) of
        (Some d, Some v) \<Rightarrow>
          (if a \<noteq> p_other then
             rbind (acquire (m_storage v) w)
               (\<lambda>s w. release_ref (m_storage d) (put_view a \<lparr>m_storage = s, m_offset = m_offset v, m_ssize = m_ssize v\<rparr> w))
           else Ok () w)
      | _ \<Rightarrow> Throw Undefined_behaviour w)"

definition ssb_move_ctor :: "addr \<Rightarrow> addr \<Rightarrow> shared_world \<Rightarrow> (shared_world, unit) result" where
  "ssb_move_ctor a p_other w =
     (case views w p_other of
        None \<Rightarrow> Throw Undefined_behaviour w
      | Some v \<Rightarrow> Ok () (put_view p_other ssb_null (put_view a v w)))"

definition ssb_move_assign :: "addr \<Rightarrow> addr \<Rightarrow> shared_world \<Rightarrow> (shared_world, unit) result" where
  "ssb_move_assign a p_other w =
     (case (views w a, views w p_other) of
        (Some d, Some v) \<Rightarrow>
          (if a \<noteq> p_other then release_ref (m_storage d) (put_view p_other ssb_null (put_view a v w))
           else Ok () w)
      | _ \<Rightarrow> Throw Undefined_behaviour w)"

definition ssb_dtor :: "addr \<Rightarrow> shared_world \<Rightarrow> (shared_world, unit) result" where
  "ssb_dtor a w =
     (case views w a of
        None \<Rightarrow> Throw Undefined_behaviour w
      | Some v \<Rightarrow> release_ref (m_storage v) (w\<lparr>views := (views w)(a := None)\<rparr>))"

definition ssb_size :: "addr \<Rightarrow> shared_world \<Rightarrow> size_t" where
  "ssb_size a w = m_ssize (the (views w a))"

definition ssb_offset :: "addr \<Rightarrow> shared_world \<Rightarrow> size_t" where
  "ssb_offset a w = m_offset (the (views w a))"

text \<open>The offset never exceeds the capacity, so the subtraction does not wrap.\<close>

definition ssb_capacity :: "addr \<Rightarrow> shared_world \<Rightarrow> size_t" where
  "ssb_capacity a w =
     (case m_storage (the (views w a)) of
        None \<Rightarrow> 0
      | Some s \<Rightarrow> st_capacity (the (storages w s)) - ssb_offset a w)"

definition ssb_is_empty :: "addr \<Rightarrow> shared_world \<Rightarrow> bool" where
  "ssb_is_empty a w \<longleftrightarrow> m_storage (the (views w a)) = None \<or> ssb_size a w = 0"

text \<open>\<open>data()\<close>: the block and the offset into it.\<close>

definition ssb_data :: "addr \<Rightarrow> shared_world \<Rightarrow> (nat option \<times> size_t) option" where
  "ssb_data a w =
     (case m_storage (the (views w a)) of
        None \<Rightarrow> None
      | Some s \<Rightarrow> Some (st_bytes (the (storages w s)), ssb_offset a w))"

definition ssb_block :: "addr \<Rightarrow> shared_world \<Rightarrow> nat" where
  "ssb_block a w = the (fst (the (ssb_data a w)))"

definition get_storage :: "addr \<Rightarrow> shared_world \<Rightarrow> nat option" where
  "get_storage a w = m_storage (the (views w a))"

definition use_count :: "addr \<Rightarrow> shared_world \<Rightarrow> int" where
  "use_count a w = (case m_storage (the (views w a)) of None \<Rightarrow> 0 | Some s \<Rightarrow> st_refs (the (storages w s)))"

definition ssb_clear :: "addr \<Rightarrow> shared_world \<Rightarrow> (shared_world, unit) result" where
  "ssb_clear a w =
     (case views w a of
        None \<Rightarrow> Throw Undefined_behaviour w
      | Some v \<Rightarrow>
          rbind (release_ref (m_storage v) (put_view a (v\<lparr>m_storage := None\<rparr>) w))
            (\<lambda>_ w. Ok () (put_view a ssb_null w)))"

text \<open>
  The functions that return a view construct it at \<open>out\<close>; an exception destroys it again.
  \<open>st_ok\<close> and \<open>b_ok\<close> say whether \<open>new storage()\<close> and \<open>new std::byte[]\<close> succeed.
\<close>

definition unwind :: "addr \<Rightarrow> (shared_world, unit) result \<Rightarrow> (shared_world, unit) result" where
  "unwind out r =
     (case r of Ok _ w \<Rightarrow> Ok () w | Throw e w \<Rightarrow> rbind (ssb_dtor out w) (\<lambda>_ w. Throw e w))"

definition ssb_allocate :: "bool \<Rightarrow> bool \<Rightarrow> addr \<Rightarrow> size_t \<Rightarrow> shared_world \<Rightarrow> (shared_world, unit) result" where
  "ssb_allocate st_ok b_ok out p_capacity w =
     (let w = ssb_default out w in
      if p_capacity = 0 then Ok () w
      else unwind out
        (if \<not> st_ok then Throw Bad_alloc w
         else
           (let s = next_storage w;
                w = put_view out (ssb_null\<lparr>m_storage := Some s\<rparr>)
                      (w\<lparr>storages := (storages w)(s \<mapsto> storage_new), next_storage := s + 1\<rparr>)
            in rbind (lift_mem (new_array b_ok p_capacity) w) (\<lambda>p w.
                 Ok () (w\<lparr>storages := (storages w)(s \<mapsto>
                   storage_new\<lparr>st_bytes := Some p, st_capacity := p_capacity, st_release := Some Release_delete\<rparr>)\<rparr>)))))"

definition ssb_adopt :: "bool \<Rightarrow> addr \<Rightarrow> nat option \<Rightarrow> size_t \<Rightarrow> size_t \<Rightarrow> releaser option \<Rightarrow> shared_world \<Rightarrow>
    (shared_world, unit) result" where
  "ssb_adopt st_ok out p_data p_capacity p_size p_release w =
     (let w = ssb_default out w in
      if p_data = None \<or> p_capacity = 0 \<or> p_size > p_capacity then
        (case (p_release, p_data) of (Some r, Some p) \<Rightarrow> run_release r p w | _ \<Rightarrow> Ok () w)
      else unwind out
        (if \<not> st_ok then Throw Bad_alloc w
         else
           (let s = next_storage w
            in Ok () (put_view out \<lparr>m_storage = Some s, m_offset = 0, m_ssize = p_size\<rparr>
                 (w\<lparr>storages := (storages w)(s \<mapsto>
                     \<lparr>st_bytes = p_data, st_capacity = p_capacity, st_release = p_release, st_refs = 1\<rparr>),
                   next_storage := s + 1\<rparr>)))))"

text \<open>\<open>next\<close> of \<open>reserve\<close> is an object at \<open>t\<close>. Both offsets are 0 where it copies.\<close>

definition ssb_reserve :: "bool \<Rightarrow> bool \<Rightarrow> addr \<Rightarrow> addr \<Rightarrow> size_t \<Rightarrow> shared_world \<Rightarrow> (shared_world, unit) result" where
  "ssb_reserve st_ok b_ok t a p_capacity w =
     (if ssb_offset a w \<noteq> 0 \<or> p_capacity \<le> ssb_capacity a w then Ok () w
      else
        rbind (ssb_allocate st_ok b_ok t p_capacity w) (\<lambda>_ w.
        rbind (if \<not> ssb_is_empty a w then
                 rbind (lift_mem (memcpy (ssb_block t w) (ssb_block a w) (ssb_size a w)) w)
                   (\<lambda>_ w. Ok () (put_view t ((the (views w t))\<lparr>m_ssize := ssb_size a w\<rparr>) w))
               else Ok () w) (\<lambda>_ w.
        rbind (ssb_move_assign a t w) (\<lambda>_. ssb_dtor t))))"

definition ssb_resize :: "bool \<Rightarrow> bool \<Rightarrow> addr \<Rightarrow> addr \<Rightarrow> size_t \<Rightarrow> shared_world \<Rightarrow> (shared_world, unit) result" where
  "ssb_resize st_ok b_ok t a p_size w =
     (if ssb_offset a w \<noteq> 0 then Ok () w
      else
        rbind (if p_size > ssb_capacity a w then ssb_reserve st_ok b_ok t a p_size w else Ok () w)
          (\<lambda>_ w. Ok () (put_view a ((the (views w a))\<lparr>m_ssize := p_size\<rparr>) w)))"

text \<open>A write of bytes through \<open>data()\<close> (offset 0 in \<open>copy_from\<close>).\<close>

definition write_bytes :: "nat \<Rightarrow> byte list \<Rightarrow> memory \<Rightarrow> (memory, unit) result" where
  "write_bytes p bs w =
     (case blocks w p of
        None \<Rightarrow> Throw Undefined_behaviour w
      | Some d \<Rightarrow>
          (if length bs \<le> length d then Ok () (w\<lparr>blocks := (blocks w)(p \<mapsto> map Some bs @ drop (length bs) d)\<rparr>)
           else Throw Undefined_behaviour w))"

definition ssb_copy_from :: "bool \<Rightarrow> bool \<Rightarrow> addr \<Rightarrow> addr \<Rightarrow> byte list option \<Rightarrow> shared_world \<Rightarrow> (shared_world, unit) result" where
  "ssb_copy_from st_ok b_ok t out p_data w =
     (let w = ssb_default out w in
      case p_data of
        None \<Rightarrow> Ok () w
      | Some bs \<Rightarrow>
          (if bs = [] then Ok () w
           else unwind out
             (rbind (ssb_resize st_ok b_ok t out (length bs) w)
               (\<lambda>_ w. lift_mem (write_bytes (ssb_block out w) bs) w))))"

definition ssb_subview :: "addr \<Rightarrow> addr \<Rightarrow> size_t \<Rightarrow> size_t \<Rightarrow> shared_world \<Rightarrow> (shared_world, unit) result" where
  "ssb_subview out a p_offset p_size w =
     (let w = ssb_default out w; v = the (views w a) in
      if m_storage v = None \<or> p_offset > m_ssize v \<or> p_size > m_ssize v - p_offset then Ok () w
      else
        rbind (acquire (m_storage v) w)
          (\<lambda>s w. Ok () (put_view out \<lparr>m_storage = s, m_offset = m_offset v + p_offset, m_ssize = p_size\<rparr> w)))"


section \<open>Invariant\<close>

definition ssb_handle :: "shared_world \<Rightarrow> addr \<Rightarrow> nat option option" where
  "ssb_handle w a = map_option m_storage (views w a)"

definition ssb_count :: "shared_world \<Rightarrow> nat \<Rightarrow> int option" where
  "ssb_count w s = map_option st_refs (storages w s)"

definition assets :: "shared_world \<Rightarrow> nat \<Rightarrow> (nat option \<times> size_t \<times> releaser option) option" where
  "assets w s = map_option (\<lambda>st. (st_bytes st, st_capacity st, st_release st)) (storages w s)"

definition heap_ok :: "shared_world \<Rightarrow> bool" where
  "heap_ok w \<longleftrightarrow>
     (\<forall>s b c r. assets w s = Some (b, c, r) \<longrightarrow> s < next_storage w) \<and>
     (\<forall>s b c r. assets w s = Some (b, c, r) \<longrightarrow>
       (\<exists>p bs. b = Some p \<and> p \<notin> held w \<and> blocks (mem w) p = Some bs \<and> c \<le> length bs)) \<and>
     (\<forall>s s' p c c' r r'. assets w s = Some (Some p, c, r) \<longrightarrow> assets w s' = Some (Some p, c', r') \<longrightarrow> s = s') \<and>
     (\<forall>p. blocks (mem w) p \<noteq> None \<longleftrightarrow> p \<in> held w \<or> (\<exists>s c r. assets w s = Some (Some p, c, r))) \<and>
     (\<forall>p. blocks (mem w) p \<noteq> None \<longrightarrow> p < next_block (mem w)) \<and>
     distinct (map snd (released w)) \<and>
     (\<forall>k p. (k, p) \<in> set (released w) \<longrightarrow> blocks (mem w) p = None) \<and>
     (\<forall>k p. (k, p) \<in> set (released w) \<longrightarrow> p < next_block (mem w)) \<and>
     (\<forall>k p. (k, p) \<in> set (adopted w) \<longleftrightarrow>
       (k, p) \<in> set (released w) \<or> (\<exists>s c. assets w s = Some (Some p, c, Some (Release_custom k))))"

definition view_ok :: "(nat \<Rightarrow> (nat option \<times> size_t \<times> releaser option) option) \<Rightarrow> shared_sized_buffer \<Rightarrow> bool" where
  "view_ok A v \<longleftrightarrow>
     (case m_storage v of
        None \<Rightarrow> m_offset v = 0 \<and> m_ssize v = 0
      | Some s \<Rightarrow> (case A s of None \<Rightarrow> False | Some (b, c, r) \<Rightarrow> m_offset v + m_ssize v \<le> c))"

definition ssb_inv :: "shared_world \<Rightarrow> bool" where
  "ssb_inv w \<longleftrightarrow> rc_ok (ssb_handle w) (ssb_count w) \<and> heap_ok w \<and>
     (\<forall>a v. views w a = Some v \<longrightarrow> view_ok (assets w) v)"

lemma view_ok_null [simp]: "view_ok A ssb_null"
  by (simp add: view_ok_def ssb_null_def)

lemma ssb_null_storage [simp]: "m_storage ssb_null = None" "m_offset ssb_null = 0" "m_ssize ssb_null = 0"
  by (simp_all add: ssb_null_def)

lemma ssb_handle_view [simp]:
  "ssb_handle (put_view a v w) = (ssb_handle w)(a \<mapsto> m_storage v)"
  "ssb_handle (w\<lparr>views := (views w)(a := None)\<rparr>) = (ssb_handle w)(a := None)"
  by (auto simp: ssb_handle_def put_view_def)

lemma ssb_frame [simp]:
  "assets (put_view a v w) = assets w" "assets (w\<lparr>views := V\<rparr>) = assets w"
  "ssb_count (put_view a v w) = ssb_count w" "ssb_count (w\<lparr>views := V\<rparr>) = ssb_count w"
  "heap_ok (put_view a v w) = heap_ok w" "heap_ok (w\<lparr>views := V\<rparr>) = heap_ok w"
  by (auto simp: assets_def ssb_count_def put_view_def fun_eq_iff heap_ok_def cong: conj_cong)

lemma put_view_sel [simp]:
  "views (put_view a v w) = (views w)(a \<mapsto> v)" "mem (put_view a v w) = mem w" "storages (put_view a v w) = storages w"
  "held (put_view a v w) = held w" "next_storage (put_view a v w) = next_storage w"
  "released (put_view a v w) = released w" "adopted (put_view a v w) = adopted w"
  by (simp_all add: put_view_def)

lemma ssb_invD:
  assumes "ssb_inv w"
  shows "rc_ok (ssb_handle w) (ssb_count w)" "heap_ok w" "views w a = Some v \<Longrightarrow> view_ok (assets w) v"
  using assms by (auto simp: ssb_inv_def)

lemma view_storage:
  assumes "ssb_inv w" "views w a = Some v" "m_storage v = Some s"
  obtains st where "storages w s = Some st" "1 \<le> st_refs st" "m_offset v + m_ssize v \<le> st_capacity st"
proof -
  obtain n where "n \<ge> 1" "ssb_count w s = Some n"
    using rc_live [OF ssb_invD(1) [OF assms(1)], of a s] assms(2,3) by (auto simp: ssb_handle_def)
  moreover have "view_ok (assets w) v" using assms ssb_invD(3) by blast
  ultimately show ?thesis using assms(3) that by (auto simp: ssb_count_def view_ok_def assets_def)
qed

lemma heap_okD:
  assumes "heap_ok w" "storages w s = Some st"
  obtains p bs where "st_bytes st = Some p" "p \<notin> held w" "blocks (mem w) p = Some bs" "st_capacity st \<le> length bs" "s < next_storage w"
    "p < next_block (mem w)" "\<And>s' st'. storages w s' = Some st' \<Longrightarrow> st_bytes st' = Some p \<Longrightarrow> s' = s"
proof -
  have A: "assets w s = Some (st_bytes st, st_capacity st, st_release st)" using assms(2) by (simp add: assets_def)
  then obtain p bs where p: "st_bytes st = Some p" "p \<notin> held w" "blocks (mem w) p = Some bs" "st_capacity st \<le> length bs" "s < next_storage w"
    using assms(1) unfolding heap_ok_def by meson
  have "p < next_block (mem w)" using assms(1) p(3) unfolding heap_ok_def by blast
  moreover have "s' = s" if "storages w s' = Some st'" "st_bytes st' = Some p" for s' st'
  proof -
    have "assets w s' = Some (Some p, st_capacity st', st_release st')" using that by (simp add: assets_def)
    then show ?thesis using A p(1) assms(1) unfolding heap_ok_def by metis
  qed
  ultimately show ?thesis using that p by blast
qed

lemma ex_at_or_elsewhere:
  "(\<exists>x c. f x = Some (g c)) \<longleftrightarrow> (\<exists>c. f a = Some (g c)) \<or> (\<exists>x c. (f(a := None)) x = Some (g c))"
  by (metis fun_upd_apply option.distinct(1))

lemma heap_ok_rules:
  assumes "heap_ok w"
  shows "assets w s = Some (b, c, r) \<Longrightarrow> s < next_storage w"
    and "assets w s = Some (b, c, r) \<Longrightarrow> \<exists>p bs. b = Some p \<and> p \<notin> held w \<and> blocks (mem w) p = Some bs \<and> c \<le> length bs"
    and "assets w s = Some (Some p, c, r) \<Longrightarrow> assets w s' = Some (Some p, c', r') \<Longrightarrow> s = s'"
    and "blocks (mem w) p \<noteq> None \<longleftrightarrow> p \<in> held w \<or> (\<exists>s c r. assets w s = Some (Some p, c, r))"
    and "blocks (mem w) p \<noteq> None \<Longrightarrow> p < next_block (mem w)"
    and "distinct (map snd (released w))"
    and "(k, p) \<in> set (released w) \<Longrightarrow> blocks (mem w) p = None"
    and "(k, p) \<in> set (released w) \<Longrightarrow> p < next_block (mem w)"
    and "(k, p) \<in> set (adopted w) \<longleftrightarrow> (k, p) \<in> set (released w) \<or> (\<exists>s c. assets w s = Some (Some p, c, Some (Release_custom k)))"
proof -
  note h = assms [unfolded heap_ok_def]
  show "assets w s = Some (b, c, r) \<Longrightarrow> s < next_storage w"
    by (rule h [THEN conjunct1, rule_format])
  show "assets w s = Some (b, c, r) \<Longrightarrow> \<exists>p bs. b = Some p \<and> p \<notin> held w \<and> blocks (mem w) p = Some bs \<and> c \<le> length bs"
    by (rule h [THEN conjunct2, THEN conjunct1, rule_format])
  show "assets w s = Some (Some p, c, r) \<Longrightarrow> assets w s' = Some (Some p, c', r') \<Longrightarrow> s = s'"
    by (rule h [THEN conjunct2, THEN conjunct2, THEN conjunct1, rule_format])
  show "blocks (mem w) p \<noteq> None \<longleftrightarrow> p \<in> held w \<or> (\<exists>s c r. assets w s = Some (Some p, c, r))"
    by (rule h [THEN conjunct2, THEN conjunct2, THEN conjunct2, THEN conjunct1, rule_format])
  show "blocks (mem w) p \<noteq> None \<Longrightarrow> p < next_block (mem w)"
    by (rule h [THEN conjunct2, THEN conjunct2, THEN conjunct2, THEN conjunct2, THEN conjunct1, rule_format])
  show "distinct (map snd (released w))"
    by (rule h [THEN conjunct2, THEN conjunct2, THEN conjunct2, THEN conjunct2, THEN conjunct2, THEN conjunct1, rule_format])
  show "(k, p) \<in> set (released w) \<Longrightarrow> blocks (mem w) p = None"
    by (rule h [THEN conjunct2, THEN conjunct2, THEN conjunct2, THEN conjunct2, THEN conjunct2, THEN conjunct2, THEN conjunct1, rule_format])
  show "(k, p) \<in> set (released w) \<Longrightarrow> p < next_block (mem w)"
    by (rule h [THEN conjunct2, THEN conjunct2, THEN conjunct2, THEN conjunct2, THEN conjunct2, THEN conjunct2, THEN conjunct2, THEN conjunct1, rule_format])
  show "(k, p) \<in> set (adopted w) \<longleftrightarrow> (k, p) \<in> set (released w) \<or> (\<exists>s c. assets w s = Some (Some p, c, Some (Release_custom k)))"
    by (rule h [THEN conjunct2, THEN conjunct2, THEN conjunct2, THEN conjunct2, THEN conjunct2, THEN conjunct2, THEN conjunct2, THEN conjunct2, rule_format])
qed

lemma heap_okI:
  assumes "\<And>s b c r. assets w s = Some (b, c, r) \<Longrightarrow> s < next_storage w"
    and "\<And>s b c r. assets w s = Some (b, c, r) \<Longrightarrow> \<exists>p bs. b = Some p \<and> p \<notin> held w \<and> blocks (mem w) p = Some bs \<and> c \<le> length bs"
    and "\<And>s s' p c c' r r'. assets w s = Some (Some p, c, r) \<Longrightarrow> assets w s' = Some (Some p, c', r') \<Longrightarrow> s = s'"
    and "\<And>p. blocks (mem w) p \<noteq> None \<longleftrightarrow> p \<in> held w \<or> (\<exists>s c r. assets w s = Some (Some p, c, r))"
    and "\<And>p. blocks (mem w) p \<noteq> None \<Longrightarrow> p < next_block (mem w)"
    and "distinct (map snd (released w))"
    and "\<And>k p. (k, p) \<in> set (released w) \<Longrightarrow> blocks (mem w) p = None"
    and "\<And>k p. (k, p) \<in> set (released w) \<Longrightarrow> p < next_block (mem w)"
    and "\<And>k p. (k, p) \<in> set (adopted w) \<longleftrightarrow> (k, p) \<in> set (released w) \<or> (\<exists>s c. assets w s = Some (Some p, c, Some (Release_custom k)))"
  shows "heap_ok w"
  unfolding heap_ok_def by (intro conjI allI impI) (rule assms; assumption)+

text \<open>Counts alone do not touch the heap.\<close>

lemma heap_refs [simp]:
  assumes "storages w s = Some st"
  shows "heap_ok (w\<lparr>storages := (storages w)(s \<mapsto> st\<lparr>st_refs := n\<rparr>)\<rparr>) = heap_ok w"
    and "assets (w\<lparr>storages := (storages w)(s \<mapsto> st\<lparr>st_refs := n\<rparr>)\<rparr>) = assets w"
    and "ssb_count (w\<lparr>storages := (storages w)(s \<mapsto> st\<lparr>st_refs := n\<rparr>)\<rparr>) = (ssb_count w)(s \<mapsto> n)"
proof -
  show A: "assets (w\<lparr>storages := (storages w)(s \<mapsto> st\<lparr>st_refs := n\<rparr>)\<rparr>) = assets w"
    using assms by (auto simp: assets_def fun_eq_iff)
  then show "heap_ok (w\<lparr>storages := (storages w)(s \<mapsto> st\<lparr>st_refs := n\<rparr>)\<rparr>) = heap_ok w" by (simp add: heap_ok_def)
  show "ssb_count (w\<lparr>storages := (storages w)(s \<mapsto> st\<lparr>st_refs := n\<rparr>)\<rparr>) = (ssb_count w)(s \<mapsto> n)"
    by (auto simp: ssb_count_def fun_eq_iff)
qed

text \<open>Taking a storage out of the table: its block loses its only owner, the others keep theirs.\<close>

lemma assets_del: "storages w' = (storages w)(s := None) \<Longrightarrow> assets w' = (assets w)(s := None)"
  by (auto simp: assets_def fun_eq_iff)

lemma asset_elsewhere:
  assumes ok: "heap_ok w" and A: "assets w s = Some (Some p, c, r)"
  shows "(\<exists>s' c' r'. ((assets w)(s := None)) s' = Some (Some q, c', r')) \<longleftrightarrow>
    q \<noteq> p \<and> (\<exists>s' c' r'. assets w s' = Some (Some q, c', r'))"
proof
  assume "\<exists>s' c' r'. ((assets w)(s := None)) s' = Some (Some q, c', r')"
  then obtain s' c' r' where "s' \<noteq> s" "assets w s' = Some (Some q, c', r')" by (auto split: if_splits)
  then show "q \<noteq> p \<and> (\<exists>s' c' r'. assets w s' = Some (Some q, c', r'))" using heap_ok_rules(3) [OF ok _ A] by auto
next
  assume q: "q \<noteq> p \<and> (\<exists>s' c' r'. assets w s' = Some (Some q, c', r'))"
  then obtain s' c' r' where "assets w s' = Some (Some q, c', r')" by blast
  then have "((assets w)(s := None)) s' = Some (Some q, c', r')" using A q by auto
  then show "\<exists>s' c' r'. ((assets w)(s := None)) s' = Some (Some q, c', r')" by blast
qed

lemma asset_kept:
  assumes ok: "heap_ok w" and A: "assets w s = Some (Some p, c, r)" and "((assets w)(s := None)) s' = Some (b, c', r')"
  shows "\<exists>q bs. b = Some q \<and> q \<noteq> p \<and> q \<notin> held w \<and> blocks (mem w) q = Some bs \<and> c' \<le> length bs"
proof -
  have s': "s' \<noteq> s" "assets w s' = Some (b, c', r')" using assms(3) by (auto split: if_splits)
  obtain q bs where q: "b = Some q" "q \<notin> held w" "blocks (mem w) q = Some bs" "c' \<le> length bs"
    using heap_ok_rules(2) [OF ok s'(2)] by blast
  then have "q \<noteq> p" using heap_ok_rules(3) [OF ok _ A, of s' c' r'] s' by auto
  then show ?thesis using q by simp
qed

lemma heap_ok_released:
  assumes ok: "heap_ok w" and A: "assets w s = Some (Some p, c, r)" "assets w' = (assets w)(s := None)"
    and w': "next_storage w' = next_storage w" "mem w' = (mem w)\<lparr>blocks := (blocks (mem w))(p := None)\<rparr>"
      "held w' = held w" "adopted w' = adopted w"
      "released w' = released w @ (case r of Some (Release_custom k) \<Rightarrow> [(k, p)] | _ \<Rightarrow> [])"
  shows "heap_ok w'"
proof (rule heap_okI, unfold A(2))
  note ok' = heap_ok_rules [OF ok]
  obtain bs where p: "p \<notin> held w" "blocks (mem w) p = Some bs" "p < next_block (mem w)" using ok'(2) [OF A(1)] ok'(5) [of p] by auto
  have nr: "(k, p) \<notin> set (released w)" for k using ok'(7) [of k p] p(2) by auto
  show "distinct (map snd (released w'))" using ok'(6) nr by (auto simp: w' split: option.splits releaser.splits)
  show "blocks (mem w') q = None" if "(k, q) \<in> set (released w')" for k q
    using that ok'(7) [of k q] by (auto simp: w' split: option.splits releaser.splits if_splits)
  show "q < next_block (mem w')" if "(k, q) \<in> set (released w')" for k q
    using that ok'(8) [of k q] p(3) by (auto simp: w' split: option.splits releaser.splits if_splits)
  show "(k, q) \<in> set (adopted w') \<longleftrightarrow> (k, q) \<in> set (released w') \<or>
      (\<exists>s' c. ((assets w)(s := None)) s' = Some (Some q, c, Some (Release_custom k)))" for k q
    using ok'(9) [of k q] unfolding ex_at_or_elsewhere [where f = "assets w" and a = s]
    by (auto simp: w' A(1) split: option.splits releaser.splits)
  show "blocks (mem w') q \<noteq> None \<longleftrightarrow> q \<in> held w' \<or> (\<exists>s' c r. ((assets w)(s := None)) s' = Some (Some q, c, r))" for q
    using ok'(4) [of q] p(1) unfolding asset_elsewhere [OF ok A(1)] by (auto simp: w')
  show "q < next_block (mem w')" if "blocks (mem w') q \<noteq> None" for q
    using that ok'(5) [of q] by (auto simp: w' split: if_splits)
  show "\<exists>q bs. b = Some q \<and> q \<notin> held w' \<and> blocks (mem w') q = Some bs \<and> c \<le> length bs"
    if "((assets w)(s := None)) s' = Some (b, c, r)" for s' b c r
    using asset_kept [OF ok A(1) that] by (auto simp: w')
qed (use heap_ok_rules(1,3) [OF ok] in \<open>auto simp: w' split: if_splits\<close>)

text \<open>A storage without a releaser leaves its block to the caller.\<close>

lemma heap_ok_returned:
  assumes ok: "heap_ok w" and A: "assets w s = Some (Some p, c, None)"
  shows "heap_ok (w\<lparr>held := insert p (held w), storages := (storages w)(s := None)\<rparr>)" (is "heap_ok ?w")
proof (rule heap_okI, unfold assets_del [of ?w w s, simplified])
  note ok' = heap_ok_rules [OF ok]
  show "(k, q) \<in> set (adopted ?w) \<longleftrightarrow> (k, q) \<in> set (released ?w) \<or>
      (\<exists>s' c. ((assets w)(s := None)) s' = Some (Some q, c, Some (Release_custom k)))" for k q
    using ok'(9) [of k q] unfolding ex_at_or_elsewhere [where f = "assets w" and a = s] by (auto simp: A)
  show "blocks (mem ?w) q \<noteq> None \<longleftrightarrow> q \<in> held ?w \<or> (\<exists>s' c r. ((assets w)(s := None)) s' = Some (Some q, c, r))" for q
    using ok'(4) [of q] ok'(2) [OF A] unfolding asset_elsewhere [OF ok A] by auto
  show "\<exists>q bs. b = Some q \<and> q \<notin> held ?w \<and> blocks (mem ?w) q = Some bs \<and> c \<le> length bs"
    if "((assets w)(s := None)) s' = Some (b, c, r)" for s' b c r
    using asset_kept [OF ok A that] by auto
qed (use heap_ok_rules(1,3,5,6,7,8) [OF ok] in \<open>auto split: if_splits\<close>)

lemma storage_dtor_Ok:
  assumes ok: "heap_ok w" and st: "storages w s = Some st"
  obtains w' where "storage_dtor s st w = Ok () w'" "heap_ok w'" "views w' = views w"
    "storages w' = (storages w)(s := None)"
    "\<And>p. st_bytes st \<noteq> Some p \<Longrightarrow> blocks (mem w') p = blocks (mem w) p"
proof (rule heap_okD [OF ok st])
  fix p bs assume p: "st_bytes st = Some p" "blocks (mem w) p = Some bs"
  have A: "assets w s = Some (Some p, st_capacity st, st_release st)" using st p(1) by (simp add: assets_def)
  show ?thesis
  proof (cases "st_release st")
    case None
    let ?w = "w\<lparr>held := insert p (held w), storages := (storages w)(s := None)\<rparr>"
    have "storage_dtor s st w = Ok () ?w" by (simp add: storage_dtor_def None p(1))
    moreover have "heap_ok ?w" using heap_ok_returned [OF ok] A None by simp
    ultimately show ?thesis using that by force
  next
    case (Some r)
    let ?w = "w\<lparr>mem := (mem w)\<lparr>blocks := (blocks (mem w))(p := None)\<rparr>,
      released := released w @ (case st_release st of Some (Release_custom k) \<Rightarrow> [(k, p)] | _ \<Rightarrow> []),
      storages := (storages w)(s := None)\<rparr>"
    have "storage_dtor s st w = Ok () ?w"
      using p(2) by (cases w) (simp add: storage_dtor_def Some p(1) run_release_def lift_mem_def delete_array_def split: releaser.split)
    moreover have "heap_ok ?w" by (rule heap_ok_released [OF ok A assets_del]) simp_all
    ultimately show ?thesis using p(1) by (intro that [of ?w]) auto
  qed
qed

section \<open>Operations on views\<close>

text \<open>Counting does not read the views, so it commutes with writing them.\<close>

lemma release_ref_views:
  "release_ref s (w\<lparr>views := V\<rparr>) =
     (case release_ref s w of Ok u w' \<Rightarrow> Ok u (w'\<lparr>views := V\<rparr>) | Throw e w' \<Rightarrow> Throw e (w'\<lparr>views := V\<rparr>))"
  by (cases w)
    (simp add: release_ref_def storage_dtor_def run_release_def lift_mem_def delete_array_def Let_def
      split: option.split releaser.split)

lemma put_view_eq: "put_view a v w = w\<lparr>views := (views w)(a \<mapsto> v)\<rparr>"
  by (simp add: put_view_def)

text \<open>The assets and bytes of every storage that survives are as before.\<close>

definition kept :: "shared_world \<Rightarrow> shared_world \<Rightarrow> bool" where
  "kept w w' \<longleftrightarrow> (\<forall>s b c r. assets w' s = Some (b, c, r) \<longrightarrow>
     assets w s = Some (b, c, r) \<and> blocks (mem w') (the b) = blocks (mem w) (the b))"

lemma ssb_inv_views:
  assumes "ssb_inv w" "kept w w'" "rc_ok (ssb_handle w') (ssb_count w')" "heap_ok w'"
    and "\<And>a v. views w' a = Some v \<Longrightarrow> view_ok (assets w) v"
  shows "ssb_inv w'"
  unfolding ssb_inv_def
proof (intro conjI allI impI assms(3,4))
  fix a v assume v: "views w' a = Some v"
  show "view_ok (assets w') v"
  proof (cases "m_storage v")
    case None
    then show ?thesis using assms(5) [OF v] by (simp add: view_ok_def)
  next
    case (Some s)
    then obtain n where "ssb_count w' s = Some n"
      using rc_live [OF assms(3), of a s] v by (auto simp: ssb_handle_def)
    then obtain b c r where b: "assets w' s = Some (b, c, r)" by (auto simp: ssb_count_def assets_def)
    then have "assets w s = Some (b, c, r)" using assms(2) by (auto simp: kept_def)
    then show ?thesis using assms(5) [OF v] b Some by (simp add: view_ok_def)
  qed
qed

lemma dom_assets: "assets w s = None \<longleftrightarrow> storages w s = None" "ssb_count w s = None \<longleftrightarrow> storages w s = None"
  by (auto simp: assets_def ssb_count_def)

text \<open>Releasing the reference of the view at \<open>a\<close>, which is then replaced by \<open>x\<close>, a null view or none.\<close>

lemma release_Ok:
  assumes inv: "ssb_inv w" and a: "views w a = Some d" and x: "x = None \<or> x = Some ssb_null"
  obtains w' where "release_ref (m_storage d) w = Ok () w'" "views w' = views w" "kept w w'"
    "ssb_inv (w'\<lparr>views := (views w)(a := x)\<rparr>)"
proof (cases "m_storage d")
  case None
  have h: "ssb_handle (w\<lparr>views := (views w)(a := x)\<rparr>) = (ssb_handle w)(a := map_option m_storage x)"
    by (auto simp: ssb_handle_def)
  have "rc_ok ((ssb_handle w)(a := map_option m_storage x)) (ssb_count w)"
    by (rule rc_null [OF ssb_invD(1) [OF inv]]) (use a None x in \<open>auto simp: ssb_handle_def\<close>)
  then have "ssb_inv (w\<lparr>views := (views w)(a := x)\<rparr>)"
    using inv x unfolding ssb_inv_def h by (auto split: if_splits)
  then show ?thesis using that [of w] None by (simp add: release_ref_def kept_def)
next
  case (Some s)
  obtain st where st: "storages w s = Some st" "1 \<le> st_refs st" by (rule view_storage [OF inv a Some])
  let ?st = "st\<lparr>st_refs := st_refs st - 1\<rparr>" and ?w = "w\<lparr>storages := (storages w)(s \<mapsto> st\<lparr>st_refs := st_refs st - 1\<rparr>)\<rparr>"
  have hk: "heap_ok ?w" using ssb_invD(2) [OF inv] st by simp
  have h: "ssb_handle (w'\<lparr>views := (views w)(a := x)\<rparr>) = (ssb_handle w)(a := map_option m_storage x)" for w'
    by (auto simp: ssb_handle_def)
  have rc: "rc_ok ((ssb_handle w)(a := map_option m_storage x))
      (if st_refs st = 1 then (ssb_count w)(s := None) else (ssb_count w)(s \<mapsto> st_refs st - 1))"
    by (rule rc_release [OF ssb_invD(1) [OF inv]]) (use a Some st x in \<open>auto simp: ssb_handle_def ssb_count_def\<close>)
  have fin: "ssb_inv (w'\<lparr>views := (views w)(a := x)\<rparr>)" if "heap_ok w'" "kept w w'"
    "ssb_count w' = (if st_refs st = 1 then (ssb_count w)(s := None) else (ssb_count w)(s \<mapsto> st_refs st - 1))" for w'
  proof (rule ssb_inv_views [OF inv])
    show "rc_ok (ssb_handle (w'\<lparr>views := (views w)(a := x)\<rparr>)) (ssb_count (w'\<lparr>views := (views w)(a := x)\<rparr>))"
      unfolding h using rc that(3) by simp
    show "view_ok (assets w) v" if "views (w'\<lparr>views := (views w)(a := x)\<rparr>) b = Some v" for b v
      using that x ssb_invD(3) [OF inv, of b v] by (auto split: if_splits)
  qed (use that in \<open>simp_all add: kept_def\<close>)
  show ?thesis
  proof (cases "st_refs st = 1")
    case False
    have "ssb_inv (?w\<lparr>views := (views w)(a := x)\<rparr>)"
      by (rule fin [OF hk]) (use st False in \<open>simp_all add: kept_def\<close>)
    then show ?thesis using False st Some by (intro that [of ?w]) (simp_all add: release_ref_def kept_def)
  next
    case True
    obtain w' where w': "storage_dtor s ?st ?w = Ok () w'" "heap_ok w'" "views w' = views ?w"
      "storages w' = (storages ?w)(s := None)" "\<And>p. st_bytes ?st \<noteq> Some p \<Longrightarrow> blocks (mem w') p = blocks (mem ?w) p"
      by (rule storage_dtor_Ok [OF hk, of s ?st]) (simp, blast)
    have A: "assets w' = (assets w)(s := None)" "ssb_count w' = (ssb_count w)(s := None)"
      by (auto simp: assets_def ssb_count_def w'(4) fun_eq_iff)
    have "kept w w'"
      unfolding kept_def A
    proof (intro allI impI conjI)
      fix s' b c r assume s': "((assets w)(s := None)) s' = Some (b, c, r)"
      then show "assets w s' = Some (b, c, r)" by (auto split: if_splits)
      obtain p where p: "b = Some p" using heap_ok_rules(2) [OF ssb_invD(2) [OF inv], of s' b c r] s' by (auto split: if_splits)
      have "st_bytes st \<noteq> Some p"
        using s' p st heap_ok_rules(3) [OF ssb_invD(2) [OF inv], of s p "st_capacity st" "st_release st" s' c r]
        by (auto simp: assets_def split: if_splits)
      then show "blocks (mem w') (the b) = blocks (mem w) (the b)" using w'(5) [of p] p by simp
    qed
    then show ?thesis using w' fin [of w'] A True st Some
      by (intro that [of w']) (simp_all add: release_ref_def Let_def)
  qed
qed


lemma ssb_eta [simp]: "\<lparr>m_storage = m_storage v, m_offset = m_offset v, m_ssize = m_ssize v\<rparr> = (v :: shared_sized_buffer)"
  by (cases v) simp

lemma ssb_handle_views: "ssb_handle (w\<lparr>views := V\<rparr>) a = map_option m_storage (V a)"
  by (simp add: ssb_handle_def)

lemma ssb_inv_fresh_addr:
  assumes "ssb_inv w"
  obtains f where "views w f = None"
proof -
  have "dom (ssb_handle w) = dom (views w)" by (auto simp: ssb_handle_def)
  then have "finite (dom (views w))" using ssb_invD(1) [OF assms] by (simp add: rc_ok_def)
  then obtain f where "f \<notin> dom (views w)" using ex_new_if_finite [OF infinite_UNIV_nat] by blast
  then show ?thesis using that by blast
qed

lemma acquire_Ok:
  assumes inv: "ssb_inv w" and src: "views w src = Some v"
    and f: "views w f = None \<or> views w f = Some ssb_null"
  obtains w1 where "acquire (m_storage v) w = Ok (m_storage v) w1" "views w1 = views w" "mem w1 = mem w" "assets w1 = assets w"
    "\<And>u. m_storage u = m_storage v \<Longrightarrow> view_ok (assets w) u \<Longrightarrow> ssb_inv (put_view f u w1)"
proof (cases "m_storage v")
  case None
  have "ssb_inv (put_view f u w)" if "m_storage u = m_storage v" "view_ok (assets w) u" for u
  proof -
    have "rc_ok ((ssb_handle w)(f \<mapsto> m_storage u)) (ssb_count w)"
      by (rule rc_null [OF ssb_invD(1) [OF inv]]) (use f that None in \<open>auto simp: ssb_handle_def\<close>)
    then show ?thesis using inv that by (auto simp: ssb_inv_def)
  qed
  then show ?thesis using None by (intro that [of w]) (simp_all add: acquire_def)
next
  case (Some s)
  obtain st where st: "storages w s = Some st" by (rule view_storage [OF inv src Some])
  let ?w = "w\<lparr>storages := (storages w)(s \<mapsto> st\<lparr>st_refs := st_refs st + 1\<rparr>)\<rparr>"
  have "ssb_inv (put_view f u ?w)" if "m_storage u = m_storage v" "view_ok (assets w) u" for u
  proof -
    have h: "ssb_handle (put_view f u ?w) = (ssb_handle w)(f \<mapsto> Some s)" using that Some by (auto simp: ssb_handle_def put_view_def)
    have "rc_ok ((ssb_handle w)(f \<mapsto> Some s)) ((ssb_count w)(s \<mapsto> st_refs st + 1))"
      by (rule rc_acquire [OF ssb_invD(1) [OF inv]]) (use f st in \<open>auto simp: ssb_handle_def ssb_count_def\<close>)
    then show ?thesis using inv that st unfolding ssb_inv_def h by (auto split: if_splits)
  qed
  then show ?thesis using Some st by (intro that [of ?w]) (simp_all add: acquire_def)
qed

lemma move_Ok:
  assumes inv: "ssb_inv w" and src: "views w src = Some v" and dst: "views w dst = None \<or> views w dst = Some ssb_null"
    and ne: "dst \<noteq> src" and x: "x = None \<or> x = Some ssb_null"
  shows "ssb_inv (w\<lparr>views := (views w)(dst \<mapsto> v, src := x)\<rparr>)"
proof -
  let ?w = "w\<lparr>views := (views w)(dst \<mapsto> v, src := x)\<rparr>"
  have h: "ssb_handle ?w = (ssb_handle w)(dst \<mapsto> m_storage v, src := map_option m_storage x)"
    by (auto simp: ssb_handle_def)
  have x': "map_option m_storage x = None \<or> map_option m_storage x = Some None" using x by auto
  have "rc_ok (ssb_handle ?w) (ssb_count w)"
  proof (cases "m_storage v")
    case None
    have "rc_ok ((ssb_handle w)(dst \<mapsto> None)) (ssb_count w)"
      by (rule rc_null [OF ssb_invD(1) [OF inv]]) (use dst in \<open>auto simp: ssb_handle_def\<close>)
    then have "rc_ok ((ssb_handle w)(dst \<mapsto> None, src := map_option m_storage x)) (ssb_count w)"
      by (rule rc_null) (use src None ne x' in \<open>auto simp: ssb_handle_def\<close>)
    then show ?thesis unfolding h None .
  next
    case (Some s)
    show ?thesis unfolding h Some
      by (rule rc_move [OF ssb_invD(1) [OF inv] _ _ x']) (use src dst Some in \<open>auto simp: ssb_handle_def\<close>)
  qed
  then show ?thesis using inv src x by (auto simp: ssb_inv_def split: if_splits)
qed

section \<open>Operations\<close>

lemma ssb_default_Ok:
  assumes "ssb_inv w" "views w a = None"
  shows "ssb_inv (ssb_default a w)"
proof -
  have "rc_ok ((ssb_handle w)(a \<mapsto> None)) (ssb_count w)"
    by (rule rc_null [OF ssb_invD(1) [OF assms(1)]]) (use assms(2) in \<open>auto simp: ssb_handle_def\<close>)
  then show ?thesis using assms(1) by (auto simp: ssb_inv_def ssb_default_def)
qed

lemma ssb_dtor_Ok:
  assumes "ssb_inv w" "views w a = Some v"
  obtains w' where "ssb_dtor a w = Ok () w'" "ssb_inv w'" "views w' = (views w)(a := None)" "kept w w'"
proof (rule release_Ok [OF assms, of None])
  fix w' assume w': "release_ref (m_storage v) w = Ok () w'" "views w' = views w" "kept w w'" "ssb_inv (w'\<lparr>views := (views w)(a := None)\<rparr>)"
  then show ?thesis using assms(2)
    by (intro that [of "w'\<lparr>views := (views w)(a := None)\<rparr>"]) (simp_all add: ssb_dtor_def release_ref_views kept_def)
qed simp

lemma ssb_clear_Ok:
  assumes "ssb_inv w" "views w a = Some v"
  obtains w' where "ssb_clear a w = Ok () w'" "ssb_inv w'" "views w' = (views w)(a \<mapsto> ssb_null)" "kept w w'"
proof (rule release_Ok [OF assms, of "Some ssb_null"])
  fix w' assume w': "release_ref (m_storage v) w = Ok () w'" "views w' = views w" "kept w w'" "ssb_inv (w'\<lparr>views := (views w)(a \<mapsto> ssb_null)\<rparr>)"
  then show ?thesis using assms(2)
    by (intro that [of "w'\<lparr>views := (views w)(a \<mapsto> ssb_null)\<rparr>"]) (simp_all add: ssb_clear_def put_view_eq release_ref_views kept_def)
qed simp

lemma ssb_copy_ctor_Ok:
  assumes inv: "ssb_inv w" and dst: "views w dst = None" and src: "views w src = Some v"
  obtains w' where "ssb_copy_ctor dst src w = Ok () w'" "ssb_inv w'" "views w' = (views w)(dst \<mapsto> v)" "kept w w'"
proof (rule acquire_Ok [OF inv src, of dst])
  fix w1 assume w1: "acquire (m_storage v) w = Ok (m_storage v) w1" "views w1 = views w" "mem w1 = mem w" "assets w1 = assets w"
    "\<And>u. m_storage u = m_storage v \<Longrightarrow> view_ok (assets w) u \<Longrightarrow> ssb_inv (put_view dst u w1)"
  have "ssb_inv (put_view dst v w1)" using w1(5) ssb_invD(3) [OF inv src] by simp
  then show ?thesis using w1 src
    by (intro that [of "put_view dst v w1"]) (simp_all add: ssb_copy_ctor_def kept_def)
qed (simp add: dst)

lemma ssb_move_ctor_Ok:
  assumes "ssb_inv w" "views w dst = None" "views w src = Some v"
  obtains w' where "ssb_move_ctor dst src w = Ok () w'" "ssb_inv w'" "views w' = (views w)(dst \<mapsto> v, src \<mapsto> ssb_null)"
proof -
  have "ssb_inv (w\<lparr>views := (views w)(dst \<mapsto> v, src \<mapsto> ssb_null)\<rparr>)"
    by (rule move_Ok) (use assms in auto)
  then show ?thesis using assms(3) 
    by (intro that [of "w\<lparr>views := (views w)(dst \<mapsto> v, src \<mapsto> ssb_null)\<rparr>"]) (simp_all add: ssb_move_ctor_def put_view_eq)
qed

lemma ssb_move_assign_Ok:
  assumes inv: "ssb_inv w" and dst: "views w dst = Some d" and src: "views w src = Some v"
  obtains w' where "ssb_move_assign dst src w = Ok () w'" "ssb_inv w'"
    "views w' = (if dst = src then views w else (views w)(dst \<mapsto> v, src \<mapsto> ssb_null))" "kept w w'"
proof (cases "dst = src")
  case True
  then show ?thesis using that [of w] inv dst by (simp add: ssb_move_assign_def kept_def)
next
  case False
  show ?thesis
  proof (rule release_Ok [OF inv dst, of "Some ssb_null"])
    fix w' assume w': "release_ref (m_storage d) w = Ok () w'" "views w' = views w" "kept w w'"
      "ssb_inv (w'\<lparr>views := (views w)(dst \<mapsto> ssb_null)\<rparr>)"
    let ?w = "w'\<lparr>views := (views w)(dst \<mapsto> v, src \<mapsto> ssb_null)\<rparr>"
    have "ssb_inv ?w"
      using move_Ok [OF w'(4), of src v dst "Some ssb_null"] src False by simp
    then show ?thesis using w' False dst src
      by (intro that [of ?w]) (simp_all add: ssb_move_assign_def put_view_eq release_ref_views kept_def)
  qed simp
qed

text \<open>A copy assignment is a copy to a fresh place, a release of the target and a move of the copy.\<close>

lemma ssb_copy_assign_Ok:
  assumes inv: "ssb_inv w" and dst: "views w dst = Some d" and src: "views w src = Some v"
  obtains w' where "ssb_copy_assign dst src w = Ok () w'" "ssb_inv w'" "views w' = (views w)(dst \<mapsto> v)" "kept w w'"
proof (cases "dst = src")
  case True
  then show ?thesis using that [of w] inv dst src by (simp add: ssb_copy_assign_def kept_def fun_upd_idem)
next
  case False
  obtain f where f: "views w f = None" using ssb_inv_fresh_addr [OF inv] by blast
  then have ne: "f \<noteq> dst" using dst by auto
  show ?thesis
  proof (rule acquire_Ok [OF inv src, of f])
    fix w1 assume w1: "acquire (m_storage v) w = Ok (m_storage v) w1" "views w1 = views w" "mem w1 = mem w" "assets w1 = assets w"
      "\<And>u. m_storage u = m_storage v \<Longrightarrow> view_ok (assets w) u \<Longrightarrow> ssb_inv (put_view f u w1)"
    have i1: "ssb_inv (put_view f v w1)" using w1(5) ssb_invD(3) [OF inv src] by simp
    have d1: "views (put_view f v w1) dst = Some d" using w1(2) dst ne by simp
    show ?thesis
    proof (rule release_Ok [OF i1 d1, of "Some ssb_null"])
      fix w2 assume w2: "release_ref (m_storage d) (put_view f v w1) = Ok () w2" "views w2 = views (put_view f v w1)"
        "kept (put_view f v w1) w2" "ssb_inv (w2\<lparr>views := (views (put_view f v w1))(dst \<mapsto> ssb_null)\<rparr>)"
      let ?w = "w2\<lparr>views := (views w)(dst \<mapsto> v)\<rparr>"
      have "ssb_inv (w2\<lparr>views := (views w)(f \<mapsto> v, dst \<mapsto> v, f := None)\<rparr>)"
        using move_Ok [OF w2(4), of f v dst None] w1(2) ne by simp
      moreover have "(views w)(f \<mapsto> v, dst \<mapsto> v, f := None) = (views w)(dst \<mapsto> v)" using f ne by auto
      ultimately have "ssb_inv ?w" by simp
      moreover have "release_ref (m_storage d) (put_view dst v w1) = Ok () ?w"
      proof -
        obtain w3 where w3: "release_ref (m_storage d) w1 = Ok () w3" "w2 = w3\<lparr>views := (views w1)(f \<mapsto> v)\<rparr>"
          using w2(1) unfolding put_view_eq release_ref_views by (auto split: result.splits)
        then show ?thesis using w1(2) unfolding put_view_eq release_ref_views by simp
      qed
      moreover have "kept w ?w" using w2(3) w1(3,4) by (simp add: kept_def)
      ultimately show ?thesis using w1 dst src False
        by (intro that [of ?w]) (simp_all add: ssb_copy_assign_def)
    qed simp
  qed (simp add: f)
qed

section \<open>New storages\<close>

definition view_bytes :: "shared_world \<Rightarrow> shared_sized_buffer \<Rightarrow> byte option list" where
  "view_bytes w v =
     (case m_storage v of
        None \<Rightarrow> []
      | Some s \<Rightarrow> take (m_ssize v) (drop (m_offset v) (the (blocks (mem w) (the (st_bytes (the (storages w s))))))))"

definition ssb_bytes :: "addr \<Rightarrow> shared_world \<Rightarrow> byte option list" where
  "ssb_bytes a w = view_bytes w (the (views w a))"

lemma kept_trans: "kept w1 w2 \<Longrightarrow> kept w2 w3 \<Longrightarrow> kept w1 w3"
  unfolding kept_def by metis

lemma kept_bytes:
  assumes "ssb_inv w'" "kept w w'" "views w' b = Some u"
  shows "view_bytes w' u = view_bytes w u"
proof (cases "m_storage u")
  case (Some s)
  obtain st where st: "storages w' s = Some st" by (rule view_storage [OF assms(1,3) Some])
  then have "assets w' s = Some (st_bytes st, st_capacity st, st_release st)" by (simp add: assets_def)
  then have "assets w s = Some (st_bytes st, st_capacity st, st_release st)" "blocks (mem w') (the (st_bytes st)) = blocks (mem w) (the (st_bytes st))"
    using assms(2) unfolding kept_def by blast+
  then show ?thesis using Some st by (auto simp: view_bytes_def assets_def)
qed (simp add: view_bytes_def)

lemma ex_map_upd_fresh:
  assumes "f a = None" "\<not> P None"
  shows "(\<exists>s. P ((f(a \<mapsto> x)) s)) \<longleftrightarrow> P (Some x) \<or> (\<exists>s. P (f s))"
proof
  assume "\<exists>s. P ((f(a \<mapsto> x)) s)"
  then show "P (Some x) \<or> (\<exists>s. P (f s))" by (auto split: if_splits)
next
  assume "P (Some x) \<or> (\<exists>s. P (f s))"
  then show "\<exists>s. P ((f(a \<mapsto> x)) s)"
  proof
    assume "\<exists>s. P (f s)"
    then obtain s where "P (f s)" ..
    then have "P ((f(a \<mapsto> x)) s)" using assms by auto
    then show ?thesis ..
  qed (use fun_upd_same in metis)
qed

lemma heap_add:
  assumes ok: "heap_ok w" and A: "assets w' = (assets w)(next_storage w \<mapsto> (Some p, c, r))"
    and n: "next_storage w' = Suc (next_storage w)" and h: "held w' = held w - {p}" and rel: "released w' = released w"
    and b: "blocks (mem w') = (blocks (mem w))(p \<mapsto> bs)" "c \<le> length bs"
    and p: "p = next_block (mem w) \<and> next_block (mem w') = Suc p \<or> p \<in> held w \<and> next_block (mem w') = next_block (mem w)"
    and ad: "\<And>k q. (k, q) \<in> set (adopted w') \<longleftrightarrow> (k, q) \<in> set (adopted w) \<or> q = p \<and> r = Some (Release_custom k)"
  shows "heap_ok w'"
proof -
  note ok' = heap_ok_rules [OF ok]
  have fresh: "assets w (next_storage w) = None"
    using ok'(1) [of "next_storage w"] by (cases "assets w (next_storage w)") auto
  have np: "assets w s \<noteq> Some (Some p, c', r')" for s c' r'
    using p ok'(2) [of s "Some p" c' r'] ok'(5) [of p] by auto
  have old: "blocks (mem w) q \<noteq> None \<Longrightarrow> q < next_block (mem w')" for q using ok'(5) [of q] p by auto
  have newlt: "p < next_block (mem w')" using p ok'(5) [of p] ok'(4) [of p] by auto
  have nr: "(k, p) \<notin> set (released w)" for k
    using p ok'(7,8) [of k p] ok'(4) [of p] by auto
  show ?thesis
  proof (rule heap_okI, unfold A n h rel)
    show "s < Suc (next_storage w)" if "((assets w)(next_storage w \<mapsto> (Some p, c, r))) s = Some (b', c', r')" for s b' c' r'
      using that ok'(1) [of s b' c' r'] by (auto split: if_splits)
    show "\<exists>q bs'. b' = Some q \<and> q \<notin> held w - {p} \<and> blocks (mem w') q = Some bs' \<and> c' \<le> length bs'"
      if "((assets w)(next_storage w \<mapsto> (Some p, c, r))) s = Some (b', c', r')" for s b' c' r'
    proof (cases "s = next_storage w")
      case False
      then have s: "assets w s = Some (b', c', r')" using that by simp
      then obtain q bs' where q: "b' = Some q" "q \<notin> held w" "blocks (mem w) q = Some bs'" "c' \<le> length bs'" using ok'(2) by blast
      then have "q \<noteq> p" using np s by auto
      then show ?thesis using q b by auto
    qed (use that b in auto)
    show "s = s'" if "((assets w)(next_storage w \<mapsto> (Some p, c, r))) s = Some (Some q, c1, r1)"
      "((assets w)(next_storage w \<mapsto> (Some p, c, r))) s' = Some (Some q, c2, r2)" for s s' q c1 c2 r1 r2
      using that np ok'(3) [of s q c1 r1 s' c2 r2] by (auto split: if_splits)
    show "blocks (mem w') q \<noteq> None \<longleftrightarrow> q \<in> held w - {p} \<or>
        (\<exists>s c' r'. ((assets w)(next_storage w \<mapsto> (Some p, c, r))) s = Some (Some q, c', r'))" for q
      using b(1) ok'(4) [of q]
      ex_map_upd_fresh [where P = "\<lambda>x. \<exists>c' r'. x = Some (Some q, c', r')" and x = "(Some p, c, r)" and f = "assets w" and a = "next_storage w", OF fresh]
      by (cases "q = p") (auto simp del: fun_upd_apply, auto)
    show "q < next_block (mem w')" if "blocks (mem w') q \<noteq> None" for q
      using that b(1) newlt old [of q] by (cases "q = p") auto
    show "blocks (mem w') q = None" if "(k, q) \<in> set (released w)" for k q
      using that nr [of k] ok'(7) [of k q] b(1) by (cases "q = p") auto
    show "q < next_block (mem w')" if "(k, q) \<in> set (released w)" for k q
      using that ok'(8) [of k q] p by auto
    show "(k, q) \<in> set (adopted w') \<longleftrightarrow> (k, q) \<in> set (released w) \<or>
        (\<exists>s c'. ((assets w)(next_storage w \<mapsto> (Some p, c, r))) s = Some (Some q, c', Some (Release_custom k)))" for k q
      using ok'(9) [of k q] ad [of k q]
      ex_map_upd_fresh [where P = "\<lambda>x. \<exists>c'. x = Some (Some q, c', Some (Release_custom k))" and x = "(Some p, c, r)" and f = "assets w" and a = "next_storage w", OF fresh]
      by (auto simp del: fun_upd_apply)
  qed (use ok'(6) in simp)
qed


text \<open>A storage with its first view.\<close>

lemma fresh_storage_Ok:
  assumes inv: "ssb_inv w" and out: "views w out = None \<or> views w out = Some ssb_null"
    and hk: "heap_ok w'" and A: "assets w' = (assets w)(next_storage w \<mapsto> (Some p, c, r))"
    and cnt: "ssb_count w' = (ssb_count w)(next_storage w \<mapsto> 1)"
    and V: "views w' = (views w)(out \<mapsto> \<lparr>m_storage = Some (next_storage w), m_offset = 0, m_ssize = n\<rparr>)" and n: "n \<le> c"
  shows "ssb_inv w'"
proof -
  let ?s = "next_storage w"
  have fresh: "assets w ?s = None"
    using heap_ok_rules(1) [OF ssb_invD(2) [OF inv], of ?s] by (cases "assets w ?s") auto
  have h: "ssb_handle w' = (ssb_handle w)(out \<mapsto> Some ?s)" by (auto simp: ssb_handle_def V)
  have "rc_ok (ssb_handle w') (ssb_count w')"
    unfolding h cnt
    by (rule rc_fresh [OF ssb_invD(1) [OF inv]]) (use out fresh in \<open>auto simp: ssb_handle_def dom_assets\<close>)
  moreover have "view_ok (assets w') v" if "views w' a = Some v" for a v
  proof (cases "a = out")
    case True
    then show ?thesis using that n by (auto simp: V A view_ok_def)
  next
    case False
    then have "view_ok (assets w) v" using that ssb_invD(3) [OF inv, of a v] by (simp add: V)
    then show ?thesis using fresh by (auto simp: A view_ok_def split: option.splits)
  qed
  ultimately show ?thesis using hk by (simp add: ssb_inv_def)
qed

definition with_storage :: "nat \<Rightarrow> storage \<Rightarrow> shared_world \<Rightarrow> shared_world" where
  "with_storage s st w = w\<lparr>storages := (storages w)(s \<mapsto> st), next_storage := Suc s\<rparr>"

lemma with_storage_sel [simp]:
  "assets (with_storage s st w) = (assets w)(s \<mapsto> (st_bytes st, st_capacity st, st_release st))"
  "ssb_count (with_storage s st w) = (ssb_count w)(s \<mapsto> st_refs st)"
  "storages (with_storage s st w) = (storages w)(s \<mapsto> st)" "next_storage (with_storage s st w) = Suc s"
  "views (with_storage s st w) = views w" "mem (with_storage s st w) = mem w" "held (with_storage s st w) = held w"
  "released (with_storage s st w) = released w" "adopted (with_storage s st w) = adopted w"
  by (auto simp: with_storage_def assets_def ssb_count_def fun_eq_iff)

definition allocated :: "addr \<Rightarrow> size_t \<Rightarrow> shared_world \<Rightarrow> shared_world" where
  "allocated out c w = put_view out \<lparr>m_storage = Some (next_storage w), m_offset = 0, m_ssize = 0\<rparr>
     (with_storage (next_storage w)
       \<lparr>st_bytes = Some (next_block (mem w)), st_capacity = c, st_release = Some Release_delete, st_refs = 1\<rparr>
       (w\<lparr>mem := (mem w)\<lparr>blocks := (blocks (mem w))(next_block (mem w) \<mapsto> replicate c None), next_block := Suc (next_block (mem w))\<rparr>\<rparr>))"

lemma assets_mem [simp]: "assets (w\<lparr>mem := M\<rparr>) = assets w" "ssb_count (w\<lparr>mem := M\<rparr>) = ssb_count w"
  by (auto simp: assets_def ssb_count_def fun_eq_iff)

lemma allocated_Ok:
  assumes inv: "ssb_inv w" and out: "views w out = None"
  shows "ssb_inv (allocated out c w)"
proof (rule fresh_storage_Ok [OF inv, where out = out and p = "next_block (mem w)" and c = c and r = "Some Release_delete" and n = 0])
  have "next_block (mem w) \<notin> held w"
    using heap_ok_rules(4,5) [OF ssb_invD(2) [OF inv], of "next_block (mem w)"] by auto
  then show "heap_ok (allocated out c w)"
    by (intro heap_add [OF ssb_invD(2) [OF inv], where p = "next_block (mem w)" and c = c and r = "Some Release_delete" and bs = "replicate c None"])
      (simp_all add: allocated_def)
qed (use out in \<open>simp_all add: allocated_def\<close>)

lemma ssb_allocate_Ok:
  assumes inv: "ssb_inv w" and out: "views w out = None"
  shows "ssb_allocate st_ok b_ok out c w =
    (if c = 0 then Ok () (ssb_default out w)
     else if st_ok \<and> b_ok then Ok () (allocated out c w)
     else Throw Bad_alloc (if st_ok then w\<lparr>next_storage := Suc (next_storage w)\<rparr> else w))"
proof -
  have V: "(views w)(out := None) = views w" using out by auto
  have fresh: "storages w (next_storage w) = None"
    using heap_ok_rules(1) [OF ssb_invD(2) [OF inv], of "next_storage w"]
    by (cases "storages w (next_storage w)") (auto simp: assets_def)
  then have S: "(storages w)(next_storage w := None) = storages w" by auto
  note defs = ssb_allocate_def ssb_default_def put_view_def unwind_def lift_mem_def new_array_def ssb_dtor_def
    release_ref_def storage_new_def storage_dtor_def Let_def ssb_null_def
  consider "c = 0" | (early) "c \<noteq> 0" "\<not> st_ok" | (both) "c \<noteq> 0" "st_ok" "b_ok" | (late) "c \<noteq> 0" "st_ok" "\<not> b_ok" by blast
  then show ?thesis
  proof cases
    case early
    then show ?thesis using V by (cases w) (simp add: defs)
  next
    case both
    then show ?thesis using V by (cases w) (simp add: defs allocated_def with_storage_def)
  next
    case late
    then show ?thesis using V S by (cases w) (simp add: defs)
  qed (simp add: defs)
qed

lemma ssb_subview_Ok:
  assumes inv: "ssb_inv w" and out: "views w out = None" and a: "views w a = Some v"
  obtains w' u where "ssb_subview out a off n w = Ok () w'" "ssb_inv w'" "views w' = (views w)(out \<mapsto> u)" "mem w' = mem w" "assets w' = assets w"
    "u = (if m_storage v = None \<or> off + n > m_ssize v then ssb_null
          else \<lparr>m_storage = m_storage v, m_offset = m_offset v + off, m_ssize = n\<rparr>)"
proof (cases "m_storage v = None \<or> off + n > m_ssize v")
  case True
  have ne: "out \<noteq> a" using out a by auto
  have g: "m_storage v = None \<or> off > m_ssize v \<or> n > m_ssize v - off" using True by auto
  show ?thesis
    by (rule that [of "ssb_default out w" ssb_null])
      (use True g a ne ssb_default_Ok [OF inv out] in \<open>simp_all add: ssb_subview_def Let_def ssb_default_def\<close>)
next
  case False
  let ?u = "\<lparr>m_storage = m_storage v, m_offset = m_offset v + off, m_ssize = n\<rparr>"
  have ne: "out \<noteq> a" using out a by auto
  have i0: "ssb_inv (ssb_default out w)" using ssb_default_Ok [OF inv out] .
  have a0: "views (ssb_default out w) a = Some v" using a ne by (simp add: ssb_default_def)
  have "view_ok (assets w) ?u" using ssb_invD(3) [OF inv a] False by (auto simp: view_ok_def split: option.splits)
  moreover have g: "\<not> (m_storage v = None \<or> off > m_ssize v \<or> n > m_ssize v - off)" using False by auto
  show ?thesis
  proof (rule acquire_Ok [OF i0 a0, of out])
    fix w1 assume w1: "acquire (m_storage v) (ssb_default out w) = Ok (m_storage v) w1" "views w1 = views (ssb_default out w)"
      "mem w1 = mem (ssb_default out w)" "assets w1 = assets (ssb_default out w)"
      "\<And>u. m_storage u = m_storage v \<Longrightarrow> view_ok (assets (ssb_default out w)) u \<Longrightarrow> ssb_inv (put_view out u w1)"
    obtain s where "m_storage v = Some s" using False by auto
    with w1 show ?thesis using False g a0 calculation
      by (intro that [of "put_view out ?u w1" ?u]) (simp_all add: ssb_subview_def Let_def ssb_default_def)
  qed (simp add: ssb_default_def)
qed


section \<open>Growing\<close>

lemma heap_bytes:
  assumes ok: "heap_ok w" and p: "blocks (mem w) p = Some bs" "length bs' = length bs"
  shows "heap_ok (w\<lparr>mem := (mem w)\<lparr>blocks := (blocks (mem w))(p \<mapsto> bs')\<rparr>\<rparr>)"
proof -
  note ok' = heap_ok_rules [OF ok]
  let ?w = "w\<lparr>mem := (mem w)\<lparr>blocks := (blocks (mem w))(p \<mapsto> bs')\<rparr>\<rparr>"
  show ?thesis
  proof (rule heap_okI, unfold assets_mem)
    show "\<exists>q bs. b = Some q \<and> q \<notin> held ?w \<and> blocks (mem ?w) q = Some bs \<and> c \<le> length bs" if "assets w s = Some (b, c, r)" for s b c r
      using ok'(2) [OF that] p by auto
    show "blocks (mem ?w) q \<noteq> None \<longleftrightarrow> q \<in> held ?w \<or> (\<exists>s c r. assets w s = Some (Some q, c, r))" for q
      using ok'(4) [of q] p by auto
    show "q < next_block (mem ?w)" if "blocks (mem ?w) q \<noteq> None" for q
      using ok'(5) [of q] that p by (auto split: if_splits)
    show "blocks (mem ?w) q = None" if "(k, q) \<in> set (released ?w)" for k q
      using ok'(7) [of k q] that p by (auto split: if_splits)
    show "(k, q) \<in> set (adopted ?w) \<longleftrightarrow> (k, q) \<in> set (released ?w) \<or> (\<exists>s c. assets w s = Some (Some q, c, Some (Release_custom k)))" for k q
      using ok'(9) [of k q] by simp
  qed (use ok'(1,3,6,8) in auto)
qed

lemma ssb_handle_mem [simp]: "ssb_handle (w\<lparr>mem := M\<rparr>) = ssb_handle w"
  by (auto simp: ssb_handle_def)

lemma ssb_inv_bytes:
  assumes "ssb_inv w" "blocks (mem w) p = Some bs" "length bs' = length bs"
  shows "ssb_inv (w\<lparr>mem := (mem w)\<lparr>blocks := (blocks (mem w))(p \<mapsto> bs')\<rparr>\<rparr>)"
  using assms(1) heap_bytes [OF ssb_invD(2) [OF assms(1)] assms(2,3)] by (simp add: ssb_inv_def)

lemma ssb_inv_set_view:
  assumes "ssb_inv w" "views w a = Some v" "m_storage u = m_storage v" "view_ok (assets w) u"
  shows "ssb_inv (put_view a u w)"
proof -
  have "(ssb_handle w)(a \<mapsto> m_storage u) = ssb_handle w" using assms(2,3) by (auto simp: ssb_handle_def)
  then show ?thesis using assms by (simp add: ssb_inv_def)
qed

lemma view_block:
  assumes "ssb_inv w" "views w a = Some v" "m_storage v = Some s"
  obtains st p bs where "storages w s = Some st" "st_bytes st = Some p" "blocks (mem w) p = Some bs"
    "m_offset v + m_ssize v \<le> st_capacity st" "st_capacity st \<le> length bs" "s < next_storage w" "p < next_block (mem w)"
proof (rule view_storage [OF assms])
  fix st assume st: "storages w s = Some st" "1 \<le> st_refs st" "m_offset v + m_ssize v \<le> st_capacity st"
  show ?thesis by (rule heap_okD [OF ssb_invD(2) [OF assms(1)] st(1)]) (use st that in blast)
qed

text \<open>The state of \<open>reserve\<close> after the copy: \<open>next\<close> at \<open>t\<close> holds the bytes of the view.\<close>

definition grown :: "addr \<Rightarrow> addr \<Rightarrow> size_t \<Rightarrow> shared_world \<Rightarrow> shared_world" where
  "grown t a c w =
     (let bs = ssb_bytes a w; w1 = allocated t c w
      in put_view t \<lparr>m_storage = Some (next_storage w), m_offset = 0, m_ssize = length bs\<rparr>
           (w1\<lparr>mem := (mem w1)\<lparr>blocks := (blocks (mem w1))(next_block (mem w) \<mapsto> bs @ replicate (c - length bs) None)\<rparr>\<rparr>))"

lemma allocated_sel [simp]:
  "views (allocated t c w) = (views w)(t \<mapsto> \<lparr>m_storage = Some (next_storage w), m_offset = 0, m_ssize = 0\<rparr>)"
  "storages (allocated t c w) = (storages w)(next_storage w \<mapsto>
     \<lparr>st_bytes = Some (next_block (mem w)), st_capacity = c, st_release = Some Release_delete, st_refs = 1\<rparr>)"
  "blocks (mem (allocated t c w)) = (blocks (mem w))(next_block (mem w) \<mapsto> replicate c None)"
  "assets (allocated t c w) = (assets w)(next_storage w \<mapsto> (Some (next_block (mem w)), c, Some Release_delete))"
  by (simp_all add: allocated_def)

lemma length_view_bytes:
  assumes "ssb_inv w" "views w a = Some v"
  shows "length (view_bytes w v) = m_ssize v"
proof (cases "m_storage v")
  case None
  then show ?thesis using ssb_invD(3) [OF assms] by (simp add: view_bytes_def view_ok_def)
next
  case (Some s)
  show ?thesis by (rule view_block [OF assms Some]) (simp add: view_bytes_def Some)
qed

lemma view_bytes_other:
  assumes "ssb_inv w" "views w b = Some u"
    and "\<And>s. s < next_storage w \<Longrightarrow> storages w' s = storages w s" "\<And>p. p < next_block (mem w) \<Longrightarrow> blocks (mem w') p = blocks (mem w) p"
  shows "view_bytes w' u = view_bytes w u"
proof (cases "m_storage u")
  case (Some s)
  show ?thesis by (rule view_block [OF assms(1,2) Some]) (simp add: view_bytes_def Some assms(3,4))
qed (simp add: view_bytes_def)

lemma grown_inv:
  assumes inv: "ssb_inv w" and t: "views w t = None" and n: "length (ssb_bytes a w) \<le> c"
  shows "ssb_inv (grown t a c w)"
proof -
  let ?bs = "ssb_bytes a w" and ?w1 = "allocated t c w"
  let ?w2 = "?w1\<lparr>mem := (mem ?w1)\<lparr>blocks := (blocks (mem ?w1))(next_block (mem w) \<mapsto> ?bs @ replicate (c - length ?bs) None)\<rparr>\<rparr>"
  have i2: "ssb_inv ?w2"
    by (rule ssb_inv_bytes [OF allocated_Ok [OF inv t], where bs = "replicate c None"]) (use n in simp_all)
  show ?thesis unfolding grown_def Let_def
    by (rule ssb_inv_set_view [OF i2, where v = "\<lparr>m_storage = Some (next_storage w), m_offset = 0, m_ssize = 0\<rparr>"]) (use n in \<open>simp_all add: view_ok_def\<close>)
qed

lemma ssb_reserve_grown:
  assumes inv: "ssb_inv w" and a: "views w a = Some v" and t: "views w t = None"
    and off: "m_offset v = 0" and c: "ssb_capacity a w < c"
  shows "ssb_reserve True True t a c w = rbind (ssb_move_assign a t (grown t a c w)) (\<lambda>_. ssb_dtor t)"
proof -
  let ?w1 = "allocated t c w" and ?s = "next_storage w"
  have ne: "a \<noteq> t" using a t by auto
  have al: "ssb_allocate True True t c w = Ok () ?w1" using ssb_allocate_Ok [OF inv t, of True True c] c by simp
  have len: "length (ssb_bytes a w) = m_ssize v" using length_view_bytes [OF inv a] a by (simp add: ssb_bytes_def)
  have cp: "(if \<not> ssb_is_empty a ?w1 then
        rbind (lift_mem (memcpy (ssb_block t ?w1) (ssb_block a ?w1) (ssb_size a ?w1)) ?w1)
          (\<lambda>_ w. Ok () (put_view t ((the (views w t))\<lparr>m_ssize := ssb_size a w\<rparr>) w)) else Ok () ?w1) = Ok () (grown t a c w)"
  proof (cases "m_ssize v = 0 \<or> m_storage v = None")
    case True
    then have "m_ssize v = 0" using ssb_invD(3) [OF inv a] by (auto simp: view_ok_def)
    then have nil: "ssb_bytes a w = []" using len by simp
    have "grown t a c w = ?w1"
      unfolding grown_def nil Let_def by (cases w) (simp add: allocated_def put_view_def with_storage_def)
    then show ?thesis using \<open>m_ssize v = 0\<close> a ne by (simp add: ssb_is_empty_def ssb_size_def)
  next
    case False
    then obtain s where s: "m_storage v = Some s" by auto
    show ?thesis
    proof (rule view_block [OF inv a s])
      fix st p bs assume st: "storages w s = Some st" "st_bytes st = Some p" "blocks (mem w) p = Some bs"
        "m_offset v + m_ssize v \<le> st_capacity st" "st_capacity st \<le> length bs" "s < next_storage w" "p < next_block (mem w)"
      have vb: "ssb_bytes a w = take (m_ssize v) bs" using a s st off by (simp add: ssb_bytes_def view_bytes_def)
      have cn: "m_ssize v \<le> c" using c a s st off by (simp add: ssb_capacity_def ssb_offset_def)
      show ?thesis using False a ne s st off cn
        by (simp add: ssb_is_empty_def ssb_size_def ssb_block_def ssb_data_def lift_mem_def memcpy_def grown_def vb min_absorb2 Let_def)
    qed
  qed
  have off': "ssb_offset a w = 0" using a off by (simp add: ssb_offset_def)
  show ?thesis using c unfolding ssb_reserve_def al by (simp add: cp off')
qed

lemma ssb_reserve_Ok:
  assumes inv: "ssb_inv w" and a: "views w a = Some v" and t: "views w t = None"
    and off: "m_offset v = 0" and c: "ssb_capacity a w < c"
  obtains w' where "ssb_reserve True True t a c w = Ok () w'" "ssb_inv w'"
    "views w' = (views w)(a \<mapsto> \<lparr>m_storage = Some (next_storage w), m_offset = 0, m_ssize = m_ssize v\<rparr>)"
    "ssb_capacity a w' = c" "ssb_bytes a w' = ssb_bytes a w"
    "\<And>b u. b \<noteq> a \<Longrightarrow> views w b = Some u \<Longrightarrow> ssb_bytes b w' = ssb_bytes b w"
proof -
  let ?w = "grown t a c w" and ?s = "next_storage w"
  let ?u = "\<lparr>m_storage = Some ?s, m_offset = 0, m_ssize = m_ssize v\<rparr>"
  have ne: "a \<noteq> t" using a t by auto
  have len: "length (ssb_bytes a w) = m_ssize v" using length_view_bytes [OF inv a] a by (simp add: ssb_bytes_def)
  have cn: "m_ssize v \<le> c" using c a ssb_invD(3) [OF inv a]
    by (auto simp: ssb_capacity_def ssb_offset_def view_ok_def assets_def split: option.splits)
  have i: "ssb_inv ?w" using grown_inv [OF inv t] len cn by simp
  have V: "views ?w = (views w)(t \<mapsto> ?u)" by (simp add: grown_def Let_def len)
  have va: "views ?w a = Some v" "views ?w t = Some ?u" using a ne by (simp_all add: V)
  obtain w3 where w3: "ssb_move_assign a t ?w = Ok () w3" "ssb_inv w3" "views w3 = (views ?w)(a \<mapsto> ?u, t \<mapsto> ssb_null)" "kept ?w w3"
    by (rule ssb_move_assign_Ok [OF i va]) (use ne in auto)
  have "views w3 t = Some ssb_null" using w3(3) by simp
  then obtain w4 where w4: "ssb_dtor t w3 = Ok () w4" "ssb_inv w4" "views w4 = (views w3)(t := None)" "kept w3 w4"
    by (rule ssb_dtor_Ok [OF w3(2)]) blast
  have V4: "views w4 = (views w)(a \<mapsto> ?u)" using w4(3) w3(3) V t ne by auto
  have k: "kept ?w w4" using kept_trans [OF w3(4) w4(4)] .
  have b4: "view_bytes w4 u = view_bytes ?w u" if "views w4 b = Some u" for b u
    using kept_bytes [OF w4(2) k that] .
  have own: "view_bytes ?w ?u = ssb_bytes a w"
    using len cn by (simp add: view_bytes_def grown_def Let_def)
  have other: "view_bytes ?w u = view_bytes w u" if "views w b = Some u" for b u
    by (rule view_bytes_other [OF inv that]) (simp_all add: grown_def Let_def)
  have cap: "ssb_capacity a w4 = c"
  proof -
    have "views w4 a = Some ?u" using V4 by simp
    then obtain st where st: "storages w4 ?s = Some st" by (rule view_storage [OF w4(2)]) auto
    then have "assets ?w ?s = Some (st_bytes st, st_capacity st, st_release st)"
      using k unfolding kept_def assets_def [of w4] by auto
    then have "st_capacity st = c" by (simp add: grown_def Let_def)
    then show ?thesis using st V4 by (simp add: ssb_capacity_def ssb_offset_def)
  qed
  show ?thesis
  proof (rule that [of w4])
    show "ssb_reserve True True t a c w = Ok () w4" using ssb_reserve_grown [OF inv a t off c] w3(1) w4(1) by simp
    show "ssb_bytes a w4 = ssb_bytes a w" using b4 [of a ?u] own V4 by (simp add: ssb_bytes_def)
    show "ssb_bytes b w4 = ssb_bytes b w" if "b \<noteq> a" "views w b = Some u" for b u
      using b4 [of b u] other [of b u] that V4 by (simp add: ssb_bytes_def)
  qed (use w4(2) V4 cap in simp_all)
qed

text \<open>Failed allocations leave the world as it was, up to a storage number that is not used again.\<close>

lemma ssb_inv_next [simp]: "ssb_inv w \<Longrightarrow> ssb_inv (w\<lparr>next_storage := Suc (next_storage w)\<rparr>)"
proof -
  assume inv: "ssb_inv w"
  let ?w = "w\<lparr>next_storage := Suc (next_storage w)\<rparr>"
  have A: "assets ?w = assets w" "ssb_count ?w = ssb_count w" "ssb_handle ?w = ssb_handle w"
    by (auto simp: assets_def ssb_count_def ssb_handle_def fun_eq_iff)
  have "heap_ok ?w"
    using ssb_invD(2) [OF inv] unfolding heap_ok_def A by (auto intro: less_SucI)
  then show ?thesis using inv unfolding ssb_inv_def A by simp
qed

lemma ssb_reserve_fail:
  assumes inv: "ssb_inv w" and a: "views w a = Some v" and t: "views w t = None"
    and grow: "ssb_offset a w = 0" "ssb_capacity a w < c" and f: "\<not> (st_ok \<and> b_ok)"
  obtains w' where "ssb_reserve st_ok b_ok t a c w = Throw Bad_alloc w'" "ssb_inv w'" "views w' = views w"
  using grow f ssb_inv_next [OF inv] inv
  by (intro that [of "if st_ok then w\<lparr>next_storage := Suc (next_storage w)\<rparr> else w"])
    (auto simp: ssb_reserve_def ssb_allocate_Ok [OF inv t])

lemma view_bytes_put [simp]: "view_bytes (put_view a u w) x = view_bytes w x"
  by (simp add: view_bytes_def split: option.split)

lemma ssb_resize_Ok:
  assumes inv: "ssb_inv w" and a: "views w a = Some v" and t: "views w t = None" and off: "m_offset v = 0"
  obtains w' u where "ssb_resize True True t a n w = Ok () w'" "ssb_inv w'" "views w' = (views w)(a \<mapsto> u)" "m_ssize u = n" "m_offset u = 0"
    "m_storage u = (if ssb_capacity a w < n then Some (next_storage w) else m_storage v)"
    "take (m_ssize v) (ssb_bytes a w') = take n (ssb_bytes a w)"
    "\<And>b x. b \<noteq> a \<Longrightarrow> views w b = Some x \<Longrightarrow> ssb_bytes b w' = ssb_bytes b w"
proof (cases "ssb_capacity a w < n")
  case True
  have off': "ssb_offset a w = 0" using a off by (simp add: ssb_offset_def)
  show ?thesis
  proof (rule ssb_reserve_Ok [OF inv a t off True])
    fix w' assume w': "ssb_reserve True True t a n w = Ok () w'" "ssb_inv w'"
      "views w' = (views w)(a \<mapsto> \<lparr>m_storage = Some (next_storage w), m_offset = 0, m_ssize = m_ssize v\<rparr>)"
      "ssb_capacity a w' = n" "ssb_bytes a w' = ssb_bytes a w"
      "\<And>b u. b \<noteq> a \<Longrightarrow> views w b = Some u \<Longrightarrow> ssb_bytes b w' = ssb_bytes b w"
    let ?v = "\<lparr>m_storage = Some (next_storage w), m_offset = 0, m_ssize = m_ssize v\<rparr>"
    let ?u = "\<lparr>m_storage = Some (next_storage w), m_offset = 0, m_ssize = n\<rparr>"
    have va: "views w' a = Some ?v" using w'(3) by simp
    have ok: "view_ok (assets w') ?u"
      using ssb_invD(3) [OF w'(2) va] w'(4) va
      by (auto simp: view_ok_def ssb_capacity_def ssb_offset_def assets_def split: option.splits)
    have inv': "ssb_inv (put_view a ?u w')" by (rule ssb_inv_set_view [OF w'(2) va _ ok]) simp
    have len: "m_ssize v \<le> n"
      using True a ssb_invD(3) [OF inv a] by (auto simp: ssb_capacity_def ssb_offset_def view_ok_def assets_def split: option.splits)
    have "take (m_ssize v) (view_bytes w' ?u) = view_bytes w' ?v" using len by (simp add: view_bytes_def min_absorb1)
    then have "take (m_ssize v) (ssb_bytes a (put_view a ?u w')) = ssb_bytes a w"
      using w'(5) va by (simp add: ssb_bytes_def)
    moreover have "take n (ssb_bytes a w) = ssb_bytes a w"
      using length_view_bytes [OF inv a] a len by (simp add: ssb_bytes_def)
    ultimately show ?thesis using w' inv' True off' va
      by (intro that [of "put_view a ?u w'" ?u]) (simp_all add: ssb_resize_def ssb_bytes_def)
  qed
next
  case False
  let ?u = "v\<lparr>m_ssize := n\<rparr>"
  have ok: "view_ok (assets w) ?u"
    using ssb_invD(3) [OF inv a] a False off
    by (auto simp: view_ok_def ssb_capacity_def ssb_offset_def assets_def split: option.splits)
  have inv': "ssb_inv (put_view a ?u w)" by (rule ssb_inv_set_view [OF inv a _ ok]) simp
  have "take (m_ssize v) (view_bytes w ?u) = take n (view_bytes w v)"
    by (simp add: view_bytes_def min.commute split: option.splits)
  then show ?thesis using inv' False a off
    by (intro that [of "put_view a ?u w" ?u]) (simp_all add: ssb_resize_def ssb_bytes_def ssb_offset_def)
qed

lemma ssb_copy_from_Ok:
  assumes inv: "ssb_inv w" and out: "views w out = None" and t: "views w t = None" "t \<noteq> out"
  obtains w' u where "ssb_copy_from True True t out (Some bs) w = Ok () w'" "ssb_inv w'" "views w' = (views w)(out \<mapsto> u)"
    "ssb_bytes out w' = map Some bs" "ssb_size out w' = length bs"
proof (cases "bs = []")
  case True
  then show ?thesis using ssb_default_Ok [OF inv out]
    by (intro that [of "ssb_default out w" ssb_null]) (simp_all add: ssb_copy_from_def ssb_default_def ssb_bytes_def view_bytes_def ssb_size_def)
next
  case False
  let ?w = "ssb_default out w"
  have i: "ssb_inv ?w" using ssb_default_Ok [OF inv out] .
  have va: "views ?w out = Some ssb_null" "views ?w t = None" using t by (simp_all add: ssb_default_def)
  show ?thesis
  proof (rule ssb_resize_Ok [OF i va, of "length bs"])
    fix w' u assume w': "ssb_resize True True t out (length bs) ?w = Ok () w'" "ssb_inv w'" "views w' = (views ?w)(out \<mapsto> u)"
      "m_ssize u = length bs" "m_offset u = 0"
      "m_storage u = (if ssb_capacity out ?w < length bs then Some (next_storage ?w) else m_storage ssb_null)"
    have s: "m_storage u = Some (next_storage ?w)" using w'(6) False va by (simp add: ssb_capacity_def)
    have vu: "views w' out = Some u" using w'(3) by simp
    show ?thesis
    proof (rule view_block [OF w'(2) vu s])
      fix st p d assume st: "storages w' (next_storage ?w) = Some st" "st_bytes st = Some p" "blocks (mem w') p = Some d"
        "m_offset u + m_ssize u \<le> st_capacity st" "st_capacity st \<le> length d"
      let ?w2 = "w'\<lparr>mem := (mem w')\<lparr>blocks := (blocks (mem w'))(p \<mapsto> map Some bs @ drop (length bs) d)\<rparr>\<rparr>"
      have "ssb_inv ?w2" by (rule ssb_inv_bytes [OF w'(2) st(3)]) (use st w' in simp)
      moreover have "lift_mem (write_bytes (ssb_block out w') bs) w' = Ok () ?w2"
        using st w' s vu by (simp add: lift_mem_def write_bytes_def ssb_block_def ssb_data_def)
      moreover have "ssb_copy_from True True t out (Some bs) w = Ok () ?w2"
        using calculation(2) w'(1) False by (simp add: ssb_copy_from_def unwind_def)
      moreover have "view_bytes ?w2 u = map Some bs" using st(1,2) s w'(4,5) by (simp add: view_bytes_def)
      moreover have "views ?w2 = (views w)(out \<mapsto> u)" using w'(3) by (simp add: ssb_default_def)
      ultimately show ?thesis using vu w'(4)
        by (intro that [of ?w2 u]) (simp_all add: ssb_bytes_def ssb_size_def)
    qed
  qed simp
qed


section \<open>Adopting memory of the caller\<close>

text \<open>
  The caller's side of \<open>adopt\<close>: it gives the block away, except that without a release function it keeps a
  block that \<open>adopt\<close> rejects.
\<close>

definition custom_id :: "releaser option \<Rightarrow> nat \<Rightarrow> (nat \<times> nat) list" where
  "custom_id r p = (case r of Some (Release_custom k) \<Rightarrow> [(k, p)] | _ \<Rightarrow> [])"

definition hand_over :: "nat option \<Rightarrow> size_t \<Rightarrow> size_t \<Rightarrow> releaser option \<Rightarrow> shared_world \<Rightarrow> shared_world" where
  "hand_over p_data p_capacity p_size p_release w =
     (case p_data of
        None \<Rightarrow> w
      | Some p \<Rightarrow>
          (if p_release = None \<and> (p_capacity = 0 \<or> p_size > p_capacity) then w
           else w\<lparr>held := held w - {p}, adopted := adopted w @ custom_id p_release p\<rparr>))"

text \<open>A block the caller allocates.\<close>

definition caller_new :: "size_t \<Rightarrow> shared_world \<Rightarrow> shared_world" where
  "caller_new n w =
     (let p = next_block (mem w)
      in w\<lparr>mem := (mem w)\<lparr>blocks := (blocks (mem w))(p \<mapsto> replicate n None), next_block := Suc p\<rparr>, held := insert p (held w)\<rparr>)"

lemma shared_fields [simp]:
  "assets (w\<lparr>held := H\<rparr>) = assets w" "assets (w\<lparr>released := R\<rparr>) = assets w" "assets (w\<lparr>adopted := L\<rparr>) = assets w"
  "ssb_count (w\<lparr>held := H\<rparr>) = ssb_count w" "ssb_count (w\<lparr>released := R\<rparr>) = ssb_count w" "ssb_count (w\<lparr>adopted := L\<rparr>) = ssb_count w"
  "ssb_handle (w\<lparr>held := H\<rparr>) = ssb_handle w" "ssb_handle (w\<lparr>released := R\<rparr>) = ssb_handle w" "ssb_handle (w\<lparr>adopted := L\<rparr>) = ssb_handle w"
  by (auto simp: assets_def ssb_count_def ssb_handle_def fun_eq_iff)

lemma caller_new_inv:
  assumes inv: "ssb_inv w"
  shows "ssb_inv (caller_new n w)"
proof -
  note ok' = heap_ok_rules [OF ssb_invD(2) [OF inv]]
  let ?w = "caller_new n w" and ?p = "next_block (mem w)"
  have np: "blocks (mem w) ?p = None" by (rule ccontr) (use ok'(5) [of ?p] in blast)
  have sel: "assets ?w = assets w" "ssb_count ?w = ssb_count w" "ssb_handle ?w = ssb_handle w" "views ?w = views w"
    "blocks (mem ?w) = (blocks (mem w))(?p \<mapsto> replicate n None)" "next_block (mem ?w) = Suc ?p" "held ?w = insert ?p (held w)"
    "released ?w = released w" "adopted ?w = adopted w" "next_storage ?w = next_storage w"
    by (simp_all add: caller_new_def Let_def)
  have "heap_ok ?w"
  proof (rule heap_okI, unfold sel)
    show "\<exists>q bs. b = Some q \<and> q \<notin> insert ?p (held w) \<and> ((blocks (mem w))(?p \<mapsto> replicate n None)) q = Some bs \<and> c \<le> length bs"
      if "assets w s = Some (b, c, r)" for s b c r
      using ok'(2) [OF that] np by fastforce
    show "((blocks (mem w))(?p \<mapsto> replicate n None)) q \<noteq> None \<longleftrightarrow> q \<in> insert ?p (held w) \<or> (\<exists>s c r. assets w s = Some (Some q, c, r))" for q
      using ok'(4) [of q] by auto
    show "q < Suc ?p" if "((blocks (mem w))(?p \<mapsto> replicate n None)) q \<noteq> None" for q
      using ok'(5) [of q] that by (auto split: if_splits)
    show "((blocks (mem w))(?p \<mapsto> replicate n None)) q = None" "q < Suc ?p" if "(k, q) \<in> set (released w)" for k q
      using ok'(7,8) [OF that] by auto
  qed (fact ok'(1) ok'(3) ok'(6) ok'(9))+
  then show ?thesis using inv by (simp add: ssb_inv_def sel)
qed

lemma release_held_inv:
  assumes inv: "ssb_inv w" and p: "p \<in> held w"
  shows "ssb_inv (w\<lparr>mem := (mem w)\<lparr>blocks := (blocks (mem w))(p := None)\<rparr>, held := held w - {p},
    released := released w @ custom_id r p, adopted := adopted w @ custom_id r p\<rparr>)"
    (is "ssb_inv ?w")
proof -
  note ok' = heap_ok_rules [OF ssb_invD(2) [OF inv]]
  have np: "assets w s \<noteq> Some (Some p, c, r)" for s c r using ok'(2) [of s "Some p" c r] p by auto
  have lt: "p < next_block (mem w)" using ok'(4,5) [of p] p by auto
  have nr: "(k, p) \<notin> set (released w)" for k using ok'(7) [of k p] ok'(4) [of p] p by auto
  have id: "(k, q) \<in> set (custom_id r p) \<Longrightarrow> q = p" for k q by (auto simp: custom_id_def split: option.splits releaser.splits)
  have "heap_ok ?w"
  proof (rule heap_okI)
    show "\<exists>q bs. b = Some q \<and> q \<notin> held ?w \<and> blocks (mem ?w) q = Some bs \<and> c \<le> length bs"
      if "assets ?w s = Some (b, c, r)" for s b c r
      using ok'(2) [of s b c r] that np [of s c r] by auto
    show "blocks (mem ?w) q \<noteq> None \<longleftrightarrow> q \<in> held ?w \<or> (\<exists>s c r. assets ?w s = Some (Some q, c, r))" for q
      using ok'(4) [of q] np by auto
    show "q < next_block (mem ?w)" if "blocks (mem ?w) q \<noteq> None" for q
      using ok'(5) [of q] that by (auto split: if_splits)
    show "distinct (map snd (released ?w))"
      using ok'(6) nr by (auto simp: custom_id_def split: option.splits releaser.splits)
    show "blocks (mem ?w) q = None" "q < next_block (mem ?w)" if "(k, q) \<in> set (released ?w)" for k q
      using that ok'(7,8) [of k q] lt id [of k q] by auto
    show "(k, q) \<in> set (adopted ?w) \<longleftrightarrow> (k, q) \<in> set (released ?w) \<or> (\<exists>s c. assets ?w s = Some (Some q, c, Some (Release_custom k)))" for k q
      using ok'(9) [of k q] by auto
  qed (use ok'(1,3) in auto)
  then show ?thesis using inv by (simp add: ssb_inv_def)
qed

lemma adopt_valid_inv:
  assumes inv: "ssb_inv w" and out: "views w out = None" and q: "q \<in> held w" "blocks (mem w) q = Some bs" "cap \<le> length bs"
    and size: "n \<le> cap"
  shows "ssb_inv (put_view out \<lparr>m_storage = Some (next_storage w), m_offset = 0, m_ssize = n\<rparr>
    (with_storage (next_storage w) \<lparr>st_bytes = Some q, st_capacity = cap, st_release = r, st_refs = 1\<rparr>
      (w\<lparr>held := held w - {q}, adopted := adopted w @ custom_id r q\<rparr>)))"
    (is "ssb_inv ?w")
proof (rule fresh_storage_Ok [OF inv, where out = out and p = q and c = cap and r = r and n = n])
  show "heap_ok ?w"
  proof (rule heap_add [OF ssb_invD(2) [OF inv], where p = q and c = cap and r = r and bs = bs])
    show "blocks (mem ?w) = (blocks (mem w))(q \<mapsto> bs)" using q by (auto simp: fun_eq_iff)
    show "(k, p) \<in> set (adopted ?w) \<longleftrightarrow> (k, p) \<in> set (adopted w) \<or> p = q \<and> r = Some (Release_custom k)" for k p
      by (auto simp: custom_id_def split: option.splits releaser.splits)
  qed (use q in simp_all)
qed (use out size in simp_all)

lemma ssb_adopt_Ok:
  assumes inv: "ssb_inv w" and out: "views w out = None"
    and p: "\<And>q. p = Some q \<Longrightarrow> q \<in> held w \<and> (\<exists>bs. blocks (mem w) q = Some bs \<and> cap \<le> length bs)"
  shows "\<exists>w'. ssb_adopt True out p cap n r (hand_over p cap n r w) = Ok () w' \<and> ssb_inv w'"
proof -
  let ?w = "hand_over p cap n r w"
  consider (valid) q where "p = Some q" "cap \<noteq> 0" "n \<le> cap"
    | (reject) q x where "p = Some q" "cap = 0 \<or> n > cap" "r = Some x"
    | (keep) "p = None \<or> (cap = 0 \<or> n > cap) \<and> r = None"
    by (cases p; cases r; cases "cap = 0 \<or> n > cap") (auto simp: not_less)
  then show ?thesis
  proof cases
    case valid
    then obtain bs where bs: "q \<in> held w" "blocks (mem w) q = Some bs" "cap \<le> length bs" using p by auto
    have "ssb_adopt True out p cap n r ?w = Ok () (put_view out \<lparr>m_storage = Some (next_storage w), m_offset = 0, m_ssize = n\<rparr>
      (with_storage (next_storage w) \<lparr>st_bytes = Some q, st_capacity = cap, st_release = r, st_refs = 1\<rparr>
        (w\<lparr>held := held w - {q}, adopted := adopted w @ custom_id r q\<rparr>)))"
      using valid by (cases w) (simp add: ssb_adopt_def hand_over_def ssb_default_def put_view_def unwind_def with_storage_def Let_def)
    then show ?thesis using adopt_valid_inv [OF inv out bs valid(3)] by blast
  next
    case reject
    then obtain bs where bs: "q \<in> held w" "blocks (mem w) q = Some bs" using p by auto
    let ?w' = "w\<lparr>mem := (mem w)\<lparr>blocks := (blocks (mem w))(q := None)\<rparr>, held := held w - {q},
      released := released w @ custom_id r q, adopted := adopted w @ custom_id r q\<rparr>"
    have "ssb_adopt True out p cap n r ?w = Ok () (ssb_default out ?w')"
      using reject bs by (cases w) (auto simp: ssb_adopt_def hand_over_def ssb_default_def put_view_def run_release_def lift_mem_def
          delete_array_def custom_id_def Let_def split: releaser.split)
    moreover have "ssb_inv (ssb_default out ?w')"
      by (rule ssb_default_Ok [OF release_held_inv [OF inv bs(1)]]) (use out in simp)
    ultimately show ?thesis by blast
  next
    case keep
    then have "ssb_adopt True out p cap n r ?w = Ok () (ssb_default out w)"
      by (cases p; cases r) (auto simp: ssb_adopt_def hand_over_def Let_def)
    then show ?thesis using ssb_default_Ok [OF inv out] by blast
  qed
qed

section \<open>Programs over shared sized buffers\<close>

datatype ssb_op =
    Caller_new size_t | Ssb_default addr | Ssb_copy_ctor addr addr | Ssb_copy_assign addr addr | Ssb_move_ctor addr addr
  | Ssb_move_assign addr addr | Ssb_dtor addr | Ssb_clear addr | Ssb_allocate bool bool addr size_t
  | Ssb_adopt bool addr "nat option" size_t size_t "releaser option" | Ssb_reserve bool bool addr addr size_t
  | Ssb_resize bool bool addr addr size_t | Ssb_copy_from bool bool addr addr "byte list option"
  | Ssb_subview addr addr size_t size_t

fun ssb_exec :: "ssb_op \<Rightarrow> shared_world \<Rightarrow> (shared_world, unit) result" where
  "ssb_exec (Caller_new n) w = Ok () (caller_new n w)"
| "ssb_exec (Ssb_default a) w = Ok () (ssb_default a w)"
| "ssb_exec (Ssb_copy_ctor dst src) w = ssb_copy_ctor dst src w"
| "ssb_exec (Ssb_copy_assign dst src) w = ssb_copy_assign dst src w"
| "ssb_exec (Ssb_move_ctor dst src) w = ssb_move_ctor dst src w"
| "ssb_exec (Ssb_move_assign dst src) w = ssb_move_assign dst src w"
| "ssb_exec (Ssb_dtor a) w = ssb_dtor a w"
| "ssb_exec (Ssb_clear a) w = ssb_clear a w"
| "ssb_exec (Ssb_allocate st_ok b_ok a n) w = ssb_allocate st_ok b_ok a n w"
| "ssb_exec (Ssb_adopt st_ok a p cap n r) w = ssb_adopt st_ok a p cap n r (hand_over p cap n r w)"
| "ssb_exec (Ssb_reserve st_ok b_ok t a n) w = ssb_reserve st_ok b_ok t a n w"
| "ssb_exec (Ssb_resize st_ok b_ok t a n) w = ssb_resize st_ok b_ok t a n w"
| "ssb_exec (Ssb_copy_from st_ok b_ok t a bs) w = ssb_copy_from st_ok b_ok t a bs w"
| "ssb_exec (Ssb_subview dst a off n) w = ssb_subview dst a off n w"

text \<open>Objects are constructed where there is none and used while they live; \<open>adopt\<close> gets memory of the caller.\<close>

fun ssb_op_ok :: "ssb_op \<Rightarrow> shared_world \<Rightarrow> bool" where
  "ssb_op_ok (Caller_new n) w = True"
| "ssb_op_ok (Ssb_default a) w = (views w a = None)"
| "ssb_op_ok (Ssb_copy_ctor dst src) w = (views w dst = None \<and> views w src \<noteq> None)"
| "ssb_op_ok (Ssb_copy_assign dst src) w = (views w dst \<noteq> None \<and> views w src \<noteq> None)"
| "ssb_op_ok (Ssb_move_ctor dst src) w = (views w dst = None \<and> views w src \<noteq> None)"
| "ssb_op_ok (Ssb_move_assign dst src) w = (views w dst \<noteq> None \<and> views w src \<noteq> None)"
| "ssb_op_ok (Ssb_dtor a) w = (views w a \<noteq> None)"
| "ssb_op_ok (Ssb_clear a) w = (views w a \<noteq> None)"
| "ssb_op_ok (Ssb_allocate st_ok b_ok a n) w = (views w a = None)"
| "ssb_op_ok (Ssb_adopt st_ok a p cap n r) w = (views w a = None \<and>
     (case p of None \<Rightarrow> True | Some q \<Rightarrow> q \<in> held w \<and> cap \<le> length (the (blocks (mem w) q))))"
| "ssb_op_ok (Ssb_reserve st_ok b_ok t a n) w = (views w a \<noteq> None \<and> views w t = None)"
| "ssb_op_ok (Ssb_resize st_ok b_ok t a n) w = (views w a \<noteq> None \<and> views w t = None)"
| "ssb_op_ok (Ssb_copy_from st_ok b_ok t a bs) w = (views w a = None \<and> views w t = None \<and> t \<noteq> a)"
| "ssb_op_ok (Ssb_subview dst a off n) w = (views w dst = None \<and> views w a \<noteq> None)"

primrec ssb_prog_ok :: "ssb_op list \<Rightarrow> shared_world \<Rightarrow> bool" where
  "ssb_prog_ok [] w = True"
| "ssb_prog_ok (op # ops) w =
     (ssb_op_ok op w \<and> (case ssb_exec op w of Ok _ w' \<Rightarrow> ssb_prog_ok ops w' | Throw _ _ \<Rightarrow> True))"

definition ssb_good :: "(shared_world, unit) result \<Rightarrow> bool" where
  "ssb_good r \<longleftrightarrow>
     (case r of
        Ok _ w \<Rightarrow> ssb_inv w
      | Throw e w \<Rightarrow> e = Bad_alloc \<and> rc_ok (ssb_handle w) (ssb_count w))"

lemma ssb_good_Ok: "ssb_inv w \<Longrightarrow> r = Ok () w \<Longrightarrow> ssb_good r"
  by (simp add: ssb_good_def)

lemma ssb_good_Throw: "ssb_inv w \<Longrightarrow> r = Throw Bad_alloc w \<Longrightarrow> ssb_good r"
  by (simp add: ssb_good_def ssb_inv_def)

lemma view_ops_good:
  assumes inv: "ssb_inv w"
  shows "views w dst = None \<Longrightarrow> views w src \<noteq> None \<Longrightarrow> ssb_good (ssb_copy_ctor dst src w)"
    and "views w dst \<noteq> None \<Longrightarrow> views w src \<noteq> None \<Longrightarrow> ssb_good (ssb_copy_assign dst src w)"
    and "views w dst = None \<Longrightarrow> views w src \<noteq> None \<Longrightarrow> ssb_good (ssb_move_ctor dst src w)"
    and "views w dst \<noteq> None \<Longrightarrow> views w src \<noteq> None \<Longrightarrow> ssb_good (ssb_move_assign dst src w)"
    and "views w dst \<noteq> None \<Longrightarrow> ssb_good (ssb_dtor dst w)" "views w dst \<noteq> None \<Longrightarrow> ssb_good (ssb_clear dst w)"
    and "views w dst = None \<Longrightarrow> views w src \<noteq> None \<Longrightarrow> ssb_good (ssb_subview dst src off n w)"
  using ssb_copy_ctor_Ok [OF inv, of dst src] ssb_copy_assign_Ok [OF inv, of dst _ src] ssb_move_ctor_Ok [OF inv, of dst src]
    ssb_move_assign_Ok [OF inv, of dst _ src] ssb_dtor_Ok [OF inv, of dst] ssb_clear_Ok [OF inv, of dst]
    ssb_subview_Ok [OF inv, of dst src _ off n]
  by (metis ssb_good_Ok option.exhaust)+

lemma ssb_resize_cases:
  assumes inv: "ssb_inv w" and a: "views w a = Some v" and t: "views w t = None"
  obtains w' u where "ssb_resize st_ok b_ok t a n w = Ok () w'" "ssb_inv w'" "views w' = (views w)(a \<mapsto> u)"
  | w' where "ssb_resize st_ok b_ok t a n w = Throw Bad_alloc w'" "ssb_inv w'" "views w' = views w"
proof (cases "m_offset v = 0")
  case False
  then show ?thesis using that(1) [of w v] inv a by (simp add: ssb_resize_def ssb_offset_def fun_upd_idem)
next
  case off: True
  have off': "ssb_offset a w = 0" using off a by (simp add: ssb_offset_def)
  show ?thesis
  proof (cases "ssb_capacity a w < n \<and> \<not> (st_ok \<and> b_ok)")
    case True
    show ?thesis
    proof (rule ssb_reserve_fail [OF inv a t off'])
      fix w' assume "ssb_reserve st_ok b_ok t a n w = Throw Bad_alloc w'" "ssb_inv w'" "views w' = views w"
      then show ?thesis using True off' by (intro that(2) [of w']) (simp_all add: ssb_resize_def)
    qed (use True in simp_all)
  next
    case False
    then have eq: "ssb_resize st_ok b_ok t a n w = ssb_resize True True t a n w" by (auto simp: ssb_resize_def)
    show ?thesis by (rule ssb_resize_Ok [OF inv a t off, of n]) (use that(1) eq in auto)
  qed
qed

lemma grow_ops_good:
  assumes inv: "ssb_inv w"
  shows "views w a = Some v \<Longrightarrow> views w t = None \<Longrightarrow> ssb_good (ssb_reserve st_ok b_ok t a n w)"
    and "views w a = Some v \<Longrightarrow> views w t = None \<Longrightarrow> ssb_good (ssb_resize st_ok b_ok t a n w)"
    and "views w a = None \<Longrightarrow> ssb_good (ssb_allocate st_ok b_ok a n w)"
    and "views w a = None \<Longrightarrow> views w t = None \<Longrightarrow> t \<noteq> a \<Longrightarrow> ssb_good (ssb_copy_from st_ok b_ok t a bs w)"
proof -
  show "ssb_good (ssb_reserve st_ok b_ok t a n w)" if a: "views w a = Some v" "views w t = None"
  proof (cases "m_offset v \<noteq> 0 \<or> n \<le> ssb_capacity a w")
    case True
    then show ?thesis using inv a by (auto simp: ssb_reserve_def ssb_offset_def ssb_good_def)
  next
    case grow: False
    then have c: "m_offset v = 0" "ssb_capacity a w < n" "ssb_offset a w = 0" using a by (auto simp: ssb_offset_def)
    show ?thesis
    proof (cases "st_ok \<and> b_ok")
      case True
      then show ?thesis using ssb_reserve_Ok [OF inv a c(1,2)] ssb_good_Ok by metis
    next
      case False
      then show ?thesis using ssb_reserve_fail [OF inv a c(3,2)] ssb_good_Throw by metis
    qed
  qed
  show "ssb_good (ssb_resize st_ok b_ok t a n w)" if "views w a = Some v" "views w t = None"
    by (rule ssb_resize_cases [OF inv that, of st_ok b_ok n]) (auto intro: ssb_good_Ok ssb_good_Throw)
  show "ssb_good (ssb_allocate st_ok b_ok a n w)" if "views w a = None"
    using ssb_allocate_Ok [OF inv that, of st_ok b_ok n] ssb_default_Ok [OF inv that] allocated_Ok [OF inv that, of n]
      ssb_invD(1) [OF inv] ssb_invD(1) [OF ssb_inv_next [OF inv]]
    by (auto simp: ssb_good_def)
  show "ssb_good (ssb_copy_from st_ok b_ok t a bs w)" if a: "views w a = None" "views w t = None" "t \<noteq> a"
  proof (cases "bs = None \<or> bs = Some []")
    case True
    then show ?thesis using ssb_default_Ok [OF inv a(1)] by (auto simp: ssb_copy_from_def ssb_good_def)
  next
    case False
    then obtain xs where xs: "bs = Some xs" "xs \<noteq> []" by (cases bs) auto
    let ?w = "ssb_default a w"
    have i: "ssb_inv ?w" "views ?w a = Some ssb_null" "views ?w t = None"
      using ssb_default_Ok [OF inv a(1)] a by (simp_all add: ssb_default_def)
    show ?thesis
    proof (cases "st_ok \<and> b_ok")
      case True
      then show ?thesis using ssb_copy_from_Ok [OF inv a, of xs] ssb_good_Ok xs by metis
    next
      case fail: False
      have c: "ssb_offset a ?w = 0" "ssb_capacity a ?w < length xs" using i xs by (simp_all add: ssb_offset_def ssb_capacity_def)
      show ?thesis
      proof (rule ssb_reserve_fail [OF i c fail])
        fix w1 assume w1: "ssb_reserve st_ok b_ok t a (length xs) ?w = Throw Bad_alloc w1" "ssb_inv w1" "views w1 = views ?w"
        then have "views w1 a = Some ssb_null" using i by simp
        then obtain w2 where "ssb_dtor a w1 = Ok () w2" "ssb_inv w2" by (rule ssb_dtor_Ok [OF w1(2)]) blast
        then show ?thesis using w1(1) xs c
          by (intro ssb_good_Throw [of w2]) (simp_all add: ssb_copy_from_def ssb_resize_def unwind_def)
      qed
    qed
  qed
qed

lemma ssb_adopt_good:
  assumes "ssb_inv w" "ssb_op_ok (Ssb_adopt st_ok a p cap n r) w"
  shows "ssb_good (ssb_adopt st_ok a p cap n r (hand_over p cap n r w))"
proof (cases "st_ok \<or> p = None \<or> cap = 0 \<or> n > cap")
  case True
  then have "ssb_adopt st_ok a p cap n r (hand_over p cap n r w) = ssb_adopt True a p cap n r (hand_over p cap n r w)"
    by (auto simp: ssb_adopt_def Let_def)
  moreover have "q \<in> held w \<and> (\<exists>bs. blocks (mem w) q = Some bs \<and> cap \<le> length bs)" if "p = Some q" for q
    using assms that heap_ok_rules(4) [OF ssb_invD(2) [OF assms(1)], of q] by auto
  ultimately show ?thesis using ssb_adopt_Ok [OF assms(1), of a p cap n r] assms(2) ssb_good_Ok by auto
next
  case False
  have V: "(views w)(a := None) = views w" using assms(2) by auto
  have "\<exists>H L. ssb_adopt st_ok a p cap n r (hand_over p cap n r w) = Throw Bad_alloc (w\<lparr>held := H, adopted := L\<rparr>)"
    using False V by (cases w) (auto simp: ssb_adopt_def Let_def unwind_def ssb_dtor_def ssb_default_def put_view_def
        hand_over_def release_ref_def ssb_null_def split: option.splits)
  then show ?thesis using ssb_invD(1) [OF assms(1)] by (auto simp: ssb_good_def)
qed

lemma ssb_exec_good:
  assumes inv: "ssb_inv w" and ok: "ssb_op_ok op w"
  shows "ssb_good (ssb_exec op w)"
proof (cases op)
  case (Ssb_adopt st_ok a p cap n r)
  then show ?thesis using ssb_adopt_good [OF inv, of st_ok a p cap n r] ok by (simp del: ssb_op_ok.simps)
qed (use ok view_ops_good [OF inv] grow_ops_good [OF inv] ssb_default_Ok [OF inv] caller_new_inv [OF inv] in
    \<open>auto simp: ssb_good_def [of "Ok _ _"]\<close>)

lemma ssb_prog_good: "ssb_inv w \<Longrightarrow> ssb_prog_ok ops w \<Longrightarrow> ssb_good (rfold ssb_exec ops w)"
proof (induction ops arbitrary: w)
  case (Cons op ops)
  have g: "ssb_good (ssb_exec op w)" using ssb_exec_good Cons.prems by simp
  then show ?case using Cons by (cases "ssb_exec op w") (auto simp: ssb_good_def)
qed (simp add: ssb_good_def)

lemma ssb_inv_empty: "ssb_inv shared_empty"
proof -
  have "heap_ok shared_empty" by (rule heap_okI) (simp_all add: shared_empty_def assets_def memory_empty_def)
  moreover have "ssb_handle shared_empty = Map.empty" "ssb_count shared_empty = Map.empty" "views shared_empty = Map.empty"
    by (auto simp: ssb_handle_def ssb_count_def shared_empty_def)
  ultimately show ?thesis by (simp add: ssb_inv_def rc_ok_def handles_of_def)
qed

interpretation ssb: shared_handles ssb_handle ssb_count ssb_inv ssb_copy_ctor ssb_dtor
proof
  show "\<exists>w'. ssb_copy_ctor dst src w = Ok () w' \<and> ssb_inv w' \<and> ssb_handle w' = (ssb_handle w)(dst \<mapsto> k)"
    if w: "ssb_inv w" "ssb_handle w dst = None" "ssb_handle w src = Some k" for w dst src k
  proof -
    obtain v where v: "views w dst = None" "views w src = Some v" "m_storage v = k" using w by (auto simp: ssb_handle_def)
    show ?thesis by (rule ssb_copy_ctor_Ok [OF w(1) v(1,2)]) (auto simp: ssb_handle_def fun_eq_iff v(3))
  qed
  show "\<exists>w'. ssb_dtor a w = Ok () w' \<and> ssb_inv w' \<and> ssb_handle w' = (ssb_handle w)(a := None)"
    if w: "ssb_inv w" "ssb_handle w a = Some k" for w a k
  proof -
    obtain v where v: "views w a = Some v" using w by (auto simp: ssb_handle_def)
    show ?thesis by (rule ssb_dtor_Ok [OF w(1) v]) (auto simp: ssb_handle_def fun_eq_iff)
  qed
qed (simp add: ssb_inv_def)


section \<open>Properties\<close>

lemmas ssb_eval = ssb_exec.simps shared_empty_def memory_empty_def storage_new_def ssb_null_def put_view_def lift_mem_def
  run_release_def storage_dtor_def acquire_def release_ref_def ssb_default_def ssb_copy_ctor_def ssb_copy_assign_def
  ssb_move_ctor_def ssb_move_assign_def ssb_dtor_def ssb_size_def ssb_offset_def ssb_capacity_def ssb_is_empty_def
  ssb_data_def ssb_block_def ssb_clear_def unwind_def ssb_allocate_def ssb_adopt_def ssb_reserve_def ssb_resize_def
  write_bytes_def ssb_copy_from_def ssb_subview_def caller_new_def hand_over_def custom_id_def new_array_def
  delete_array_def memcpy_def Let_def use_count_def get_storage_def

lemma use_count_handles:
  assumes "ssb_inv w" "views w a = Some v" "m_storage v = Some s"
  shows "use_count a w = int (card {b. ssb_handle w b = Some (Some s)})"
proof -
  obtain st where "storages w s = Some st" by (rule view_storage [OF assms])
  then show ?thesis using ssb.count_is_number_of_handles [OF assms(1), of s "st_refs st"] assms(2,3)
    by (simp add: use_count_def ssb_count_def)
qed

lemma no_views_no_storage:
  assumes "ssb_inv w" "views w = Map.empty"
  shows "storages w = Map.empty" "set (adopted w) = set (released w)" "blocks (mem w) p \<noteq> None \<longleftrightarrow> p \<in> held w"
proof -
  have "ssb_count w s = None" for s
    using ssb.lives_while_referenced [OF assms(1), of s] assms(2) by (auto simp: ssb_handle_def)
  then show S: "storages w = Map.empty" by (auto simp: ssb_count_def fun_eq_iff)
  then have A: "assets w s = None" for s by (simp add: assets_def)
  note ok' = heap_ok_rules [OF ssb_invD(2) [OF assms(1)]]
  show "set (adopted w) = set (released w)" using ok'(9) A by auto
  show "blocks (mem w) p \<noteq> None \<longleftrightarrow> p \<in> held w" using ok'(4) [of p] A by simp
qed

text \<open>C8. Any sequence of operations on \<open>shared_sized_buffer\<close> objects that uses objects while they live runs
  without undefined behaviour and throws only \<open>std::bad_alloc\<close>. Throughout, the use count of a storage is
  the number of views of it and no release function runs twice for a block; once the last view is gone no
  storage is left, every adopted block was handed to its release function, and the only live blocks are
  those that belong to the caller.\<close>

theorem shared_storage_released_once:
  assumes "ssb_prog_ok ops shared_empty"
  shows "case rfold ssb_exec ops shared_empty of
      Ok _ w \<Rightarrow>
        (\<forall>a v s. views w a = Some v \<and> m_storage v = Some s \<longrightarrow> use_count a w = int (card {b. ssb_handle w b = Some (Some s)})) \<and>
        distinct (map snd (released w)) \<and>
        (views w = Map.empty \<longrightarrow> storages w = Map.empty \<and> set (adopted w) = set (released w) \<and>
          (\<forall>p. blocks (mem w) p \<noteq> None \<longleftrightarrow> p \<in> held w))
    | Throw e w \<Rightarrow> e = Bad_alloc"
proof (cases "rfold ssb_exec ops shared_empty")
  case (Ok u w)
  then have inv: "ssb_inv w" using ssb_prog_good [OF ssb_inv_empty assms] by (simp add: ssb_good_def)
  show ?thesis using Ok use_count_handles [OF inv] no_views_no_storage [OF inv] heap_ok_rules(6) [OF ssb_invD(2) [OF inv]] by simp
next
  case (Throw e w)
  then show ?thesis using ssb_prog_good [OF ssb_inv_empty assms] by (simp add: ssb_good_def)
qed

text \<open>An adopted block seen by a copy and a subview, and a grown copy.\<close>

definition ssb_demo :: "ssb_op list" where
  "ssb_demo = [Caller_new 4, Ssb_adopt True 1 (Some 0) 4 3 (Some (Release_custom 7)), Ssb_copy_ctor 2 1,
     Ssb_subview 3 1 1 2, Ssb_dtor 1, Ssb_resize True True 9 2 6, Ssb_dtor 2, Ssb_dtor 3]"

theorem shared_storage_released_once_witness:
  "ssb_prog_ok ssb_demo shared_empty \<and> (case rfold ssb_exec ssb_demo shared_empty of
      Ok _ w \<Rightarrow> storages w = Map.empty \<and> released w = [(7, 0)] \<and> set (adopted w) = set (released w) | Throw _ _ \<Rightarrow> False)"
proof -
  have ok: "ssb_prog_ok ssb_demo shared_empty" unfolding ssb_demo_def by (simp add: ssb_eval)
  have "\<exists>w. rfold ssb_exec ssb_demo shared_empty = Ok () w \<and> views w = Map.empty \<and> released w = [(7, 0)]"
    unfolding ssb_demo_def by (simp add: ssb_eval fun_eq_iff)
  then show ?thesis using ok shared_storage_released_once [OF ok] by auto
qed

text \<open>The bytes of a view depend on the storages and the memory only.\<close>

lemma view_bytes_frame:
  assumes "ssb_inv w" "views w a = Some v" "assets w' = assets w" "mem w' = mem w" "m_storage y = m_storage v \<or> m_storage y = None"
  shows "view_bytes w' y = view_bytes w y"
proof (cases "m_storage y")
  case (Some s)
  then have "m_storage v = Some s" using assms(5) by auto
  then obtain st where "storages w s = Some st" by (rule view_storage [OF assms(1,2)])
  moreover from this have "the (st_bytes (the (storages w' s))) = the (st_bytes st)"
    using assms(3) by (auto simp: assets_def fun_eq_iff dest!: spec [of _ s])
  ultimately show ?thesis using assms(4) Some by (simp add: view_bytes_def)
qed (simp add: view_bytes_def)

text \<open>The view a subview is, and its bytes.\<close>

definition sub_view :: "size_t \<Rightarrow> size_t \<Rightarrow> shared_sized_buffer \<Rightarrow> shared_sized_buffer" where
  "sub_view off n v = (if m_storage v = None \<or> off + n > m_ssize v then ssb_null
     else \<lparr>m_storage = m_storage v, m_offset = m_offset v + off, m_ssize = n\<rparr>)"

lemma sub_view_bytes:
  assumes "view_ok (assets w) v"
  shows "view_bytes w (sub_view off n v) = (if off + n \<le> m_ssize v then take n (drop off (view_bytes w v)) else [])"
    and "view_bytes w (sub_view off' n' (sub_view off n v)) =
      (if off + n \<le> m_ssize v \<and> off' + n' \<le> n then take n' (drop (off + off') (view_bytes w v)) else [])"
proof -
  have z: "m_storage v = None \<Longrightarrow> m_ssize v = 0" using assms by (simp add: view_ok_def)
  show "view_bytes w (sub_view off n v) = (if off + n \<le> m_ssize v then take n (drop off (view_bytes w v)) else [])"
    using z by (auto simp: sub_view_def view_bytes_def drop_take min_def add.commute split: option.splits)
  show "view_bytes w (sub_view off' n' (sub_view off n v)) =
      (if off + n \<le> m_ssize v \<and> off' + n' \<le> n then take n' (drop (off + off') (view_bytes w v)) else [])"
  proof (cases "m_storage v = None \<or> \<not> (off + n \<le> m_ssize v \<and> off' + n' \<le> n)")
    case True
    then show ?thesis using z by (auto simp: sub_view_def view_bytes_def)
  next
    case False
    then show ?thesis by (auto simp: sub_view_def view_bytes_def drop_take min_def add.commute add.left_commute)
  qed
qed

text \<open>C28. A subview shows a slice of the same storage: \<open>subview(off, n)\<close> of a view holds its bytes \<open>off\<close> to
  \<open>off + n\<close> when they are within its size and is empty otherwise, a subview of a subview is the slice of the
  slice, and the viewed buffer keeps its contents.\<close>

theorem subview_is_slice:
  assumes "ssb_inv w" "views w a \<noteq> None" "views w b = None" "views w c = None" "b \<noteq> c"
  shows "\<exists>w1 w2. ssb_subview b a off n w = Ok () w1 \<and> ssb_subview c b off' n' w1 = Ok () w2 \<and> ssb_inv w2 \<and>
    ssb_bytes b w1 = (if off + n \<le> ssb_size a w then take n (drop off (ssb_bytes a w)) else []) \<and>
    ssb_bytes c w2 = (if off + n \<le> ssb_size a w \<and> off' + n' \<le> n then take n' (drop (off + off') (ssb_bytes a w)) else []) \<and>
    ssb_bytes a w2 = ssb_bytes a w \<and> (get_storage c w2 = None \<or> get_storage c w2 = get_storage a w)"
proof -
  obtain v where v: "views w a = Some v" using assms(2) by auto
  have ne: "a \<noteq> b" "a \<noteq> c" using assms by auto
  let ?u = "sub_view off n v"
  let ?x = "sub_view off' n' ?u"
  obtain w1 where w1: "ssb_subview b a off n w = Ok () w1" "ssb_inv w1" "views w1 = (views w)(b \<mapsto> ?u)" "mem w1 = mem w" "assets w1 = assets w"
    by (rule ssb_subview_Ok [OF assms(1,3) v, of off n]) (simp add: sub_view_def)
  then have c1: "views w1 c = None" "views w1 b = Some ?u" using assms(4,5) by simp_all
  obtain w2 where w2: "ssb_subview c b off' n' w1 = Ok () w2" "ssb_inv w2" "views w2 = (views w1)(c \<mapsto> ?x)" "mem w2 = mem w1" "assets w2 = assets w1"
    by (rule ssb_subview_Ok [OF w1(2) c1, of off' n']) (simp add: sub_view_def)
  have m: "m_storage ?u = m_storage v \<or> m_storage ?u = None" "m_storage ?x = m_storage v \<or> m_storage ?x = None" by (auto simp: sub_view_def)
  note eq = view_bytes_frame [OF assms(1) v]
  have "ssb_bytes b w1 = view_bytes w ?u" "ssb_bytes c w2 = view_bytes w ?x" "ssb_bytes a w2 = view_bytes w v"
    using eq [of w1 ?u] eq [of w2 ?x] eq [of w2 v] m w1(3-5) w2(3-5) v ne by (simp_all add: ssb_bytes_def)
  moreover have "ssb_size a w = m_ssize v" "ssb_bytes a w = view_bytes w v" using v by (simp_all add: ssb_size_def ssb_bytes_def)
  moreover have "get_storage c w2 = None \<or> get_storage c w2 = get_storage a w" using w2(3) m(2) v by (auto simp: get_storage_def)
  ultimately show ?thesis using w1(1) w2(1,2) sub_view_bytes [OF ssb_invD(3) [OF assms(1) v]]
    by (intro exI [of _ w1] exI [of _ w2] conjI) simp_all
qed

definition ssb_demo_world :: shared_world where
  "ssb_demo_world = the_state (rfold ssb_exec [Ssb_copy_from True True 9 1 (Some [10, 11, 12, 13])] shared_empty)"

lemma ssb_demo_world_inv: "ssb_inv ssb_demo_world"
proof -
  have "ssb_prog_ok [Ssb_copy_from True True 9 1 (Some [10, 11, 12, 13])] shared_empty" by (simp add: ssb_eval)
  from ssb_prog_good [OF ssb_inv_empty this] show ?thesis
    by (simp add: ssb_demo_world_def ssb_good_def ssb_eval)
qed

theorem subview_is_slice_witness:
  "\<exists>w1 w2. ssb_subview 2 1 1 3 ssb_demo_world = Ok () w1 \<and> ssb_subview 3 2 1 1 w1 = Ok () w2 \<and>
     ssb_bytes 2 w1 = [Some 11, Some 12, Some 13] \<and> ssb_bytes 3 w2 = [Some 12]"
proof -
  have "views ssb_demo_world 1 \<noteq> None" "views ssb_demo_world 2 = None" "views ssb_demo_world 3 = None"
    "ssb_size 1 ssb_demo_world = 4" "ssb_bytes 1 ssb_demo_world = [Some 10, Some 11, Some 12, Some 13]"
    by (simp_all add: ssb_demo_world_def ssb_eval ssb_bytes_def view_bytes_def)
  then show ?thesis using subview_is_slice [OF ssb_demo_world_inv, of 1 2 3 1 3 1 1] by auto
qed

text \<open>C29. Resizing a whole view never disturbs the others: after \<open>resize(n)\<close> the view has size \<open>n\<close> and its first
  bytes are the old ones, every other view holds the bytes it held, and when the view had to grow it is
  alone on a storage of its own. On a subview with an offset \<open>resize\<close> does nothing.\<close>

theorem resize_detaches:
  assumes "ssb_inv w" "views w a \<noteq> None" "views w t = None"
  shows "\<exists>w'. ssb_resize True True t a n w = Ok () w' \<and> ssb_inv w' \<and>
    (if ssb_offset a w \<noteq> 0 then w' = w
     else ssb_size a w' = n \<and> take (ssb_size a w) (ssb_bytes a w') = take n (ssb_bytes a w) \<and>
       (\<forall>b. b \<noteq> a \<and> views w b \<noteq> None \<longrightarrow> ssb_bytes b w' = ssb_bytes b w \<and> views w' b = views w b) \<and>
       (ssb_capacity a w < n \<longrightarrow> use_count a w' = 1))"
proof -
  obtain v where v: "views w a = Some v" using assms(2) by auto
  show ?thesis
  proof (cases "m_offset v = 0")
    case True
    show ?thesis
    proof (rule ssb_resize_Ok [OF assms(1) v assms(3) True, of n])
      fix w' u assume w': "ssb_resize True True t a n w = Ok () w'" "ssb_inv w'" "views w' = (views w)(a \<mapsto> u)" "m_ssize u = n"
        "m_storage u = (if ssb_capacity a w < n then Some (next_storage w) else m_storage v)"
        "take (m_ssize v) (ssb_bytes a w') = take n (ssb_bytes a w)"
        "\<And>b x. b \<noteq> a \<Longrightarrow> views w b = Some x \<Longrightarrow> ssb_bytes b w' = ssb_bytes b w"
      have "use_count a w' = 1" if "ssb_capacity a w < n"
      proof -
        have fresh: "assets w (next_storage w) = None"
          using heap_ok_rules(1) [OF ssb_invD(2) [OF assms(1)], of "next_storage w"] by (cases "assets w (next_storage w)") auto
        have "ssb_handle w b \<noteq> Some (Some (next_storage w))" for b
          using ssb.lives_while_referenced [OF assms(1), of "next_storage w"] fresh by (auto simp: dom_assets)
        then have "{b. ssb_handle w' b = Some (Some (next_storage w))} = {a}"
          using w'(3,5) that by (auto simp: ssb_handle_def)
        then show ?thesis using use_count_handles [OF w'(2), of a u "next_storage w"] w'(3,5) that by simp
      qed
      then show ?thesis using w' v True by (intro exI [of _ w']) (auto simp: ssb_offset_def ssb_size_def)
    qed
  next
    case False
    then show ?thesis using assms v by (intro exI [of _ w]) (simp add: ssb_resize_def ssb_offset_def)
  qed
qed

theorem resize_detaches_witness:
  "\<exists>w1 w2. ssb_copy_ctor 2 1 ssb_demo_world = Ok () w1 \<and> ssb_resize True True 9 2 8 w1 = Ok () w2 \<and>
     ssb_bytes 1 w2 = [Some 10, Some 11, Some 12, Some 13] \<and> use_count 2 w2 = 1"
proof -
  have v: "views ssb_demo_world 1 = Some \<lparr>m_storage = Some 0, m_offset = 0, m_ssize = 4\<rparr>" "views ssb_demo_world 2 = None"
    "views ssb_demo_world 9 = None" "ssb_bytes 1 ssb_demo_world = [Some 10, Some 11, Some 12, Some 13]"
    by (simp_all add: ssb_demo_world_def ssb_eval ssb_bytes_def view_bytes_def)
  define w1 where "w1 = the_state (ssb_copy_ctor 2 1 ssb_demo_world)"
  have w1: "ssb_copy_ctor 2 1 ssb_demo_world = Ok () w1" "ssb_inv w1"
    "views w1 = (views ssb_demo_world)(2 \<mapsto> \<lparr>m_storage = Some 0, m_offset = 0, m_ssize = 4\<rparr>)" "kept ssb_demo_world w1"
    by (rule ssb_copy_ctor_Ok [OF ssb_demo_world_inv v(2,1)], simp add: w1_def)+
  have "ssb_bytes 1 w1 = [Some 10, Some 11, Some 12, Some 13]"
    using kept_bytes [OF w1(2,4), of 1] w1(3) v by (simp add: ssb_bytes_def)
  moreover have "ssb_capacity 2 w1 = 4"
    by (simp add: w1_def ssb_demo_world_def ssb_eval)
  ultimately show ?thesis using resize_detaches [OF w1(2), of 2 9 8] w1(1,3) v(1,3)
    by (auto simp: ssb_offset_def)
qed

end
