(* ===== verification/Bfc_Buffer_Views.thy ===== *)
theory Bfc_Buffer_Views
  imports Bfc_Shared_Buffer
begin

text \<open>
  The views of \<open>src/src/bfc/buffer.hpp\<close>: \<open>simple_buffer_view\<close>, a pointer and a size, and
  \<open>simple_shared_buffer_view\<close>, a \<open>std::shared_ptr\<close> to a buffer with an offset and a size. The control block
  of a \<open>std::shared_ptr\<close> counts its handles, which are the views and the plain pointers of the client; the
  buffer it owns is an object of the memory of \<open>Bfc_Memory\<close> and is destroyed with the last handle. Both
  kinds of handle interpret the locale \<open>shared_handles\<close>.
\<close>

section \<open>Buffer views\<close>

record simple_buffer_view =
  bv_size :: size_t
  bv_data :: "(nat \<times> size_t) option"

definition bv_default :: simple_buffer_view where
  "bv_default = \<lparr>bv_size = 0, bv_data = None\<rparr>"

text \<open>The constructor and the assignment from anything with \<open>size()\<close> and \<open>data()\<close>, here from a buffer.\<close>

definition bv_from_buffer :: "addr \<Rightarrow> memory \<Rightarrow> simple_buffer_view" where
  "bv_from_buffer a w = \<lparr>bv_size = buf_size a w, bv_data = map_option (\<lambda>p. (p, 0)) (buf_data a w)\<rparr>"

definition bv_assign_buffer :: "addr \<Rightarrow> memory \<Rightarrow> simple_buffer_view \<Rightarrow> simple_buffer_view" where
  "bv_assign_buffer a w v = v\<lparr>bv_size := buf_size a w, bv_data := map_option (\<lambda>p. (p, 0)) (buf_data a w)\<rparr>"

definition bv_new :: "(nat \<times> size_t) option \<Rightarrow> size_t \<Rightarrow> simple_buffer_view" where
  "bv_new data n = \<lparr>bv_size = n, bv_data = data\<rparr>"

definition bv_empty :: "simple_buffer_view \<Rightarrow> bool" where
  "bv_empty v \<longleftrightarrow> bv_size v = 0"

text \<open>\<open>view()\<close> of a \<open>shared_sized_buffer\<close>.\<close>

definition ssb_view :: "addr \<Rightarrow> shared_world \<Rightarrow> simple_buffer_view" where
  "ssb_view a w = bv_new (map_option (\<lambda>(p, off). (the p, off)) (ssb_data a w)) (ssb_size a w)"

text \<open>The bytes a view shows.\<close>

definition bv_bytes :: "memory \<Rightarrow> simple_buffer_view \<Rightarrow> byte option list" where
  "bv_bytes w v = (case bv_data v of None \<Rightarrow> [] | Some (p, off) \<Rightarrow> take (bv_size v) (drop off (the (blocks w p))))"

section \<open>Shared buffer views\<close>

record shared_view =
  sv_buffer :: "nat option"
  sv_offset :: size_t
  sv_size :: size_t

record control_block =
  cb_buffer :: addr
  cb_count :: int

datatype handle_obj = Shared_ptr "nat option" | Shared_view shared_view

record view_world =
  vw_mem :: memory
  ctrls :: "nat \<rightharpoonup> control_block"
  next_ctrl :: nat
  objs :: "addr \<rightharpoonup> handle_obj"

definition target :: "handle_obj \<Rightarrow> nat option" where
  "target h = (case h of Shared_ptr k \<Rightarrow> k | Shared_view v \<Rightarrow> sv_buffer v)"

definition put_obj :: "addr \<Rightarrow> handle_obj \<Rightarrow> view_world \<Rightarrow> view_world" where
  "put_obj a h w = w\<lparr>objs := (objs w)(a \<mapsto> h)\<rparr>"

text \<open>Copying and destroying a \<open>std::shared_ptr\<close>; the last one destroys the buffer.\<close>

definition sp_acquire :: "nat option \<Rightarrow> view_world \<Rightarrow> (view_world, unit) result" where
  "sp_acquire k w =
     (case k of
        None \<Rightarrow> Ok () w
      | Some c \<Rightarrow>
          (case ctrls w c of
             None \<Rightarrow> Throw Undefined_behaviour w
           | Some cb \<Rightarrow> Ok () (w\<lparr>ctrls := (ctrls w)(c \<mapsto> cb\<lparr>cb_count := cb_count cb + 1\<rparr>)\<rparr>)))"

definition sp_release :: "nat option \<Rightarrow> view_world \<Rightarrow> (view_world, unit) result" where
  "sp_release k w =
     (case k of
        None \<Rightarrow> Ok () w
      | Some c \<Rightarrow>
          (case ctrls w c of
             None \<Rightarrow> Throw Undefined_behaviour w
           | Some cb \<Rightarrow>
               (if cb_count cb = 1 then
                  (case buf_dtor (cb_buffer cb) (vw_mem w) of
                     Ok _ m \<Rightarrow> Ok () (w\<lparr>vw_mem := m, ctrls := (ctrls w)(c := None)\<rparr>)
                   | Throw e m \<Rightarrow> Throw e (w\<lparr>vw_mem := m\<rparr>))
                else Ok () (w\<lparr>ctrls := (ctrls w)(c \<mapsto> cb\<lparr>cb_count := cb_count cb - 1\<rparr>)\<rparr>))))"

text \<open>A \<open>std::shared_ptr\<close> at \<open>a\<close> that takes over the buffer at \<open>b\<close>.\<close>

definition sp_new :: "addr \<Rightarrow> addr \<Rightarrow> view_world \<Rightarrow> view_world" where
  "sp_new a b w =
     put_obj a (Shared_ptr (Some (next_ctrl w)))
       (w\<lparr>ctrls := (ctrls w)(next_ctrl w \<mapsto> \<lparr>cb_buffer = b, cb_count = 1\<rparr>), next_ctrl := next_ctrl w + 1\<rparr>)"

definition sv_default :: "addr \<Rightarrow> view_world \<Rightarrow> view_world" where
  "sv_default a w = put_obj a (Shared_view \<lparr>sv_buffer = None, sv_offset = 0, sv_size = 0\<rparr>) w"

text \<open>The two constructors from a \<open>std::shared_ptr\<close> (a copy of the one at \<open>p\<close>); a null one is undefined behaviour.\<close>

definition sv_from_ptr :: "addr \<Rightarrow> addr \<Rightarrow> view_world \<Rightarrow> (view_world, unit) result" where
  "sv_from_ptr a p w =
     (case objs w p of
        Some (Shared_ptr (Some c)) \<Rightarrow>
          rbind (sp_acquire (Some c) w) (\<lambda>_ w.
            Ok () (put_obj a (Shared_view \<lparr>sv_buffer = Some c, sv_offset = 0,
              sv_size = buf_size (cb_buffer (the (ctrls w c))) (vw_mem w)\<rparr>) w))
      | _ \<Rightarrow> Throw Undefined_behaviour w)"

definition sv_from_ptr_at :: "addr \<Rightarrow> size_t \<Rightarrow> size_t \<Rightarrow> addr \<Rightarrow> view_world \<Rightarrow> (view_world, unit) result" where
  "sv_from_ptr_at a offset n p w =
     (case objs w p of
        Some (Shared_ptr k) \<Rightarrow>
          rbind (sp_acquire k w) (\<lambda>_ w. Ok () (put_obj a (Shared_view \<lparr>sv_buffer = k, sv_offset = offset, sv_size = n\<rparr>) w))
      | _ \<Rightarrow> Throw Undefined_behaviour w)"

text \<open>The copy constructors: of a pointer, of a view, of a const view from a view.\<close>

definition h_copy_ctor :: "addr \<Rightarrow> addr \<Rightarrow> view_world \<Rightarrow> (view_world, unit) result" where
  "h_copy_ctor a p_other w =
     (case objs w p_other of
        None \<Rightarrow> Throw Undefined_behaviour w
      | Some h \<Rightarrow> rbind (sp_acquire (target h) w) (\<lambda>_ w. Ok () (put_obj a h w)))"

definition sv_copy_assign :: "addr \<Rightarrow> addr \<Rightarrow> view_world \<Rightarrow> (view_world, unit) result" where
  "sv_copy_assign a p_other w =
     (case (objs w a, objs w p_other) of
        (Some (Shared_view d), Some (Shared_view v)) \<Rightarrow>
          rbind (sp_acquire (sv_buffer v) w) (\<lambda>_ w.
          rbind (sp_release (sv_buffer d) (put_obj a (Shared_view (d\<lparr>sv_buffer := sv_buffer v\<rparr>)) w)) (\<lambda>_ w.
            Ok () (put_obj a (Shared_view v) w)))
      | _ \<Rightarrow> Throw Undefined_behaviour w)"

definition h_dtor :: "addr \<Rightarrow> view_world \<Rightarrow> (view_world, unit) result" where
  "h_dtor a w =
     (case objs w a of
        None \<Rightarrow> Throw Undefined_behaviour w
      | Some h \<Rightarrow> sp_release (target h) (w\<lparr>objs := (objs w)(a := None)\<rparr>))"

definition sv_view :: "addr \<Rightarrow> size_t \<Rightarrow> size_t \<Rightarrow> view_world \<Rightarrow> (view_world, unit) result" where
  "sv_view a offset n w =
     (case objs w a of
        Some (Shared_view v) \<Rightarrow> Ok () (put_obj a (Shared_view (v\<lparr>sv_offset := offset, sv_size := n\<rparr>)) w)
      | _ \<Rightarrow> Throw Undefined_behaviour w)"

text \<open>\<open>data()\<close> dereferences the pointer; \<open>get_shared_buffer\<close> constructs a pointer at \<open>p\<close>.\<close>

definition sv_data :: "shared_view \<Rightarrow> view_world \<Rightarrow> (view_world, (nat \<times> size_t) option) result" where
  "sv_data v w =
     (case sv_buffer v of
        None \<Rightarrow> Throw Undefined_behaviour w
      | Some c \<Rightarrow> Ok (map_option (\<lambda>p. (p, sv_offset v)) (buf_data (cb_buffer (the (ctrls w c))) (vw_mem w))) w)"

definition sv_empty :: "shared_view \<Rightarrow> bool" where
  "sv_empty v \<longleftrightarrow> sv_buffer v = None \<or> sv_size v = 0"

definition get_shared_buffer :: "addr \<Rightarrow> addr \<Rightarrow> view_world \<Rightarrow> (view_world, unit) result" where
  "get_shared_buffer p a w =
     (case objs w a of
        Some (Shared_view v) \<Rightarrow> rbind (sp_acquire (sv_buffer v) w) (\<lambda>_ w. Ok () (put_obj p (Shared_ptr (sv_buffer v)) w))
      | _ \<Rightarrow> Throw Undefined_behaviour w)"

section \<open>Invariant\<close>

definition vw_handle :: "view_world \<Rightarrow> addr \<Rightarrow> nat option option" where
  "vw_handle w a = map_option target (objs w a)"

definition vw_count :: "view_world \<Rightarrow> nat \<Rightarrow> int option" where
  "vw_count w c = map_option cb_count (ctrls w c)"

definition vw_inv :: "view_world \<Rightarrow> bool" where
  "vw_inv w \<longleftrightarrow> rc_ok (vw_handle w) (vw_count w) \<and> mem_wf (vw_mem w) \<and>
     (\<forall>c cb. ctrls w c = Some cb \<longrightarrow> c < next_ctrl w \<and> bufs (vw_mem w) (cb_buffer cb) \<noteq> None) \<and>
     (\<forall>c cb c' cb'. ctrls w c = Some cb \<longrightarrow> ctrls w c' = Some cb' \<longrightarrow> cb_buffer cb = cb_buffer cb' \<longrightarrow> c = c')"

lemma vw_sel [simp]:
  "vw_handle (put_obj a h w) = (vw_handle w)(a \<mapsto> target h)" "vw_count (put_obj a h w) = vw_count w"
  "vw_handle (w\<lparr>objs := (objs w)(a := None)\<rparr>) = (vw_handle w)(a := None)" "vw_count (w\<lparr>objs := V\<rparr>) = vw_count w"
  "vw_handle (w\<lparr>ctrls := C\<rparr>) = vw_handle w" "vw_handle (w\<lparr>vw_mem := m\<rparr>) = vw_handle w"
  "ctrls (put_obj a h w) = ctrls w" "vw_mem (put_obj a h w) = vw_mem w" "next_ctrl (put_obj a h w) = next_ctrl w"
  "objs (put_obj a h w) = (objs w)(a \<mapsto> h)"
  by (auto simp: vw_handle_def vw_count_def put_obj_def)

lemma vw_ctrl:
  assumes "vw_inv w" "objs w a = Some h" "target h = Some c"
  obtains cb b where "ctrls w c = Some cb" "1 \<le> cb_count cb" "bufs (vw_mem w) (cb_buffer cb) = Some b"
proof -
  obtain n where "n \<ge> 1" "vw_count w c = Some n"
    using rc_live [of "vw_handle w" "vw_count w" a c] assms by (auto simp: vw_handle_def vw_inv_def)
  then obtain cb where cb: "ctrls w c = Some cb" "1 \<le> cb_count cb" by (auto simp: vw_count_def)
  moreover obtain b where "bufs (vw_mem w) (cb_buffer cb) = Some b" using assms(1) cb(1) unfolding vw_inv_def by blast
  ultimately show ?thesis using that by blast
qed

lemma sp_acquire_Ok:
  assumes inv: "vw_inv w" and src: "objs w p = Some h" and a: "objs w a = None"
  obtains w' where "sp_acquire (target h) w = Ok () w'" "objs w' = objs w" "vw_mem w' = vw_mem w"
    "map_option cb_buffer \<circ> ctrls w' = map_option cb_buffer \<circ> ctrls w"
    "\<And>x. target x = target h \<Longrightarrow> vw_inv (put_obj a x w')"
proof (cases "target h")
  case None
  have "vw_inv (put_obj a x w)" if "target x = target h" for x
  proof -
    have "rc_ok ((vw_handle w)(a \<mapsto> target x)) (vw_count w)"
      by (rule rc_null) (use inv a None that in \<open>auto simp: vw_inv_def vw_handle_def\<close>)
    then show ?thesis using inv by (simp add: vw_inv_def)
  qed
  then show ?thesis using None by (intro that [of w]) (simp_all add: sp_acquire_def)
next
  case (Some c)
  obtain cb where cb: "ctrls w c = Some cb" by (rule vw_ctrl [OF inv src Some])
  let ?w = "w\<lparr>ctrls := (ctrls w)(c \<mapsto> cb\<lparr>cb_count := cb_count cb + 1\<rparr>)\<rparr>"
  have "vw_inv (put_obj a x ?w)" if x: "target x = target h" for x
  proof -
    have "vw_count ?w = (vw_count w)(c \<mapsto> cb_count cb + 1)" by (auto simp: vw_count_def)
    moreover have "rc_ok ((vw_handle w)(a \<mapsto> Some c)) ((vw_count w)(c \<mapsto> cb_count cb + 1))"
      by (rule rc_acquire) (use inv a cb in \<open>auto simp: vw_inv_def vw_handle_def vw_count_def\<close>)
    ultimately show ?thesis using inv cb x Some by (auto simp: vw_inv_def split: if_splits)
  qed
  then show ?thesis using Some cb by (intro that [of ?w]) (auto simp: sp_acquire_def)
qed

lemma sp_release_objs:
  "sp_release k (w\<lparr>objs := V\<rparr>) =
     (case sp_release k w of Ok u w' \<Rightarrow> Ok u (w'\<lparr>objs := V\<rparr>) | Throw e w' \<Rightarrow> Throw e (w'\<lparr>objs := V\<rparr>))"
  by (cases w) (simp add: sp_release_def split: option.split result.split)

lemma sp_release_Ok:
  assumes inv: "vw_inv w" and a: "objs w a = Some h"
  obtains w' where "sp_release (target h) w = Ok () w'" "objs w' = objs w" "vw_inv (w'\<lparr>objs := (objs w)(a := None)\<rparr>)"
proof (cases "target h")
  case None
  have "rc_ok ((vw_handle w)(a := None)) (vw_count w)"
    by (rule rc_null) (use inv a None in \<open>auto simp: vw_inv_def vw_handle_def\<close>)
  then have "vw_inv (w\<lparr>objs := (objs w)(a := None)\<rparr>)" using inv by (simp add: vw_inv_def)
  then show ?thesis using None by (intro that [of w]) (simp_all add: sp_release_def)
next
  case (Some c)
  obtain cb b where cb: "ctrls w c = Some cb" "1 \<le> cb_count cb" "bufs (vw_mem w) (cb_buffer cb) = Some b" by (rule vw_ctrl [OF inv a Some])
  have rc: "rc_ok ((vw_handle w)(a := None)) (if cb_count cb = 1 then (vw_count w)(c := None) else (vw_count w)(c \<mapsto> cb_count cb - 1))"
    by (rule rc_release) (use inv a Some cb in \<open>auto simp: vw_inv_def vw_handle_def vw_count_def\<close>)
  show ?thesis
  proof (cases "cb_count cb = 1")
    case False
    let ?w = "w\<lparr>ctrls := (ctrls w)(c \<mapsto> cb\<lparr>cb_count := cb_count cb - 1\<rparr>)\<rparr>"
    have "vw_count ?w = (vw_count w)(c \<mapsto> cb_count cb - 1)" "vw_handle (?w\<lparr>objs := (objs w)(a := None)\<rparr>) = (vw_handle w)(a := None)"
      by (auto simp: vw_count_def vw_handle_def)
    then have "vw_inv (?w\<lparr>objs := (objs w)(a := None)\<rparr>)" using rc False inv cb by (auto simp: vw_inv_def split: if_splits)
    then show ?thesis using False Some cb by (intro that [of ?w]) (simp_all add: sp_release_def)
  next
    case True
    have wf: "mem_wf (vw_mem w)" using inv by (simp add: vw_inv_def)
    show ?thesis
    proof (rule buf_dtor_Ok [OF wf cb(3)])
      fix m assume m: "buf_dtor (cb_buffer cb) (vw_mem w) = Ok () m" "mem_wf m" "bufs m = (bufs (vw_mem w))(cb_buffer cb := None)"
      let ?w = "w\<lparr>vw_mem := m, ctrls := (ctrls w)(c := None)\<rparr>"
      have "vw_count ?w = (vw_count w)(c := None)" "vw_handle (?w\<lparr>objs := (objs w)(a := None)\<rparr>) = (vw_handle w)(a := None)"
        by (auto simp: vw_count_def vw_handle_def)
      then have "vw_inv (?w\<lparr>objs := (objs w)(a := None)\<rparr>)" using rc True inv m cb by (auto simp: vw_inv_def split: if_splits)
      then show ?thesis using True Some cb m by (intro that [of ?w]) (simp_all add: sp_release_def)
    qed
  qed
qed

interpretation sv: shared_handles vw_handle vw_count vw_inv h_copy_ctor h_dtor
proof
  show "\<exists>w'. h_copy_ctor dst src w = Ok () w' \<and> vw_inv w' \<and> vw_handle w' = (vw_handle w)(dst \<mapsto> k)"
    if w: "vw_inv w" "vw_handle w dst = None" "vw_handle w src = Some k" for w dst src k
  proof -
    obtain h where h: "objs w dst = None" "objs w src = Some h" "target h = k" using w by (auto simp: vw_handle_def)
    show ?thesis
      by (rule sp_acquire_Ok [OF w(1) h(2,1)]) (auto simp: h_copy_ctor_def h(2,3) vw_handle_def fun_eq_iff)
  qed
  show "\<exists>w'. h_dtor a w = Ok () w' \<and> vw_inv w' \<and> vw_handle w' = (vw_handle w)(a := None)"
    if w: "vw_inv w" "vw_handle w a = Some k" for w a k
  proof -
    obtain h where h: "objs w a = Some h" using w by (auto simp: vw_handle_def)
    show ?thesis by (rule sp_release_Ok [OF w(1) h]) (auto simp: h_dtor_def h sp_release_objs vw_handle_def fun_eq_iff)
  qed
qed (simp add: vw_inv_def)

section \<open>Properties\<close>

lemma sp_new_inv:
  assumes inv: "vw_inv w" and a: "objs w a = None" and b: "bufs (vw_mem w) b \<noteq> None"
    and new: "\<And>c cb. ctrls w c = Some cb \<Longrightarrow> cb_buffer cb \<noteq> b"
  shows "vw_inv (sp_new a b w)"
proof -
  have "ctrls w (next_ctrl w) = None" using inv by (cases "ctrls w (next_ctrl w)") (auto simp: vw_inv_def)
  then have "rc_ok ((vw_handle w)(a \<mapsto> Some (next_ctrl w))) ((vw_count w)(next_ctrl w \<mapsto> 1))"
    by (intro rc_fresh) (use inv a in \<open>auto simp: vw_inv_def vw_handle_def vw_count_def\<close>)
  moreover have "vw_handle (sp_new a b w) = (vw_handle w)(a \<mapsto> Some (next_ctrl w))"
    "vw_count (sp_new a b w) = (vw_count w)(next_ctrl w \<mapsto> 1)"
    by (auto simp: sp_new_def vw_handle_def vw_count_def target_def put_obj_def)
  ultimately show ?thesis using inv b new unfolding vw_inv_def
    by (auto simp: sp_new_def less_SucI split: if_splits)
qed

lemma sv_from_ptr_Ok:
  assumes "vw_inv w" "objs w p = Some (Shared_ptr (Some c))" "objs w a = None"
  shows "\<exists>w'. sv_from_ptr a p w = Ok () w' \<and> vw_inv w'"
proof (rule sp_acquire_Ok [OF assms])
  fix w' assume "sp_acquire (target (Shared_ptr (Some c))) w = Ok () w'"
    "\<And>x. target x = target (Shared_ptr (Some c)) \<Longrightarrow> vw_inv (put_obj a x w')"
  then show ?thesis using assms(2) by (simp add: sv_from_ptr_def target_def)
qed

text \<open>
  The buffers that handles share, and the buffers of everyone else: destroying a handle never touches the latter.
\<close>

definition vw_shared :: "view_world \<Rightarrow> addr set" where
  "vw_shared w = cb_buffer ` ran (ctrls w)"

definition vw_rest :: "view_world \<Rightarrow> addr \<rightharpoonup> simple_buffer" where
  "vw_rest w = bufs (vw_mem w) |` (- vw_shared w)"

lemma vw_shared_iff: "b \<in> vw_shared w \<longleftrightarrow> (\<exists>c cb. ctrls w c = Some cb \<and> cb_buffer cb = b)"
  by (auto simp: vw_shared_def ran_def)

lemma vw_shared_count:
  assumes "ctrls w c = Some cb" "ctrls w' = (ctrls w)(c \<mapsto> cb\<lparr>cb_count := n\<rparr>)"
  shows "vw_shared w' = vw_shared w"
proof (rule set_eqI)
  fix b
  show "b \<in> vw_shared w' \<longleftrightarrow> b \<in> vw_shared w"
    unfolding vw_shared_iff using assms by (cases "cb_buffer cb = b") (auto split: if_splits, metis option.inject)
qed

lemma vw_shared_last:
  assumes "vw_inv w" "ctrls w c = Some cb"
    and "ctrls w' = (ctrls w)(c := None)"
  shows "vw_shared w' = vw_shared w - {cb_buffer cb}"
proof -
  have "cb_buffer cb' \<noteq> cb_buffer cb" if "ctrls w c' = Some cb'" "c' \<noteq> c" for c' cb'
    using assms that unfolding vw_inv_def by blast
  then show ?thesis using assms(2,3) by (intro set_eqI) (auto simp: vw_shared_iff split: if_splits, metis option.inject)
qed

lemma h_dtor_rest:
  assumes inv: "vw_inv w" and h: "objs w a = Some h" and d: "h_dtor a w = Ok () w'"
  shows "vw_rest w' = vw_rest w"
proof (cases "target h")
  case None
  then show ?thesis using d by (auto simp: h_dtor_def h sp_release_def vw_rest_def vw_shared_def)
next
  case (Some c)
  obtain cb b where cb: "ctrls w c = Some cb" "bufs (vw_mem w) (cb_buffer cb) = Some b" by (rule vw_ctrl [OF inv h Some])
  show ?thesis
  proof (cases "cb_count cb = 1")
    case False
    then have "w' = w\<lparr>objs := (objs w)(a := None), ctrls := (ctrls w)(c \<mapsto> cb\<lparr>cb_count := cb_count cb - 1\<rparr>)\<rparr>"
      using d Some by (simp add: h_dtor_def h sp_release_def cb)
    then show ?thesis using vw_shared_count [OF cb(1), of w'] by (simp add: vw_rest_def)
  next
    case True
    have "mem_wf (vw_mem w)" using inv by (simp add: vw_inv_def)
    then show ?thesis
    proof (rule buf_dtor_Ok [OF _ cb(2)])
      fix m assume m: "buf_dtor (cb_buffer cb) (vw_mem w) = Ok () m" "bufs m = (bufs (vw_mem w))(cb_buffer cb := None)"
      then have "w' = w\<lparr>objs := (objs w)(a := None), vw_mem := m, ctrls := (ctrls w)(c := None)\<rparr>"
        using d Some True by (simp add: h_dtor_def h sp_release_def cb)
      moreover have "cb_buffer cb \<in> vw_shared w" using cb(1) vw_shared_iff by blast
      ultimately show ?thesis using vw_shared_last [OF inv cb(1), of w'] m(2)
        by (auto simp: vw_rest_def restrict_map_def fun_eq_iff)
    qed
  qed
qed

lemma rfold_h_dtor_rest:
  "vw_inv w \<Longrightarrow> distinct as \<Longrightarrow> set as \<subseteq> dom (objs w) \<Longrightarrow> rfold h_dtor as w = Ok () w' \<Longrightarrow> vw_rest w' = vw_rest w"
proof (induction as arbitrary: w)
  case (Cons a as)
  then obtain h where h: "objs w a = Some h" by auto
  then have "vw_handle w a = Some (target h)" by (simp add: vw_handle_def)
  then obtain w1 where w1: "h_dtor a w = Ok () w1" "vw_inv w1" "vw_handle w1 = (vw_handle w)(a := None)"
    using sv.destroys [OF Cons.prems(1)] by blast
  have dom: "dom (vw_handle x) = dom (objs x)" for x by (auto simp: vw_handle_def)
  have "set as \<subseteq> dom (objs w1)" using Cons.prems(2,3) w1(3) dom [of w1] dom [of w] by auto
  then have "vw_rest w' = vw_rest w1" using Cons w1 by simp
  then show ?case using h_dtor_rest [OF Cons.prems(1) h w1(1)] by simp
qed simp

lemma copy_then_dtor_mem:
  assumes inv: "vw_inv w" and h: "objs w src = Some h" "target h = Some c" and dst: "objs w dst = None"
    and run: "h_copy_ctor dst src w = Ok () w1" "h_dtor src w1 = Ok () w2"
  shows "vw_mem w2 = vw_mem w \<and> vw_shared w2 = vw_shared w"
proof -
  obtain cb where cb: "ctrls w c = Some cb" "1 \<le> cb_count cb" by (rule vw_ctrl [OF inv h])
  have ne: "dst \<noteq> src" using h(1) dst by auto
  let ?up = "\<lambda>n. (ctrls w)(c \<mapsto> cb\<lparr>cb_count := n\<rparr>)"
  have w1: "w1 = put_obj dst h (w\<lparr>ctrls := ?up (cb_count cb + 1)\<rparr>)"
    using run(1) by (simp add: h_copy_ctor_def h sp_acquire_def cb)
  then have "vw_mem w2 = vw_mem w" "ctrls w2 = ?up (cb_count cb)"
    using run(2) ne cb(2) h by (auto simp: h_dtor_def sp_release_def put_obj_def split: if_splits)
  then show ?thesis using vw_shared_count [OF cb(1), of w2 "cb_count cb"] by simp
qed

text \<open>C30. A copy of a shared view or pointer keeps the buffer alive when the original is destroyed: the use count is
  unchanged and no memory is touched. Destroying every handle, in any order, destroys exactly the shared
  buffers, each once: none of them is left, every other buffer is as it was, no control block is left,
  nothing is undefined (a second destruction of a buffer would be), and every block of memory that
  remains has its owner, so the blocks of the shared buffers were given back.\<close>

theorem shared_view_keeps_buffer:
  assumes "vw_inv w" "objs w src = Some h" "target h = Some c" "objs w dst = None"
  shows "\<exists>w1 w2. h_copy_ctor dst src w = Ok () w1 \<and> h_dtor src w1 = Ok () w2 \<and> vw_count w2 c = vw_count w c \<and>
    vw_mem w2 = vw_mem w \<and> (\<exists>cb. ctrls w2 c = Some cb \<and> bufs (vw_mem w2) (cb_buffer cb) \<noteq> None) \<and>
    (\<forall>as. distinct as \<and> set as = dom (objs w2) \<longrightarrow>
      (\<exists>w3. rfold h_dtor as w2 = Ok () w3 \<and> ctrls w3 = Map.empty \<and> objs w3 = Map.empty \<and>
        bufs (vw_mem w3) = bufs (vw_mem w) |` (- vw_shared w) \<and> mem_wf (vw_mem w3)))"
proof -
  have "vw_handle w dst = None" "vw_handle w src = Some (Some c)" using assms by (simp_all add: vw_handle_def)
  from sv.copy_outlives_original [OF assms(1) this] obtain w1 w2 where
    w: "h_copy_ctor dst src w = Ok () w1" "h_dtor src w1 = Ok () w2" "vw_inv w2" "vw_count w2 c = vw_count w c"
      "vw_handle w2 dst = Some (Some c)" by blast
  have same: "vw_mem w2 = vw_mem w" "vw_shared w2 = vw_shared w" using copy_then_dtor_mem [OF assms w(1,2)] by simp_all
  obtain h' where "objs w2 dst = Some h'" "target h' = Some c" using w(5) by (auto simp: vw_handle_def)
  then obtain cb b where cb: "ctrls w2 c = Some cb" "bufs (vw_mem w2) (cb_buffer cb) = Some b" by (rule vw_ctrl [OF w(3)])
  have "\<exists>w3. rfold h_dtor as w2 = Ok () w3 \<and> ctrls w3 = Map.empty \<and> objs w3 = Map.empty \<and>
      bufs (vw_mem w3) = bufs (vw_mem w) |` (- vw_shared w) \<and> mem_wf (vw_mem w3)"
    if as: "distinct as" "set as = dom (objs w2)" for as
  proof -
    have "dom (vw_handle w2) = dom (objs w2)" by (auto simp: vw_handle_def)
    then obtain w3 where w3: "rfold h_dtor as w2 = Ok () w3" "vw_inv w3" "vw_handle w3 = Map.empty" "vw_count w3 = Map.empty"
      using sv.destroys_all [OF w(3) as(1)] as(2) by auto
    then have e: "ctrls w3 = Map.empty" "objs w3 = Map.empty" by (auto simp: vw_handle_def vw_count_def fun_eq_iff)
    have "vw_rest w3 = vw_rest w2" using rfold_h_dtor_rest [OF w(3) as(1) _ w3(1)] as(2) by simp
    then have "bufs (vw_mem w3) = bufs (vw_mem w) |` (- vw_shared w)"
      by (simp add: vw_rest_def same) (simp add: vw_shared_def e restrict_map_def)
    then show ?thesis using w3 e by (simp add: vw_inv_def)
  qed
  then show ?thesis using w cb same by blast
qed

definition view_demo :: view_world where
  "view_demo = sp_new 5 1
     \<lparr>vw_mem = the_state (mem_exec (Buffer_new True 1 8) memory_empty), ctrls = Map.empty, next_ctrl = 0, objs = Map.empty\<rparr>"

theorem shared_view_keeps_buffer_witness:
  "\<exists>w1 w2. sv_from_ptr 6 5 view_demo = Ok () w1 \<and> h_copy_ctor 7 6 w1 = Ok () w2 \<and> vw_count w2 0 = Some 3 \<and>
     (\<exists>w3. h_dtor 6 w2 = Ok () w3 \<and> vw_count w3 0 = vw_count w1 0)"
proof -
  have "mem_prog_ok [Buffer_new True 1 8] memory_empty" by (simp add: mem_prog_eval)
  from mem_prog_good [OF mem_inv_empty this]
  have wf: "mem_wf (the_state (mem_exec (Buffer_new True 1 8) memory_empty))"
    by (auto simp: mem_good_def mem_inv_def mem_prog_eval)
  have "rc_ok (\<lambda>a. None :: nat option option) (\<lambda>c. None)" by (simp add: rc_ok_def handles_of_def)
  moreover have "vw_handle w = (\<lambda>a. None)" "vw_count w = (\<lambda>c. None)" if "objs w = Map.empty" "ctrls w = Map.empty" for w
    using that by (auto simp: vw_handle_def vw_count_def)
  ultimately have "vw_inv view_demo" unfolding view_demo_def
    by (intro sp_new_inv) (use wf in \<open>simp_all add: vw_inv_def new_array_def buf_new_def\<close>)
  moreover define w1 where "w1 = the_state (sv_from_ptr 6 5 view_demo)"
  have e: "sv_from_ptr 6 5 view_demo = Ok () w1" "objs view_demo 5 = Some (Shared_ptr (Some 0))" "objs view_demo 6 = None"
    by (simp_all add: w1_def sv_from_ptr_def view_demo_def sp_new_def put_obj_def sp_acquire_def)
  ultimately have "vw_inv w1" using sv_from_ptr_Ok [of view_demo 5 0 6] by auto
  moreover have "\<exists>v. objs w1 6 = Some (Shared_view v) \<and> target (Shared_view v) = Some 0" "objs w1 7 = None"
    by (simp_all add: w1_def sv_from_ptr_def view_demo_def sp_new_def put_obj_def sp_acquire_def target_def)
  moreover have "\<exists>w2. h_copy_ctor 7 6 w1 = Ok () w2 \<and> vw_count w2 0 = Some 3"
    by (simp add: w1_def sv_from_ptr_def view_demo_def sp_new_def put_obj_def sp_acquire_def target_def h_copy_ctor_def vw_count_def)
  ultimately show ?thesis using e(1) shared_view_keeps_buffer [of w1 6 _ 0 7] by fastforce
qed

end
