(* ===== verification/Bfc_Socket.thy ===== *)
theory Bfc_Socket
  imports Bfc_Prelude "HOL-Library.Multiset"
begin

text \<open>
  The sockets of \<open>src/src/bfc/socket.hpp\<close>: IPv4 addresses as words, the \<open>sockaddr\<close> builders and printer, and
  the class \<open>socket\<close>, which owns a descriptor.

  Fields in network byte order hold what a little-endian machine loads from memory, so \<open>htonl\<close> and
  \<open>htons\<close> reverse bytes. The text form of an IPv4 address is that of \<open>inet_pton\<close> and \<open>inet_ntop\<close>; that of an
  IPv6 address is a pair of arguments, the functions of the C library. System calls on a descriptor are
  values handed to a kernel that is an argument; opening and closing descriptors changes the table of
  open descriptors, from which the kernel hands out the lowest free number.
\<close>

section \<open>Addresses\<close>

definition to_ip :: "8 word \<Rightarrow> 8 word \<Rightarrow> 8 word \<Rightarrow> 8 word \<Rightarrow> 32 word" where
  "to_ip a b c d =
     (let rv = push_bit 24 (ucast a);
          rv = or rv (push_bit 16 (ucast b));
          rv = or rv (push_bit 8 (ucast c));
          rv = or rv (push_bit 0 (ucast d))
      in rv)"

definition localhost4 :: "32 word" where
  "localhost4 = to_ip 127 0 0 1"

definition byte_of :: "nat \<Rightarrow> 'a::len word \<Rightarrow> 8 word" where
  "byte_of i w = ucast (drop_bit (8 * i) w)"

definition htonl :: "32 word \<Rightarrow> 32 word" where
  "htonl w = to_ip (byte_of 0 w) (byte_of 1 w) (byte_of 2 w) (byte_of 3 w)"

definition htons :: "16 word \<Rightarrow> 16 word" where
  "htons w = or (push_bit 8 (ucast (byte_of 0 w))) (ucast (byte_of 1 w))"

definition ntohs :: "16 word \<Rightarrow> 16 word" where
  "ntohs w = htons w"

definition AF_INET :: "16 word" where "AF_INET = 2"
definition AF_INET6 :: "16 word" where "AF_INET6 = 10"

record sockaddr_in =
  sin_family :: "16 word"
  sin_port :: "16 word"
  sin_addr :: "32 word"

record sockaddr_in6 =
  sin6_family :: "16 word"
  sin6_port :: "16 word"
  sin6_addr :: "128 word"

datatype sockaddr = Sa_in sockaddr_in | Sa_in6 sockaddr_in6

definition ip4_port_to_sockaddr :: "32 word \<Rightarrow> 16 word \<Rightarrow> sockaddr_in" where
  "ip4_port_to_sockaddr ip port = \<lparr>sin_family = AF_INET, sin_port = htons port, sin_addr = htonl ip\<rparr>"

section \<open>Text\<close>

definition digit :: "nat \<Rightarrow> char" where
  "digit n = char_of (48 + n)"

fun decimal :: "nat \<Rightarrow> string" where
  "decimal n = (if n < 10 then [digit n] else decimal (n div 10) @ [digit (n mod 10)])"

declare decimal.simps [simp del]

definition digit_value :: "char \<Rightarrow> nat option" where
  "digit_value c = (let n = of_char c in if 48 \<le> n \<and> n < 58 then Some (n - 48) else None)"

text \<open>A number as \<open>inet_pton\<close> reads it: up to three digits, no leading zero, at most 255.\<close>

fun digits_value :: "nat \<Rightarrow> string \<Rightarrow> nat option" where
  "digits_value acc [] = Some acc"
| "digits_value acc (c # cs) = (case digit_value c of None \<Rightarrow> None | Some v \<Rightarrow> digits_value (acc * 10 + v) cs)"

definition octet :: "string \<Rightarrow> 8 word option" where
  "octet s =
     (if s = [] \<or> length s > 3 \<or> (length s > 1 \<and> hd s = CHR ''0'') then None
      else (case digits_value 0 s of None \<Rightarrow> None | Some v \<Rightarrow> if v > 255 then None else Some (of_nat v)))"

fun split_at :: "char \<Rightarrow> string \<Rightarrow> string list" where
  "split_at x [] = [[]]"
| "split_at x (c # cs) =
     (if c = x then [] # split_at x cs else (case split_at x cs of [] \<Rightarrow> [[c]] | w # ws \<Rightarrow> (c # w) # ws))"

text \<open>\<open>inet_pton(AF_INET, ...)\<close> on a C string; the bytes of the result are stored in the order they are written.\<close>

definition inet_pton4 :: "string \<Rightarrow> 32 word option" where
  "inet_pton4 s =
     (case split_at (CHR ''.'') s of
        [p, q, r, t] \<Rightarrow>
          (case (octet p, octet q, octet r, octet t) of
             (Some a, Some b, Some c, Some d) \<Rightarrow> Some (to_ip d c b a)
           | _ \<Rightarrow> None)
      | _ \<Rightarrow> None)"

definition inet_ntop4 :: "32 word \<Rightarrow> string" where
  "inet_ntop4 w =
     decimal (unat (byte_of 0 w)) @ ''.'' @ decimal (unat (byte_of 1 w)) @ ''.'' @
     decimal (unat (byte_of 2 w)) @ ''.'' @ decimal (unat (byte_of 3 w))"

definition c_str :: "string \<Rightarrow> string" where
  "c_str s = takeWhile (\<lambda>c. of_char c \<noteq> (0::nat)) s"

definition ip4_string_to_sockaddr :: "string \<Rightarrow> 16 word \<Rightarrow> sockaddr_in" where
  "ip4_string_to_sockaddr ip port =
     (let addr = \<lparr>sin_family = AF_INET, sin_port = htons port, sin_addr = 0\<rparr>
      in case inet_pton4 (c_str ip) of
           Some a \<Rightarrow> addr\<lparr>sin_addr := a\<rparr>
         | None \<Rightarrow> addr\<lparr>sin_family := 0\<rparr>)"

definition ip6_port_to_sockaddr :: "(string \<Rightarrow> 128 word option) \<Rightarrow> string \<Rightarrow> 16 word \<Rightarrow> sockaddr_in6" where
  "ip6_port_to_sockaddr inet_pton6 ip port =
     (let addr = \<lparr>sin6_family = AF_INET6, sin6_port = htons port, sin6_addr = 0\<rparr>
      in case inet_pton6 (c_str ip) of
           Some a \<Rightarrow> addr\<lparr>sin6_addr := a\<rparr>
         | None \<Rightarrow> addr\<lparr>sin6_family := 0\<rparr>)"

definition sa_family :: "sockaddr \<Rightarrow> 16 word" where
  "sa_family addr = (case addr of Sa_in a \<Rightarrow> sin_family a | Sa_in6 a \<Rightarrow> sin6_family a)"

text \<open>
  The printer chooses by the family field. Reading an address of one kind as the other is undefined
  (\<open>None\<close>); the output buffer holds 71 characters and the terminator.
\<close>

definition sockaddr_to_string :: "(128 word \<Rightarrow> string) \<Rightarrow> sockaddr \<Rightarrow> string option" where
  "sockaddr_to_string inet_ntop6 addr =
     map_option (\<lambda>(buffer, port). take 71 (buffer @ '':'' @ decimal (unat port)))
       (if sa_family addr = AF_INET then
          (case addr of Sa_in a \<Rightarrow> Some (inet_ntop4 (sin_addr a), ntohs (sin_port a)) | _ \<Rightarrow> None)
        else if sa_family addr = AF_INET6 then
          (case addr of Sa_in6 a \<Rightarrow> Some (inet_ntop6 (sin6_addr a), ntohs (sin6_port a)) | _ \<Rightarrow> None)
        else Some (''unknown_family'', 0))"

section \<open>The class\<close>

datatype domain = Inet | Inet6
datatype sock_type = Stream | Dgram

text \<open>System calls on the descriptor of a socket, as the kernel receives them.\<close>

datatype syscall =
    Sys_bind int sockaddr nat
  | Sys_sendto int "8 word list" int sockaddr nat
  | Sys_send int "8 word list" int
  | Sys_recvfrom int nat int
  | Sys_recv int nat int
  | Sys_setsockopt int int int "8 word list"
  | Sys_listen int int
  | Sys_connect int sockaddr nat

record socket =
  m_fd :: int

definition socket_default :: socket where
  "socket_default = \<lparr>m_fd = -1\<rparr>"

definition socket_of_fd :: "int \<Rightarrow> socket" where
  "socket_of_fd p_fd = \<lparr>m_fd = p_fd\<rparr>"

definition sk_fd :: "socket \<Rightarrow> int" where
  "sk_fd s = m_fd s"

definition sizeof_sockaddr :: "sockaddr \<Rightarrow> nat" where
  "sizeof_sockaddr addr = (case addr of Sa_in _ \<Rightarrow> 16 | Sa_in6 _ \<Rightarrow> 28)"

definition sk_bind_raw :: "(syscall \<Rightarrow> 'r) \<Rightarrow> sockaddr \<Rightarrow> nat \<Rightarrow> socket \<Rightarrow> 'r" where
  "sk_bind_raw sys p_addr p_size s = sys (Sys_bind (m_fd s) p_addr p_size)"

definition sk_bind :: "(syscall \<Rightarrow> 'r) \<Rightarrow> sockaddr \<Rightarrow> socket \<Rightarrow> 'r" where
  "sk_bind sys addr s = sk_bind_raw sys addr (sizeof_sockaddr addr) s"

definition sk_send_to :: "(syscall \<Rightarrow> 'r) \<Rightarrow> 8 word list \<Rightarrow> int \<Rightarrow> sockaddr \<Rightarrow> nat \<Rightarrow> socket \<Rightarrow> 'r" where
  "sk_send_to sys p_data p_flags p_to p_to_size s = sys (Sys_sendto (m_fd s) p_data p_flags p_to p_to_size)"

definition sk_send :: "(syscall \<Rightarrow> 'r) \<Rightarrow> 8 word list \<Rightarrow> int \<Rightarrow> socket \<Rightarrow> 'r" where
  "sk_send sys p_data p_flags s = sys (Sys_send (m_fd s) p_data p_flags)"

text \<open>What is received goes to the caller's buffer: at most its size.\<close>

definition sk_recv_from :: "(syscall \<Rightarrow> 'r) \<Rightarrow> 8 word list \<Rightarrow> int \<Rightarrow> socket \<Rightarrow> 'r" where
  "sk_recv_from sys p_data p_flags s = sys (Sys_recvfrom (m_fd s) (length p_data) p_flags)"

definition sk_recv :: "(syscall \<Rightarrow> 'r) \<Rightarrow> 8 word list \<Rightarrow> int \<Rightarrow> socket \<Rightarrow> 'r" where
  "sk_recv sys p_data p_flags s = sys (Sys_recv (m_fd s) (length p_data) p_flags)"

definition sk_set_sock_opt :: "(syscall \<Rightarrow> 'r) \<Rightarrow> int \<Rightarrow> int \<Rightarrow> 8 word list \<Rightarrow> socket \<Rightarrow> 'r" where
  "sk_set_sock_opt sys p_level p_name p_value s = sys (Sys_setsockopt (m_fd s) p_level p_name p_value)"

definition sk_listen :: "(syscall \<Rightarrow> 'r) \<Rightarrow> int \<Rightarrow> socket \<Rightarrow> 'r" where
  "sk_listen sys p_size s = sys (Sys_listen (m_fd s) p_size)"

definition sk_connect_raw :: "(syscall \<Rightarrow> 'r) \<Rightarrow> sockaddr \<Rightarrow> nat \<Rightarrow> socket \<Rightarrow> 'r" where
  "sk_connect_raw sys p_addr p_addr_sz s = sys (Sys_connect (m_fd s) p_addr p_addr_sz)"

definition sk_connect :: "(syscall \<Rightarrow> 'r) \<Rightarrow> sockaddr \<Rightarrow> socket \<Rightarrow> 'r" where
  "sk_connect sys addr s = sk_connect_raw sys addr (sizeof_sockaddr addr) s"

section \<open>Ownership\<close>

text \<open>
  The sockets of a program by name, the descriptors that are open, and the \<open>close\<close> calls that named a
  descriptor that is not open.
\<close>

record sock_world =
  w_socks :: "nat \<rightharpoonup> socket"
  w_open :: "int list"
  w_bad_close :: "int list"

definition sk_close :: "int \<Rightarrow> sock_world \<Rightarrow> sock_world" where
  "sk_close fd w =
     (if fd \<in> set (w_open w) then w\<lparr>w_open := remove1 fd (w_open w)\<rparr>
      else w\<lparr>w_bad_close := w_bad_close w @ [fd]\<rparr>)"

definition lowest_free :: "int list \<Rightarrow> int" where
  "lowest_free fds = hd (filter (\<lambda>n. n \<notin> set fds) (map int [0..<Suc (length fds)]))"

text \<open>\<open>::socket\<close> and \<open>::accept\<close>: \<open>-1\<close> on failure, otherwise the lowest free descriptor.\<close>

definition sys_open :: "bool \<Rightarrow> sock_world \<Rightarrow> int \<times> sock_world" where
  "sys_open ok w = (if ok then (lowest_free (w_open w), w\<lparr>w_open := lowest_free (w_open w) # w_open w\<rparr>) else (-1, w))"

definition sys_socket :: "domain \<Rightarrow> sock_type \<Rightarrow> bool \<Rightarrow> sock_world \<Rightarrow> int \<times> sock_world" where
  "sys_socket d t ok w = sys_open ok w"

definition create_tcp4 :: "bool \<Rightarrow> sock_world \<Rightarrow> int \<times> sock_world" where
  "create_tcp4 = sys_socket Inet Stream"

definition create_tcp6 :: "bool \<Rightarrow> sock_world \<Rightarrow> int \<times> sock_world" where
  "create_tcp6 = sys_socket Inet6 Stream"

definition create_udp4 :: "bool \<Rightarrow> sock_world \<Rightarrow> int \<times> sock_world" where
  "create_udp4 = sys_socket Inet Dgram"

definition create_udp6 :: "bool \<Rightarrow> sock_world \<Rightarrow> int \<times> sock_world" where
  "create_udp6 = sys_socket Inet6 Dgram"

definition sk_put :: "nat \<Rightarrow> socket \<Rightarrow> sock_world \<Rightarrow> sock_world" where
  "sk_put i s w = w\<lparr>w_socks := (w_socks w)(i \<mapsto> s)\<rparr>"

text \<open>The move constructor builds object \<open>i\<close> from \<open>j\<close>.\<close>

definition sk_move_ctor :: "nat \<Rightarrow> nat \<Rightarrow> sock_world \<Rightarrow> sock_world" where
  "sk_move_ctor i j w =
     (let w = sk_put i \<lparr>m_fd = -1\<rparr> w;
          p_other = the (w_socks w j)
      in if -1 \<noteq> m_fd p_other
         then sk_put j (p_other\<lparr>m_fd := -1\<rparr>) (sk_put i \<lparr>m_fd = m_fd p_other\<rparr> w)
         else w)"

definition sk_move_assign :: "nat \<Rightarrow> nat \<Rightarrow> sock_world \<Rightarrow> sock_world" where
  "sk_move_assign i j w =
     (if -1 \<noteq> m_fd (the (w_socks w j)) then
        (let w = (if -1 \<noteq> m_fd (the (w_socks w i)) then sk_close (m_fd (the (w_socks w i))) w else w);
             w = sk_put i ((the (w_socks w i))\<lparr>m_fd := m_fd (the (w_socks w j))\<rparr>) w
         in sk_put j ((the (w_socks w j))\<lparr>m_fd := -1\<rparr>) w)
      else w)"

definition sk_dtor :: "nat \<Rightarrow> sock_world \<Rightarrow> sock_world" where
  "sk_dtor i w =
     (let w' = (if -1 \<noteq> m_fd (the (w_socks w i)) then sk_close (m_fd (the (w_socks w i))) w else w)
      in w'\<lparr>w_socks := (w_socks w')(i := None)\<rparr>)"

text \<open>\<open>accept\<close> builds object \<open>i\<close> from the new connection.\<close>

definition sk_accept :: "nat \<Rightarrow> bool \<Rightarrow> sock_world \<Rightarrow> sock_world" where
  "sk_accept i ok w = (let (fd, w) = sys_open ok w in sk_put i (socket_of_fd fd) w)"

datatype sock_op =
    Sk_default nat
  | Sk_create nat domain sock_type bool
  | Sk_accept nat nat bool
  | Sk_move_ctor nat nat
  | Sk_move_assign nat nat
  | Sk_destroy nat

text \<open>
  One statement of a program that uses sockets. A statement that names a socket that does not exist, or
  builds one where another lives, is not a program: its outcome is undefined.
\<close>

fun sk_exec :: "sock_op \<Rightarrow> sock_world \<Rightarrow> (sock_world, unit) result" where
  "sk_exec (Sk_default i) w =
     (if w_socks w i \<noteq> None then Throw Undefined_behaviour w else Ok () (sk_put i socket_default w))"
| "sk_exec (Sk_create i d t ok) w =
     (if w_socks w i \<noteq> None then Throw Undefined_behaviour w
      else
        (let (fd, w) = (case (d, t) of
            (Inet, Stream) \<Rightarrow> create_tcp4 ok w | (Inet6, Stream) \<Rightarrow> create_tcp6 ok w
          | (Inet, Dgram) \<Rightarrow> create_udp4 ok w | (Inet6, Dgram) \<Rightarrow> create_udp6 ok w)
         in Ok () (sk_put i (socket_of_fd fd) w)))"
| "sk_exec (Sk_accept i j ok) w =
     (if w_socks w i \<noteq> None \<or> w_socks w j = None then Throw Undefined_behaviour w else Ok () (sk_accept i ok w))"
| "sk_exec (Sk_move_ctor i j) w =
     (if w_socks w i \<noteq> None \<or> w_socks w j = None then Throw Undefined_behaviour w else Ok () (sk_move_ctor i j w))"
| "sk_exec (Sk_move_assign i j) w =
     (if w_socks w i = None \<or> w_socks w j = None then Throw Undefined_behaviour w else Ok () (sk_move_assign i j w))"
| "sk_exec (Sk_destroy i) w =
     (if w_socks w i = None then Throw Undefined_behaviour w else Ok () (sk_dtor i w))"

definition sk_run :: "sock_op list \<Rightarrow> sock_world \<Rightarrow> (sock_world, unit) result" where
  "sk_run = rfold sk_exec"

section \<open>Words and bytes\<close>

lemma byte_of_to_ip:
  "byte_of 0 (to_ip a b c d) = d" "byte_of (Suc 0) (to_ip a b c d) = c" "byte_of 2 (to_ip a b c d) = b" "byte_of 3 (to_ip a b c d) = a"
  by (rule bit_word_eqI; auto simp: byte_of_def to_ip_def Let_def bit_simps dest: bit_imp_le_length)+

lemma to_ip_byte_of: "to_ip (byte_of 3 w) (byte_of 2 w) (byte_of 1 w) (byte_of 0 w) = w"
proof (rule bit_word_eqI)
  fix n :: nat assume n: "n < LENGTH(32)"
  consider "n < 8" | "8 \<le> n" "n < 16" | "16 \<le> n" "n < 24" | "24 \<le> n" by linarith
  then show "bit (to_ip (byte_of 3 w) (byte_of 2 w) (byte_of 1 w) (byte_of 0 w)) n = bit w n"
    using n by cases (auto simp: byte_of_def to_ip_def Let_def bit_simps)
qed

lemma htonl_to_ip: "htonl (to_ip a b c d) = to_ip d c b a"
  by (simp add: htonl_def byte_of_to_ip)

lemma ntohs_htons: "ntohs (htons p) = p"
proof (rule bit_word_eqI)
  fix n :: nat assume n: "n < LENGTH(16)"
  then show "bit (ntohs (htons p)) n = bit p n"
    by (cases "n < 8") (auto simp: ntohs_def htons_def byte_of_def bit_simps)
qed

section \<open>Decimal text\<close>

lemma of_char_digit: "k < 10 \<Longrightarrow> of_char (digit k) = (48 + k :: nat)"
  by (simp add: digit_def)

lemma decimal_digits: "c \<in> set (decimal n) \<Longrightarrow> \<exists>k < 10. c = digit k"
proof (induction n rule: decimal.induct)
  case (1 n)
  show ?case
  proof (cases "n < 10")
    case True
    with "1.prems" show ?thesis by (auto simp: decimal.simps [of n])
  next
    case False
    with "1.prems" have "c \<in> set (decimal (n div 10)) \<or> c = digit (n mod 10)" by (simp add: decimal.simps [of n] disj_commute)
    moreover have "\<exists>k < 10. digit (n mod 10) = digit k" by (rule exI [of _ "n mod 10"]) simp
    ultimately show ?thesis using False "1.IH" by blast
  qed
qed

lemma digit_not_dot: "k < 10 \<Longrightarrow> digit k \<noteq> CHR ''.''" "k < 10 \<Longrightarrow> of_char (digit k) \<noteq> (0::nat)"
proof -
  have "of_char (CHR ''.'') = (46::nat)" by simp
  then show "digit k \<noteq> CHR ''.''" if "k < 10" using of_char_digit [OF that] by auto
  show "of_char (digit k) \<noteq> (0::nat)" if "k < 10" using of_char_digit [OF that] by simp
qed

lemma decimal_dot: "CHR ''.'' \<notin> set (decimal n)" "c \<in> set (decimal n) \<Longrightarrow> of_char c \<noteq> (0::nat)"
  using decimal_digits digit_not_dot by metis+

lemma decimal_0: "decimal 0 = ''0''"
  by code_simp

lemma length_decimal: "n < 10 ^ Suc k \<Longrightarrow> length (decimal n) \<le> Suc k"
proof (induction k arbitrary: n)
  case (Suc k)
  then have "n div 10 < 10 ^ Suc k" by simp
  then show ?case using Suc.IH [of "n div 10"] by (subst decimal.simps) auto
qed (simp add: decimal.simps)

lemma digits_value_append:
  "digits_value acc (xs @ ys) = (case digits_value acc xs of None \<Rightarrow> None | Some v \<Rightarrow> digits_value v ys)"
  by (induction xs arbitrary: acc) (auto split: option.split)

lemma digit_value_digit: "k < 10 \<Longrightarrow> digit_value (digit k) = Some k"
  by (simp add: digit_value_def of_char_digit)

lemma digits_value_decimal: "digits_value 0 (decimal n) = Some n"
proof (induction n rule: decimal.induct)
  case (1 n)
  show ?case
  proof (cases "n < 10")
    case False
    then have "digits_value 0 (decimal n) = Some (n div 10 * 10 + n mod 10)"
      using "1.IH" by (simp add: decimal.simps [of n] digits_value_append digit_value_digit)
    then show ?thesis by simp
  qed (simp add: decimal.simps [of n] digit_value_digit)
qed

lemma decimal_ne: "decimal n \<noteq> []"
  by (subst decimal.simps) simp

lemma hd_decimal: "0 < n \<Longrightarrow> hd (decimal n) \<noteq> CHR ''0''"
proof (induction n rule: decimal.induct)
  case (1 n)
  show ?case
  proof (cases "n < 10")
    case True
    moreover have "of_char (CHR ''0'') = (48::nat)" by simp
    ultimately show ?thesis using "1.prems" of_char_digit [of n] by (auto simp: decimal.simps [of n])
  next
    case False
    then show ?thesis using "1.IH" by (simp add: decimal.simps [of n] decimal_ne)
  qed
qed

lemma unat_byte: "unat (b :: 8 word) < 256"
proof -
  have "unat b < 2 ^ LENGTH(8)" by (rule unsigned_less)
  then show ?thesis by simp
qed

lemma length_decimal_byte: "length (decimal (unat (b :: 8 word))) \<le> 3"
  using length_decimal [of "unat b" 2] unat_byte [of b] by simp

lemma length_decimal_port: "length (decimal (unat (p :: 16 word))) \<le> 5"
proof -
  have "unat p < 2 ^ LENGTH(16)" by (rule unsigned_less)
  then show ?thesis using length_decimal [of "unat p" 4] by simp
qed

lemma octet_decimal: "octet (decimal (unat (b :: 8 word))) = Some b"
proof -
  have "\<not> (length (decimal (unat b)) > 1 \<and> hd (decimal (unat b)) = CHR ''0'')"
    using hd_decimal [of "unat b"] by (cases "unat b = 0") (auto simp: decimal_0)
  then show ?thesis
    using length_decimal_byte [of b] unat_byte [of b] by (auto simp: octet_def decimal_ne digits_value_decimal)
qed

lemma split_at_none: "x \<notin> set p \<Longrightarrow> split_at x p = [p]"
  by (induction p) auto

lemma split_at_append: "x \<notin> set p \<Longrightarrow> split_at x (p @ x # q) = p # split_at x q"
  by (induction p) auto

text \<open>The dotted form of an address.\<close>

definition dotted :: "8 word \<Rightarrow> 8 word \<Rightarrow> 8 word \<Rightarrow> 8 word \<Rightarrow> string" where
  "dotted a b c d = decimal (unat a) @ ''.'' @ decimal (unat b) @ ''.'' @ decimal (unat c) @ ''.'' @ decimal (unat d)"

lemma inet_ntop4_to_ip: "inet_ntop4 (to_ip d c b a) = dotted a b c d"
  by (simp add: inet_ntop4_def dotted_def byte_of_to_ip)

lemma inet_pton4_dotted: "inet_pton4 (dotted a b c d) = Some (to_ip d c b a)"
  by (simp add: inet_pton4_def dotted_def split_at_append split_at_none decimal_dot octet_decimal)

lemma c_str_dotted: "c_str (dotted a b c d) = dotted a b c d"
  unfolding c_str_def by (rule takeWhile_eq_all_conv [THEN iffD2]) (auto simp: dotted_def dest: decimal_dot(2))

lemma inet_ntop4_dotted: "inet_ntop4 w = dotted (byte_of 0 w) (byte_of 1 w) (byte_of 2 w) (byte_of 3 w)"
  by (simp add: inet_ntop4_def dotted_def)

lemma length_dotted: "length (dotted a b c d) \<le> 15"
  using length_decimal_byte [of a] length_decimal_byte [of b] length_decimal_byte [of c] length_decimal_byte [of d]
  by (simp add: dotted_def)

lemma take_address:
  "take 71 (dotted a b c d @ '':'' @ decimal (unat (p :: 16 word))) = dotted a b c d @ '':'' @ decimal (unat p)"
  using length_dotted [of a b c d] length_decimal_port [of p] by simp

text \<open>C34. IPv4 addresses survive the trip through text: the address built from the dotted string is the one
  built from \<open>to_ip\<close> of its four numbers, printing it gives the dotted string and the port back without
  truncation, and for any string the printed form is that of the parsed address, or
  \<open>unknown_family:0\<close> when \<open>inet_pton\<close> rejects it.\<close>

theorem ip4_address_roundtrip:
  "ip4_string_to_sockaddr (dotted a b c d) port = ip4_port_to_sockaddr (to_ip a b c d) port \<and>
   sockaddr_to_string inet_ntop6 (Sa_in (ip4_port_to_sockaddr (to_ip a b c d) port)) =
     Some (dotted a b c d @ '':'' @ decimal (unat port)) \<and>
   sockaddr_to_string inet_ntop6 (Sa_in (ip4_string_to_sockaddr s port)) =
     Some (case inet_pton4 (c_str s) of
       None \<Rightarrow> ''unknown_family:0''
     | Some w \<Rightarrow> dotted (byte_of 0 w) (byte_of 1 w) (byte_of 2 w) (byte_of 3 w) @ '':'' @ decimal (unat port))"
proof (intro conjI)
  show "ip4_string_to_sockaddr (dotted a b c d) port = ip4_port_to_sockaddr (to_ip a b c d) port"
    by (simp add: ip4_string_to_sockaddr_def ip4_port_to_sockaddr_def c_str_dotted inet_pton4_dotted htonl_to_ip)
  have fam: "AF_INET6 \<noteq> 0" "AF_INET \<noteq> 0" by (simp_all add: AF_INET_def AF_INET6_def)
  show "sockaddr_to_string inet_ntop6 (Sa_in (ip4_port_to_sockaddr (to_ip a b c d) port)) =
     Some (dotted a b c d @ '':'' @ decimal (unat port))"
    using take_address [of a b c d port]
    by (simp add: sockaddr_to_string_def sa_family_def ip4_port_to_sockaddr_def htonl_to_ip inet_ntop4_to_ip ntohs_htons)
  show "sockaddr_to_string inet_ntop6 (Sa_in (ip4_string_to_sockaddr s port)) =
     Some (case inet_pton4 (c_str s) of
       None \<Rightarrow> ''unknown_family:0''
     | Some w \<Rightarrow> dotted (byte_of 0 w) (byte_of 1 w) (byte_of 2 w) (byte_of 3 w) @ '':'' @ decimal (unat port))"
  proof (cases "inet_pton4 (c_str s)")
    case None
    then show ?thesis using fam
      by (simp add: sockaddr_to_string_def sa_family_def ip4_string_to_sockaddr_def decimal_0)
  next
    case (Some w)
    then show ?thesis using take_address [of _ _ _ _ port]
      by (simp add: sockaddr_to_string_def sa_family_def ip4_string_to_sockaddr_def inet_ntop4_dotted ntohs_htons)
  qed
qed


section \<open>One owner per descriptor\<close>

definition fd_owned :: "(nat \<rightharpoonup> socket) \<Rightarrow> nat \<rightharpoonup> int" where
  "fd_owned S i = (case S i of None \<Rightarrow> None | Some s \<Rightarrow> if m_fd s = -1 then None else Some (m_fd s))"

lemma fd_owned_upd [simp]:
  "fd_owned (S(i \<mapsto> s)) = (fd_owned S)(i := (if m_fd s = -1 then None else Some (m_fd s)))"
  "fd_owned (S(i := None)) = (fd_owned S)(i := None)"
  by (auto simp: fd_owned_def)

lemma fd_owned_at: "S i = Some s \<Longrightarrow> fd_owned S i = (if m_fd s = -1 then None else Some (m_fd s))"
  "S i = None \<Longrightarrow> fd_owned S i = None"
  by (simp_all add: fd_owned_def)

definition sole_owner :: "(nat \<rightharpoonup> int) \<Rightarrow> bool" where
  "sole_owner f \<longleftrightarrow> (\<forall>i j x. f i = Some x \<longrightarrow> f j = Some x \<longrightarrow> i = j)"

lemma sole_ownerI: "(\<And>i j x. f i = Some x \<Longrightarrow> f j = Some x \<Longrightarrow> i = j) \<Longrightarrow> sole_owner f"
  by (simp add: sole_owner_def)

lemma sole_ownerD: "sole_owner f \<Longrightarrow> f i = Some x \<Longrightarrow> f j = Some x \<Longrightarrow> i = j"
  unfolding sole_owner_def by blast

lemma sole_owner_drop:
  assumes "sole_owner f"
  shows "sole_owner (f(i := None))"
proof (rule sole_ownerI)
  fix k l y assume "(f(i := None)) k = Some y" "(f(i := None)) l = Some y"
  then show "k = l" using sole_ownerD [OF assms, of k y l] by (simp split: if_splits)
qed

lemma sole_owner_new:
  assumes "sole_owner f" "x \<notin> ran f"
  shows "sole_owner (f(i \<mapsto> x))"
proof (rule sole_ownerI)
  fix k l y assume kl: "(f(i \<mapsto> x)) k = Some y" "(f(i \<mapsto> x)) l = Some y"
  have "f m \<noteq> Some x" for m using assms(2) by (auto simp: ran_def)
  then show "k = l" using kl sole_ownerD [OF assms(1), of k y l] by (simp split: if_splits)
qed

lemma sole_owner_move:
  assumes "sole_owner f"
  shows "sole_owner (f(i := f j, j := None))"
proof (rule sole_ownerI)
  fix k l y assume kl: "(f(i := f j, j := None)) k = Some y" "(f(i := f j, j := None)) l = Some y"
  have "k \<noteq> j" "l \<noteq> j" using kl by auto
  then show "k = l"
    using kl sole_ownerD [OF assms, of j y l] sole_ownerD [OF assms, of k y j] sole_ownerD [OF assms, of k y l]
    by (simp split: if_splits)
qed

text \<open>The open descriptors are those of the rest of the process and those of the sockets, each with one owner.\<close>

definition owners_ok :: "int list \<Rightarrow> (nat \<rightharpoonup> int) \<Rightarrow> int list \<Rightarrow> bool" where
  "owners_ok others f fds \<longleftrightarrow>
     distinct fds \<and> set fds = set others \<union> ran f \<and> set others \<inter> ran f = {} \<and> sole_owner f"

lemma inj_ran_upd_None:
  assumes "sole_owner f" "f i = Some x"
  shows "ran (f(i := None)) = ran f - {x}"
proof
  show "ran (f(i := None)) \<subseteq> ran f - {x}"
  proof
    fix y assume "y \<in> ran (f(i := None))"
    then obtain j where j: "j \<noteq> i" "f j = Some y" by (auto simp: ran_def split: if_splits)
    then have "y \<noteq> x" using sole_ownerD [OF assms(1,2), of j] by auto
    with j show "y \<in> ran f - {x}" by (auto simp: ran_def)
  qed
  show "ran f - {x} \<subseteq> ran (f(i := None))"
  proof
    fix y assume "y \<in> ran f - {x}"
    then obtain j where "f j = Some y" "y \<noteq> x" by (auto simp: ran_def)
    then have "(f(i := None)) j = Some y" using assms(2) by auto
    then show "y \<in> ran (f(i := None))" by (rule ranI)
  qed
qed

lemma owners_ok_close:
  assumes "owners_ok others f fds" "f i = Some x"
  shows "x \<in> set fds" "owners_ok others (f(i := None)) (remove1 x fds)"
proof -
  have x: "x \<in> ran f" using assms(2) by (auto simp: ran_def)
  then show "x \<in> set fds" using assms(1) by (simp add: owners_ok_def)
  have "sole_owner (f(i := None))" "ran (f(i := None)) = ran f - {x}"
    using assms inj_ran_upd_None sole_owner_drop by (auto simp: owners_ok_def)
  then show "owners_ok others (f(i := None)) (remove1 x fds)"
    using assms(1) x by (auto simp: owners_ok_def)
qed

lemma owners_ok_open:
  assumes "owners_ok others f fds" "f i = None" "x \<notin> set fds"
  shows "owners_ok others (f(i \<mapsto> x)) (x # fds)"
proof -
  have "sole_owner (f(i \<mapsto> x))" using assms by (auto simp: owners_ok_def intro: sole_owner_new)
  then show ?thesis using assms by (auto simp: owners_ok_def)
qed

lemma owners_ok_move:
  assumes "owners_ok others f fds" "f i = None" "i \<noteq> j"
  shows "owners_ok others (f(i := f j, j := None)) fds"
proof -
  have r: "ran (f(i := f j, j := None)) = ran f"
  proof
    show "ran (f(i := f j, j := None)) \<subseteq> ran f" by (auto simp: ran_def split: if_splits)
    show "ran f \<subseteq> ran (f(i := f j, j := None))"
    proof
      fix y assume "y \<in> ran f"
      then obtain k where k: "f k = Some y" by (auto simp: ran_def)
      then have "k \<noteq> i" using assms(2) by auto
      then show "y \<in> ran (f(i := f j, j := None))"
        using k assms(3) by (cases "k = j") (auto simp: ran_def intro: exI [of _ i] exI [of _ k])
    qed
  qed
  have "sole_owner (f(i := f j, j := None))" using assms(1) by (simp add: owners_ok_def sole_owner_move)
  with r assms(1) show ?thesis by (simp add: owners_ok_def)
qed

lemma lowest_free_fresh: "lowest_free fds \<notin> set fds" "0 \<le> lowest_free fds"
proof -
  let ?c = "map int [0..<Suc (length fds)]"
  have "\<not> set ?c \<subseteq> set fds"
  proof
    assume "set ?c \<subseteq> set fds"
    then have "card (set ?c) \<le> card (set fds)" by (simp add: card_mono)
    also have "\<dots> \<le> length fds" by (rule card_length)
    also have "card (set ?c) = Suc (length fds)" by (subst distinct_card) (simp_all add: distinct_map inj_on_def del: upt_Suc)
    finally show False by simp
  qed
  then have "filter (\<lambda>n. n \<notin> set fds) ?c \<noteq> []" by (auto simp: filter_empty_conv simp del: upt_Suc)
  then have "lowest_free fds \<in> set (filter (\<lambda>n. n \<notin> set fds) ?c)" unfolding lowest_free_def by (rule hd_in_set)
  then show "lowest_free fds \<notin> set fds" "0 \<le> lowest_free fds" by (auto simp del: upt_Suc)
qed

definition sk_inv :: "int list \<Rightarrow> sock_world \<Rightarrow> bool" where
  "sk_inv others w \<longleftrightarrow> w_bad_close w = [] \<and> owners_ok others (fd_owned (w_socks w)) (w_open w)"

lemma sk_inv_close:
  assumes "sk_inv others w" "w_socks w i = Some s" "m_fd s \<noteq> -1"
  shows "w_bad_close (sk_close (m_fd s) w) = []" "w_socks (sk_close (m_fd s) w) = w_socks w"
    "owners_ok others ((fd_owned (w_socks w))(i := None)) (w_open (sk_close (m_fd s) w))"
  using assms owners_ok_close [of others "fd_owned (w_socks w)" "w_open w" i "m_fd s"]
  by (simp_all add: sk_inv_def sk_close_def fd_owned_at)

lemma sk_inv_open:
  assumes "sk_inv others w" "w_socks w i = None" "sys_open ok w = (fd, w')"
  shows "sk_inv others (sk_put i (socket_of_fd fd) w')"
proof (cases ok)
  case True
  have "owners_ok others ((fd_owned (w_socks w))(i \<mapsto> lowest_free (w_open w))) (lowest_free (w_open w) # w_open w)"
    using assms(1,2) by (intro owners_ok_open) (auto simp: sk_inv_def fd_owned_at lowest_free_fresh)
  moreover have "lowest_free (w_open w) \<noteq> -1" using lowest_free_fresh(2) [of "w_open w"] by simp
  moreover have "fd = lowest_free (w_open w)" "w' = w\<lparr>w_open := lowest_free (w_open w) # w_open w\<rparr>"
    using assms(3) True by (auto simp: sys_open_def)
  ultimately show ?thesis using assms(1) by (simp add: sk_inv_def sk_put_def socket_of_fd_def)
next
  case False
  then show ?thesis using assms
    by (auto simp: sk_inv_def sk_put_def socket_of_fd_def sys_open_def fd_owned_at fun_upd_idem)
qed

lemma sk_inv_put_default:
  "sk_inv others w \<Longrightarrow> w_socks w i = None \<Longrightarrow> sk_inv others (sk_put i \<lparr>m_fd = -1\<rparr> w)"
  by (simp add: sk_inv_def sk_put_def fd_owned_at fun_upd_idem)

lemma sk_inv_move_ctor:
  assumes "sk_inv others w" "w_socks w i = None" "w_socks w j = Some s"
  shows "sk_inv others (sk_move_ctor i j w)"
proof -
  have ij: "i \<noteq> j" using assms(2,3) by auto
  have "owners_ok others ((fd_owned (w_socks w))(i := fd_owned (w_socks w) j, j := None)) (w_open w)"
    using assms ij by (intro owners_ok_move) (auto simp: sk_inv_def fd_owned_at)
  then show ?thesis
    using assms ij sk_inv_put_default [OF assms(1,2)]
    by (auto simp: sk_inv_def sk_move_ctor_def sk_put_def fd_owned_at Let_def)
qed

lemma sk_inv_move_assign:
  assumes inv: "sk_inv others w" and i: "w_socks w i = Some t" and j: "w_socks w j = Some s"
  shows "sk_inv others (sk_move_assign i j w)"
proof (cases "m_fd s = -1")
  case True
  then show ?thesis using inv j by (simp add: sk_move_assign_def)
next
  case False
  let ?f = "fd_owned (w_socks w)"
  define v where "v = (if -1 \<noteq> m_fd t then sk_close (m_fd t) w else w)"
  have v: "w_bad_close v = []" "w_socks v = w_socks w" "owners_ok others (?f(i := None)) (w_open v)"
  proof -
    have "?f(i := None) = ?f" if "m_fd t = -1" using that i by (simp add: fd_owned_at fun_upd_idem)
    then show "w_bad_close v = []" "w_socks v = w_socks w" "owners_ok others (?f(i := None)) (w_open v)"
      using inv sk_inv_close [OF inv i] by (cases "m_fd t = -1"; simp add: v_def sk_inv_def)+
  qed
  have e: "sk_move_assign i j w = sk_put j ((the (w_socks (sk_put i (t\<lparr>m_fd := m_fd s\<rparr>) v) j))\<lparr>m_fd := -1\<rparr>) (sk_put i (t\<lparr>m_fd := m_fd s\<rparr>) v)"
    unfolding sk_move_assign_def i j option.sel v_def [symmetric] using False i j v(2) by (simp add: Let_def)
  show ?thesis
  proof (cases "i = j")
    case True
    then show ?thesis unfolding e using v by (simp add: sk_inv_def sk_put_def)
  next
    case ij: False
    have "owners_ok others (?f(i := None, i := (?f(i := None)) j, j := None)) (w_open v)"
      using ij by (intro owners_ok_move [OF v(3)]) auto
    then show ?thesis unfolding e using v ij j False by (simp add: sk_inv_def sk_put_def fd_owned_at)
  qed
qed

lemma sk_inv_dtor:
  assumes "sk_inv others w" "w_socks w i = Some s"
  shows "sk_inv others (sk_dtor i w)"
proof (cases "m_fd s = -1")
  case True
  then show ?thesis using assms by (simp add: sk_dtor_def sk_inv_def fd_owned_at fun_upd_idem)
next
  case False
  then show ?thesis using sk_inv_close [OF assms False] assms(2) by (simp add: sk_dtor_def sk_inv_def)
qed

lemma sk_inv_exec:
  assumes "sk_inv others w"
  shows "sk_inv others (the_state (sk_exec a w))"
proof (cases a)
  case (Sk_create i d t ok)
  then show ?thesis using assms sk_inv_open [OF assms, of i ok]
    by (auto simp: create_tcp4_def create_tcp6_def create_udp4_def create_udp6_def sys_socket_def
        split: prod.split domain.split sock_type.split)
next
  case (Sk_accept i j ok)
  then show ?thesis using assms sk_inv_open [OF assms, of i ok] by (auto simp: sk_accept_def split: prod.split)
qed (use assms sk_inv_put_default sk_inv_move_ctor sk_inv_move_assign sk_inv_dtor in \<open>auto simp: socket_default_def\<close>)

text \<open>C11. Every descriptor a program opens through sockets is closed exactly once, by its last owner: along any
  sequence of constructions, moves (onto itself included), accepts and destructions, no \<open>close\<close> names a
  descriptor that is not open, no descriptor of the rest of the process is closed, no two sockets hold
  the same descriptor, and once all sockets are destroyed exactly the foreign descriptors are open.\<close>

theorem sockets_close_once:
  assumes "sk_run ops \<lparr>w_socks = Map.empty, w_open = others, w_bad_close = []\<rparr> = r" "distinct others"
  shows "w_bad_close (the_state r) = [] \<and> distinct (w_open (the_state r)) \<and> set others \<subseteq> set (w_open (the_state r)) \<and>
    (\<forall>i j s t. w_socks (the_state r) i = Some s \<and> w_socks (the_state r) j = Some t \<and> m_fd s = m_fd t \<and> m_fd s \<noteq> -1 \<longrightarrow>
      i = j \<and> m_fd s \<in> set (w_open (the_state r)) - set others) \<and>
    (w_socks (the_state r) = Map.empty \<longrightarrow> mset (w_open (the_state r)) = mset others)"
proof -
  let ?w = "the_state r"
  have "fd_owned Map.empty = Map.empty" by (rule ext) (simp add: fd_owned_def)
  then have "sk_inv others \<lparr>w_socks = Map.empty, w_open = others, w_bad_close = []\<rparr>"
    using assms(2) by (simp add: sk_inv_def owners_ok_def sole_owner_def)
  then have inv: "sk_inv others ?w"
    unfolding assms(1) [symmetric] sk_run_def by (rule rfold_inv [where I = "sk_inv others", rotated]) (rule sk_inv_exec)
  then have ok: "owners_ok others (fd_owned (w_socks ?w)) (w_open ?w)" by (simp add: sk_inv_def)
  have own: "i = j \<and> m_fd s \<in> set (w_open ?w) - set others"
    if "w_socks ?w i = Some s" "w_socks ?w j = Some t" "m_fd s = m_fd t" "m_fd s \<noteq> -1" for i j s t
  proof -
    have f: "fd_owned (w_socks ?w) i = Some (m_fd s)" "fd_owned (w_socks ?w) j = Some (m_fd s)"
      using that by (simp_all add: fd_owned_at)
    then have "m_fd s \<in> ran (fd_owned (w_socks ?w))" by (auto simp: ran_def)
    moreover have "i = j" using f ok sole_ownerD [of "fd_owned (w_socks ?w)"] unfolding owners_ok_def by blast
    ultimately show ?thesis using ok by (auto simp: owners_ok_def)
  qed
  have "mset (w_open ?w) = mset others" if "w_socks ?w = Map.empty"
  proof -
    have "fd_owned (w_socks ?w) = Map.empty" using that by (simp add: \<open>fd_owned Map.empty = Map.empty\<close>)
    then show ?thesis using ok assms(2) by (simp add: owners_ok_def set_eq_iff_mset_eq_distinct [symmetric])
  qed
  moreover have "w_bad_close ?w = []" "distinct (w_open ?w)" "set others \<subseteq> set (w_open ?w)"
    using ok inv by (auto simp: sk_inv_def owners_ok_def)
  ultimately show ?thesis using own by blast
qed

text \<open>A socket is created and accepted from, the connection is moved onto the listener, and both are destroyed.\<close>

theorem sockets_close_once_witness:
  "\<exists>w. sk_run [Sk_create 0 Inet Stream True, Sk_accept 1 0 True, Sk_move_assign 0 1, Sk_destroy 1, Sk_destroy 0]
     \<lparr>w_socks = Map.empty, w_open = [0, 1, 2], w_bad_close = []\<rparr> = Ok () w \<and> w_bad_close w = [] \<and> mset (w_open w) = mset [0, 1, 2]"
proof -
  let ?r = "sk_run [Sk_create 0 Inet Stream True, Sk_accept 1 0 True, Sk_move_assign 0 1, Sk_destroy 1, Sk_destroy 0]
     \<lparr>w_socks = Map.empty, w_open = [0, 1, 2], w_bad_close = []\<rparr>"
  have "lowest_free [0, 1, 2] = 3" "lowest_free [3, 0, 1, 2] = 4" by (simp_all add: lowest_free_def upt_rec)
  then have "?r = Ok () (the_state ?r) \<and> w_socks (the_state ?r) = Map.empty"
    by (simp add: sk_run_def create_tcp4_def sys_socket_def sys_open_def sk_put_def socket_of_fd_def sk_accept_def
        sk_move_assign_def sk_dtor_def sk_close_def Let_def fun_eq_iff)
  then show ?thesis using sockets_close_once [OF refl, of "[0, 1, 2]"] by (metis distinct_length_2_or_more distinct_singleton zero_neq_one
        zero_neq_numeral one_eq_numeral_iff semiring_norm(85))
qed


end
