(* ===== verification/Bfc_Regex.thy ===== *)
theory Bfc_Regex
  imports Bfc_Prelude
begin

text \<open>
  The part of \<open>std::regex\<close> (ECMAScript syntax, \<open>char\<close>, classic locale) that the parsers of the library use: a
  pattern is a sequence of character classes, each with a greedy or lazy quantifier, some of them
  captured. A match is the first one in the order in which the backtracking matcher tries them:
  the longest count first for a greedy quantifier, the shortest first for a lazy one, the leftmost item
  varying slowest.
\<close>

section \<open>Patterns\<close>

datatype quant = Once | Star | Plus | Lazy_star | Lazy_plus

datatype item = Item "char \<Rightarrow> bool" quant bool

text \<open>The classes: \<open>[ ]\<close>, \<open>=\<close>, \<open>\s\<close>, \<open>\S\<close> and \<open>.\<close>, which matches no line terminator.\<close>

definition is_char :: "char \<Rightarrow> char \<Rightarrow> bool" where
  "is_char x c \<longleftrightarrow> c = x"

definition is_space :: "char \<Rightarrow> bool" where
  "is_space c \<longleftrightarrow> (let n = of_char c :: nat in n = 32 \<or> (9 \<le> n \<and> n \<le> 13))"

definition not_space :: "char \<Rightarrow> bool" where
  "not_space c \<longleftrightarrow> \<not> is_space c"

definition is_dot :: "char \<Rightarrow> bool" where
  "is_dot c \<longleftrightarrow> (let n = of_char c :: nat in n \<noteq> 10 \<and> n \<noteq> 13)"

section \<open>Matching\<close>

text \<open>How many of the \<open>n\<close> characters that fit an item takes, in the order of the attempts.\<close>

definition counts :: "quant \<Rightarrow> nat \<Rightarrow> nat list" where
  "counts q n =
     (case q of
        Once \<Rightarrow> (if n = 0 then [] else [1])
      | Star \<Rightarrow> rev [0..<Suc n]
      | Plus \<Rightarrow> rev [1..<Suc n]
      | Lazy_star \<Rightarrow> [0..<Suc n]
      | Lazy_plus \<Rightarrow> [1..<Suc n])"

text \<open>All matches of a pattern at the beginning of a text: the captures and what is left.\<close>

fun matches :: "item list \<Rightarrow> string \<Rightarrow> (string list \<times> string) list" where
  "matches [] s = [([], s)]"
| "matches (Item c q g # p) s =
     concat (map (\<lambda>k. map (\<lambda>(cs, r). (if g then take k s # cs else cs, r)) (matches p (drop k s)))
       (counts q (length (takeWhile c s))))"

definition regex_match :: "item list \<Rightarrow> string \<Rightarrow> string list option" where
  "regex_match p s = map_option fst (find (\<lambda>m. snd m = []) (matches p s))"

text \<open>The leftmost match: its text, its captures and the suffix after it.\<close>

fun regex_search :: "item list \<Rightarrow> string \<Rightarrow> (string \<times> string list \<times> string) option" where
  "regex_search p s =
     (case matches p s of
        (cs, r) # _ \<Rightarrow> Some (take (length s - length r) s, cs, r)
      | [] \<Rightarrow> (case s of [] \<Rightarrow> None | _ # s' \<Rightarrow> regex_search p s'))"

declare regex_search.simps [simp del]

section \<open>The first match, item by item\<close>

fun first_some :: "('a \<Rightarrow> 'b option) \<Rightarrow> 'a list \<Rightarrow> 'b option" where
  "first_some f [] = None"
| "first_some f (x # xs) = (case f x of None \<Rightarrow> first_some f xs | Some y \<Rightarrow> Some y)"

lemma first_some_cong: "(\<And>x. x \<in> set xs \<Longrightarrow> f x = g x) \<Longrightarrow> first_some f xs = first_some g xs"
  by (induction xs) (auto split: option.split)

lemma first_some_None: "first_some f xs = None \<longleftrightarrow> (\<forall>x \<in> set xs. f x = None)"
  by (induction xs) (auto split: option.split)

lemma first_some_append: "first_some f (xs @ ys) = (case first_some f xs of None \<Rightarrow> first_some f ys | Some y \<Rightarrow> Some y)"
  by (induction xs) (auto split: option.split)

lemma first_some_map: "first_some f (map g xs) = first_some (f \<circ> g) xs"
  by (induction xs) (auto split: option.split)

lemma first_some_option: "first_some (\<lambda>x. map_option h (f x)) xs = map_option h (first_some f xs)"
  by (induction xs) (auto split: option.split)

lemma first_some_unique:
  assumes "k \<in> set xs" "\<And>x. x \<in> set xs \<Longrightarrow> x \<noteq> k \<Longrightarrow> f x = None"
  shows "first_some f xs = f k"
  using assms
proof (induction xs)
  case (Cons a xs)
  show ?case
  proof (cases "a = k")
    case True
    have "f k = None \<Longrightarrow> first_some f xs = None" using Cons.prems(2) by (auto simp: first_some_None)
    with True show ?thesis by (simp split: option.split)
  next
    case False
    then show ?thesis using Cons by simp
  qed
qed simp

lemma first_some_descending:
  assumes "k \<le> n" "m \<le> k" "\<And>j. k < j \<Longrightarrow> j \<le> n \<Longrightarrow> f j = None" "f k = Some y"
  shows "first_some f (rev [m..<Suc n]) = Some y"
  using assms
proof (induction n)
  case (Suc n)
  show ?case
  proof (cases "k = Suc n")
    case False
    then have "first_some f (rev [m..<Suc n]) = Some y" "f (Suc n) = None" using Suc by auto
    then show ?thesis using Suc.prems(1,2) by simp
  qed (use Suc.prems in simp)
qed simp

lemma find_concat: "find P (concat xss) = first_some (find P) xss"
proof (induction xss)
  case (Cons xs xss)
  have "find P (xs @ ys) = (case find P xs of None \<Rightarrow> find P ys | Some y \<Rightarrow> Some y)" for ys
    by (induction xs) auto
  with Cons show ?case by (simp split: option.split)
qed simp

lemma find_map_snd: "find (P \<circ> snd) (map (\<lambda>(cs, r). (h cs, r)) xs) = map_option (\<lambda>(cs, r). (h cs, r)) (find (P \<circ> snd) xs)"
  by (induction xs) auto

definition find_match :: "(string \<Rightarrow> bool) \<Rightarrow> item list \<Rightarrow> string \<Rightarrow> (string list \<times> string) option" where
  "find_match P p s = find (P \<circ> snd) (matches p s)"

lemma find_match_Nil: "find_match P [] s = (if P s then Some ([], s) else None)"
  by (simp add: find_match_def)

lemma find_match_Cons:
  "find_match P (Item c q g # p) s =
     first_some (\<lambda>k. map_option (\<lambda>(cs, r). (if g then take k s # cs else cs, r)) (find_match P p (drop k s)))
       (counts q (length (takeWhile c s)))"
  unfolding find_match_def matches.simps find_concat first_some_map
  by (rule first_some_cong) (simp add: find_map_snd [where h = "\<lambda>cs. if g then take _ s # cs else cs"])

lemma regex_match_find: "regex_match p s = map_option fst (find_match (\<lambda>r. r = []) p s)"
  by (simp add: regex_match_def find_match_def comp_def)

lemma regex_search_find:
  "regex_search p s =
     (case find_match (\<lambda>_. True) p s of
        Some (cs, r) \<Rightarrow> Some (take (length s - length r) s, cs, r)
      | None \<Rightarrow> (case s of [] \<Rightarrow> None | _ # s' \<Rightarrow> regex_search p s'))"
  by (subst regex_search.simps) (auto simp: find_match_def split: list.split)

lemma counts_greedy_bound: "k \<in> set (counts q n) \<Longrightarrow> k \<le> n"
  by (auto simp: counts_def split: quant.splits if_splits)

text \<open>A single character.\<close>

lemma find_match_char:
  "find_match P (Item (is_char x) Once False # p) s = (case s of [] \<Rightarrow> None | c # s' \<Rightarrow> if c = x then find_match P p s' else None)"
proof (cases s)
  case (Cons c s')
  then show ?thesis by (simp add: find_match_Cons counts_def is_char_def option.map_id split: option.split)
qed (simp add: find_match_Cons counts_def)

text \<open>
  A greedy run that is followed by something that no character of the class can begin: only the whole
  run can be taken.
\<close>

lemma find_match_skip:
  assumes "\<And>c s. cl c \<Longrightarrow> find_match P p (c # s) = None"
  shows "find_match P (Item cl Star False # p) s = find_match P p (dropWhile cl s)"
proof -
  let ?n = "length (takeWhile cl s)"
  have "map_option (\<lambda>(cs, r). (cs, r)) (find_match P p (drop k s)) = None" if k: "k < ?n" for k
  proof -
    have "k < length s" using k length_takeWhile_le [of cl s] by linarith
    then have "drop k s = s ! k # drop (Suc k) s" by (simp add: Cons_nth_drop_Suc)
    moreover have "cl (s ! k)" using k takeWhile_nth [of k cl s] set_takeWhileD [of "s ! k" cl s] by (metis nth_mem)
    ultimately show ?thesis using assms by simp
  qed
  then have "first_some (\<lambda>k. map_option (\<lambda>(cs, r). (cs, r)) (find_match P p (drop k s))) (rev [0..<Suc ?n]) =
      map_option (\<lambda>(cs, r). (cs, r)) (find_match P p (drop ?n s))"
    by (intro first_some_unique) auto
  then show ?thesis by (simp add: find_match_Cons counts_def dropWhile_eq_drop option.map_id)
qed

text \<open>A match consumes what it captures and what it skips.\<close>

lemma matches_suffix: "(cs, r) \<in> set (matches p s) \<Longrightarrow> length r \<le> length s"
proof (induction p s arbitrary: cs r rule: matches.induct)
  case (2 c q g p s)
  then obtain k cs' where "k \<in> set (counts q (length (takeWhile c s)))" "(cs', r) \<in> set (matches p (drop k s))" by auto
  then have "length r \<le> length (drop k s)" using "2.IH" by blast
  then show ?case by simp
qed simp

end
