(* ===== verification/Bfc_Config.thy ===== *)
theory Bfc_Config
  imports Bfc_Regex
begin

text \<open>
  The configuration parser of \<open>src/src/bfc/configuration_parser.hpp\<close>: \<open>detail::trim\<close>, the map of arguments
  and the parser of \<open>key = value\<close> lines. A file is its contents, or \<open>None\<close> when it cannot be opened; the stream
  extraction behind \<open>as\<close> is an argument.
\<close>

section \<open>Trimming\<close>

definition trim_set :: "char \<Rightarrow> bool" where
  "trim_set c \<longleftrightarrow> c \<in> set [CHR '' '', CHR 0x09, CHR 0x0D, CHR 0x0A]"

text \<open>\<open>find_first_not_of\<close> and \<open>find_last_not_of\<close>; \<open>None\<close> is \<open>npos\<close>.\<close>

definition find_first_not_of :: "string \<Rightarrow> nat option" where
  "find_first_not_of s = (let n = length (takeWhile trim_set s) in if n = length s then None else Some n)"

definition find_last_not_of :: "string \<Rightarrow> nat option" where
  "find_last_not_of s = map_option (\<lambda>n. length s - 1 - n) (find_first_not_of (rev s))"

definition substr :: "nat \<Rightarrow> nat \<Rightarrow> string \<Rightarrow> string" where
  "substr pos n s = take n (drop pos s)"

definition trim :: "string \<Rightarrow> string" where
  "trim s =
     (case find_first_not_of s of
        None \<Rightarrow> []
      | Some start \<Rightarrow> (let e = the (find_last_not_of s) in substr start (e - start + 1) s))"

section \<open>The map of arguments\<close>

type_synonym args_map = "string \<rightharpoonup> string"

definition args_arg :: "string \<Rightarrow> args_map \<Rightarrow> string option" where
  "args_arg p_key args = args p_key"

text \<open>\<open>extract\<close> is \<open>operator>>\<close> of the wanted type: \<open>None\<close> when the stream fails.\<close>

definition args_as :: "(string \<Rightarrow> 't option) \<Rightarrow> string \<Rightarrow> args_map \<Rightarrow> 't option" where
  "args_as extract p_key args = (case args p_key of None \<Rightarrow> None | Some v \<Rightarrow> extract v)"

definition try_emplace :: "string \<Rightarrow> string \<Rightarrow> args_map \<Rightarrow> args_map" where
  "try_emplace k v args = (if args k = None then args(k \<mapsto> v) else args)"

section \<open>Lines and files\<close>

text \<open>\<open>^(.+?)[ ]*=[ ]*(.*?)$\<close>\<close>

definition config_fmt :: "item list" where
  "config_fmt =
     [Item is_dot Lazy_plus True, Item (is_char CHR '' '') Star False, Item (is_char CHR ''='') Once False,
      Item (is_char CHR '' '') Star False, Item is_dot Lazy_star True]"

definition load_line :: "string \<Rightarrow> args_map \<Rightarrow> args_map" where
  "load_line line args =
     (case regex_match config_fmt line of
        Some mt \<Rightarrow> try_emplace (trim (mt ! 0)) (trim (mt ! 1)) args
      | None \<Rightarrow> args)"

text \<open>The lines \<open>std::getline\<close> reads from a stream.\<close>

fun getlines :: "string \<Rightarrow> string list" where
  "getlines s =
     (if s = [] then []
      else takeWhile (\<lambda>c. c \<noteq> CHR 0x0A) s # getlines (drop (Suc (length (takeWhile (\<lambda>c. c \<noteq> CHR 0x0A) s))) s))"

declare getlines.simps [simp del]

definition load :: "string option \<Rightarrow> args_map \<Rightarrow> bool \<times> args_map" where
  "load file args =
     (case file of
        None \<Rightarrow> (False, args)
      | Some contents \<Rightarrow> (True, fold load_line (getlines contents) args))"

section \<open>Trimming drops the blanks at both ends\<close>

lemma find_first_not_of_None: "find_first_not_of s = None \<longleftrightarrow> (\<forall>c \<in> set s. trim_set c)"
proof -
  have "length (takeWhile trim_set s) = length s \<longleftrightarrow> takeWhile trim_set s = s"
    by (metis takeWhile_eq_take take_all order_refl)
  then show ?thesis by (simp add: find_first_not_of_def Let_def takeWhile_eq_all_conv)
qed

lemma trim_blank: "(\<And>c. c \<in> set s \<Longrightarrow> trim_set c) \<Longrightarrow> trim s = []"
  using find_first_not_of_None [of s] by (simp add: trim_def)

lemma trim_core:
  assumes "\<And>c. c \<in> set a \<Longrightarrow> trim_set c" "\<And>c. c \<in> set b \<Longrightarrow> trim_set c"
    and "m \<noteq> []" "\<not> trim_set (hd m)" "\<not> trim_set (last m)"
  shows "trim (a @ m @ b) = m"
proof -
  have tw: "length (takeWhile trim_set (a @ m @ b)) = length a"
    if "\<And>c. c \<in> set a \<Longrightarrow> trim_set c" "m \<noteq> []" "\<not> trim_set (hd m)" for a m b
    using that by (cases m) (simp_all add: takeWhile_append)
  have f: "find_first_not_of (a @ m @ b) = Some (length a)"
    using tw [of a m b] assms by (simp add: find_first_not_of_def)
  have "find_first_not_of (rev b @ rev m @ rev a) = Some (length b)"
    using tw [of "rev b" "rev m" "rev a"] assms by (simp add: find_first_not_of_def hd_rev)
  then have l: "find_last_not_of (a @ m @ b) = Some (length a + length m - 1)"
    by (simp add: find_last_not_of_def)
  have "length a + length m - 1 - length a + 1 = length m" using assms(3) by (cases m) auto
  then show ?thesis unfolding trim_def f l by (simp add: substr_def)
qed

text \<open>Every text is blanks, a core without blanks at its ends, and blanks.\<close>

lemma trim_cases:
  obtains (blank) "\<And>c. c \<in> set s \<Longrightarrow> trim_set c"
    | (core) a m b where "s = a @ m @ b" "\<And>c. c \<in> set a \<Longrightarrow> trim_set c" "\<And>c. c \<in> set b \<Longrightarrow> trim_set c"
      "m \<noteq> []" "\<not> trim_set (hd m)" "\<not> trim_set (last m)"
proof (cases "\<forall>c \<in> set s. trim_set c")
  case False
  let ?d = "dropWhile trim_set s"
  let ?m = "rev (dropWhile trim_set (rev ?d))" and ?b = "rev (takeWhile trim_set (rev ?d))"
  have ne: "?d \<noteq> []" using False by (simp add: dropWhile_eq_Nil_conv)
  have db: "?d = ?m @ ?b" by (metis rev_append rev_rev_ident takeWhile_dropWhile_id)
  have hd: "\<not> trim_set (hd ?d)" by (rule hd_dropWhile [OF ne])
  have mne: "?m \<noteq> []"
  proof
    assume "?m = []"
    then have "\<forall>c \<in> set ?d. trim_set c" by (auto simp: dropWhile_eq_Nil_conv)
    then show False using hd ne by auto
  qed
  show thesis
  proof (rule core)
    show "s = takeWhile trim_set s @ ?m @ ?b" using db by (metis takeWhile_dropWhile_id)
    show "\<not> trim_set (hd ?m)" using hd db mne by (metis hd_append2)
    show "\<not> trim_set (last ?m)" using mne by (metis hd_dropWhile last_rev rev.simps(1))
    show "?m \<noteq> []" by (rule mne)
  qed (auto dest: set_takeWhileD)
qed (use blank in blast)

lemma trim_ends:
  assumes a: "\<And>c. c \<in> set a \<Longrightarrow> trim_set c" and b: "\<And>c. c \<in> set b \<Longrightarrow> trim_set c"
  shows "trim (a @ s @ b) = trim s"
proof (cases s rule: trim_cases)
  case blank
  then have "trim (a @ s @ b) = []" by (intro trim_blank) (use a b in auto)
  moreover have "trim s = []" by (rule trim_blank) (rule blank)
  ultimately show ?thesis by simp
next
  case (core x m y)
  have "trim ((a @ x) @ m @ (y @ b)) = m" by (rule trim_core) (use a b core in auto)
  moreover have "trim s = m" unfolding core(1) by (rule trim_core) (use core in auto)
  ultimately show ?thesis using core(1) by simp
qed

lemma trim_space: "trim_set CHR '' ''"
  by (simp add: trim_set_def)

lemma trim_dropWhile: "trim (dropWhile (is_char CHR '' '') s) = trim s"
proof -
  have "trim (takeWhile (is_char CHR '' '') s @ dropWhile (is_char CHR '' '') s @ []) = trim (dropWhile (is_char CHR '' '') s)"
    by (rule trim_ends) (auto dest!: set_takeWhileD simp: is_char_def trim_space)
  then show ?thesis by simp
qed

section \<open>What a line means\<close>

abbreviation config_tail :: "item list" where
  "config_tail \<equiv> drop 2 config_fmt"

lemma config_value:
  "find_match (\<lambda>r. r = []) [Item is_dot Lazy_star True] s = (if \<forall>c \<in> set s. is_dot c then Some ([s], []) else None)"
proof -
  let ?n = "length (takeWhile is_dot s)"
  let ?f = "\<lambda>k. if drop k s = [] then Some ([take k s], []) else None"
  have e: "find_match (\<lambda>r. r = []) [Item is_dot Lazy_star True] s = first_some ?f [0..<Suc ?n]"
    unfolding find_match_Cons counts_def quant.case by (rule first_some_cong) (simp add: find_match_Nil)
  show ?thesis
  proof (cases "\<forall>c \<in> set s. is_dot c")
    case True
    then have n: "?n = length s" by (simp add: takeWhile_eq_all_conv [THEN iffD2])
    have "first_some ?f [0..<Suc ?n] = ?f (length s)" unfolding n by (rule first_some_unique) auto
    then show ?thesis using True by (simp only: e) simp
  next
    case False
    then have "takeWhile is_dot s \<noteq> s" by (metis takeWhile_eq_all_conv)
    then have "?n < length s" by (metis length_takeWhile_le le_neq_implies_less takeWhile_eq_take take_all order_refl)
    then have "first_some ?f [0..<Suc ?n] = None" by (auto simp: first_some_None)
    then show ?thesis using False by (simp only: e) simp
  qed
qed

lemma space_dot: "is_char CHR '' '' c \<Longrightarrow> is_dot c"
  by (simp add: is_char_def is_dot_def)

lemma dots_dropWhile: "(\<forall>c \<in> set (dropWhile (is_char CHR '' '') s). is_dot c) \<longleftrightarrow> (\<forall>c \<in> set s. is_dot c)"
proof
  show "\<forall>c \<in> set (dropWhile (is_char CHR '' '') s). is_dot c" if "\<forall>c \<in> set s. is_dot c"
    using that by (auto dest: set_dropWhileD)
  show "\<forall>c \<in> set s. is_dot c" if "\<forall>c \<in> set (dropWhile (is_char CHR '' '') s). is_dot c"
  proof
    fix c assume "c \<in> set s"
    then have "c \<in> set (takeWhile (is_char CHR '' '') s) \<or> c \<in> set (dropWhile (is_char CHR '' '') s)"
      by (metis UnE set_append takeWhile_dropWhile_id)
    then show "is_dot c" using that by (auto dest!: set_takeWhileD intro: space_dot)
  qed
qed

text \<open>The value: the greedy blanks are followed by the rest of the line.\<close>

lemma config_blanks_value:
  "find_match (\<lambda>r. r = []) [Item (is_char CHR '' '') Star False, Item is_dot Lazy_star True] s =
     (if \<forall>c \<in> set s. is_dot c then Some ([dropWhile (is_char CHR '' '') s], []) else None)"
proof -
  let ?b = "is_char CHR '' ''"
  let ?n = "length (takeWhile ?b s)"
  let ?f = "\<lambda>k. map_option (\<lambda>(cs, r). (cs, r)) (find_match (\<lambda>r. r = []) [Item is_dot Lazy_star True] (drop k s))"
  have e: "find_match (\<lambda>r. r = []) [Item ?b Star False, Item is_dot Lazy_star True] s = first_some ?f (rev [0..<Suc ?n])"
    by (simp add: find_match_Cons [of _ ?b] counts_def)
  show ?thesis
  proof (cases "\<forall>c \<in> set s. is_dot c")
    case True
    then have "?f ?n = Some ([dropWhile ?b s], [])" using dots_dropWhile [of s] by (simp add: config_value flip: dropWhile_eq_drop)
    then have "first_some ?f (rev [0..<Suc ?n]) = Some ([dropWhile ?b s], [])" by (intro first_some_descending [of ?n]) auto
    then show ?thesis using True by (simp only: e) simp
  next
    case False
    have "?f k = None" if "k \<le> ?n" for k
    proof -
      have "set (take k s) \<subseteq> set (takeWhile ?b s)"
        using set_take_subset_set_take [OF that, of s] takeWhile_eq_take [of ?b s] by simp
      then have "\<forall>c \<in> set (take k s). is_dot c" by (auto dest!: set_takeWhileD intro: space_dot)
      moreover have "set s = set (take k s) \<union> set (drop k s)" by (metis append_take_drop_id set_append)
      ultimately show ?thesis using False by (auto simp: config_value)
    qed
    then have "first_some ?f (rev [0..<Suc ?n]) = None" unfolding first_some_None by simp
    then show ?thesis using False by (simp only: e) simp
  qed
qed

lemma config_tail_match:
  "find_match (\<lambda>r. r = []) config_tail s =
     (case s of [] \<Rightarrow> None
      | c # v \<Rightarrow> if c = CHR ''='' \<and> (\<forall>d \<in> set v. is_dot d) then Some ([dropWhile (is_char CHR '' '') v], []) else None)"
  by (auto simp: config_fmt_def find_match_char config_blanks_value split: list.split)

lemma config_blanks_tail_match:
  "find_match (\<lambda>r. r = []) (tl config_fmt) s = find_match (\<lambda>r. r = []) config_tail (dropWhile (is_char CHR '' '') s)"
proof -
  have "find_match (\<lambda>r. r = []) config_tail (c # s) = None" if "is_char CHR '' '' c" for c s
    using that by (simp add: config_tail_match is_char_def)
  then show ?thesis using find_match_skip [of "is_char CHR '' ''" "\<lambda>r. r = []" config_tail s] by (simp add: config_fmt_def)
qed

text \<open>
  The reference: a line without line terminators is split at the first equals sign that is not its first
  character, and both parts are trimmed.
\<close>

definition config_split :: "string \<Rightarrow> (string \<times> string) option" where
  "config_split line =
     (case line of
        [] \<Rightarrow> None
      | c # r \<Rightarrow>
          (if (\<exists>d \<in> set line. \<not> is_dot d) \<or> CHR ''='' \<notin> set r then None
           else Some (trim (c # takeWhile (\<lambda>d. d \<noteq> CHR ''='') r), trim (tl (dropWhile (\<lambda>d. d \<noteq> CHR ''='') r)))))"

lemma config_match_eq:
  "find_match (\<lambda>r. r = []) config_fmt s =
     first_some (\<lambda>k. map_option (\<lambda>(cs, r). (take k s # cs, r))
         (find_match (\<lambda>r. r = []) config_tail (dropWhile (is_char CHR '' '') (drop k s))))
       [1..<Suc (length (takeWhile is_dot s))]"
proof -
  have "config_fmt = Item is_dot Lazy_plus True # tl config_fmt" by (simp add: config_fmt_def)
  then show ?thesis
    using find_match_Cons [of "\<lambda>r. r = []" is_dot Lazy_plus True "tl config_fmt" s]
    by (simp add: counts_def config_blanks_tail_match)
qed

lemma config_no_match:
  assumes "config_split s = None"
  shows "find_match (\<lambda>r. r = []) config_fmt s = None"
  unfolding config_match_eq first_some_None
proof
  fix k assume k: "k \<in> set [1..<Suc (length (takeWhile is_dot s))]"
  let ?d = "dropWhile (is_char CHR '' '') (drop k s)"
  have False if t: "find_match (\<lambda>r. r = []) config_tail ?d = Some y" for y
  proof -
    obtain v where v: "?d = CHR ''='' # v" "\<forall>d \<in> set v. is_dot d"
      using t by (auto simp: config_tail_match split: list.splits if_splits)
    have "is_dot CHR ''=''" by (simp add: is_dot_def)
    then have "\<forall>d \<in> set (drop k s). is_dot d" using v dots_dropWhile [of "drop k s"] by simp
    moreover have "\<forall>d \<in> set (take k s). is_dot d"
      using k set_take_subset_set_take [of k _ s] takeWhile_eq_take [of is_dot s] by (fastforce dest: set_takeWhileD)
    moreover have "set s = set (take k s) \<union> set (drop k s)" by (metis append_take_drop_id set_append)
    ultimately have dots: "\<forall>d \<in> set s. is_dot d" by auto
    have "CHR ''='' \<in> set (drop k s)" using v(1) set_dropWhileD [of "CHR ''=''" "is_char CHR '' ''" "drop k s"] by simp
    moreover obtain c r where s: "s = c # r" using \<open>CHR ''='' \<in> set (drop k s)\<close> by (cases s) auto
    moreover have "0 < k" using k by (simp del: upt_Suc)
    then have "drop k s = drop (k - 1) r" using s by (cases k) simp_all
    ultimately have "CHR ''='' \<in> set r" by (metis in_set_dropD)
    then show False using assms dots s by (simp add: config_split_def)
  qed
  then show "map_option (\<lambda>(cs, r). (take k s # cs, r)) (find_match (\<lambda>r. r = []) config_tail ?d) = None"
    by (cases "find_match (\<lambda>r. r = []) config_tail ?d") auto
qed

lemma first_some_ascending:
  assumes "m \<le> k" "k \<le> n" "\<And>j. m \<le> j \<Longrightarrow> j < k \<Longrightarrow> f j = None" "f k = Some y"
  shows "first_some f [m..<Suc n] = Some y"
proof -
  have "[m..<Suc n] = [m..<k] @ k # [Suc k..<Suc n]"
    using upt_add_eq_append [of m k "Suc n - k"] upt_conv_Cons [of k "Suc n"] assms(1,2) by (simp del: upt_Suc)
  moreover have "first_some f [m..<k] = None" using assms(3) by (auto simp: first_some_None)
  ultimately show ?thesis using assms(4) by (simp add: first_some_append)
qed

lemma config_match:
  assumes dots: "\<forall>d \<in> set (c # u @ CHR ''='' # v). is_dot d" and u: "CHR ''='' \<notin> set u"
  shows "\<exists>w b. u = w @ b \<and> (\<forall>d \<in> set b. d = CHR '' '') \<and>
    find_match (\<lambda>r. r = []) config_fmt (c # u @ CHR ''='' # v) = Some ([c # w, dropWhile (is_char CHR '' '') v], [])"
proof -
  let ?b = "is_char CHR '' ''" and ?s = "c # u @ CHR ''='' # v"
  define w where "w = rev (dropWhile ?b (rev u))"
  define b where "b = rev (takeWhile ?b (rev u))"
  have wb: "u = w @ b" unfolding w_def b_def by (metis rev_append rev_rev_ident takeWhile_dropWhile_id)
  have blanks: "\<forall>d \<in> set b. d = CHR '' ''" by (auto simp: b_def is_char_def dest: set_takeWhileD)
  have wl: "w \<noteq> [] \<Longrightarrow> \<not> ?b (last w)" unfolding w_def by (metis hd_dropWhile last_rev rev.simps(1))
  have eq: "\<not> ?b CHR ''=''" by (simp add: is_char_def)
  let ?f = "\<lambda>k. map_option (\<lambda>(cs, r). (take k ?s # cs, r)) (find_match (\<lambda>r. r = []) config_tail (dropWhile ?b (drop k ?s)))"
  have n: "length (takeWhile is_dot ?s) = length ?s" using dots by (simp add: takeWhile_eq_all_conv [THEN iffD2])
  have "?f (Suc (length w)) = Some ([c # w, dropWhile ?b v], [])"
  proof -
    have "dropWhile ?b (b @ CHR ''='' # v) = CHR ''='' # v" using blanks eq by (simp add: dropWhile_append2 is_char_def)
    then show ?thesis using dots by (simp add: wb config_tail_match)
  qed
  moreover have "?f j = None" if j: "1 \<le> j" "j < Suc (length w)" for j
  proof -
    obtain i where i: "j = Suc i" "i < length w" using j by (cases j) auto
    have ne: "drop i w \<noteq> []" "last (drop i w) = last w" using i(2) by auto
    moreover have "w \<noteq> []" using i(2) by auto
    ultimately have l: "last w \<in> set (drop i w @ b)" "\<not> ?b (last w)" using last_in_set [OF ne(1)] wl by auto
    have "dropWhile ?b (drop j ?s) = dropWhile ?b (drop i w @ b) @ CHR ''='' # v"
      using i l by (simp add: wb dropWhile_append1 flip: append_assoc)
    moreover obtain d e where d: "dropWhile ?b (drop i w @ b) = d # e"
      using l by (cases "dropWhile ?b (drop i w @ b)") (auto simp: dropWhile_eq_Nil_conv)
    moreover have "d \<in> set u" using d set_dropWhileD [of d ?b "drop i w @ b"] by (auto simp: wb dest: in_set_dropD)
    ultimately show ?thesis using u by (auto simp: config_tail_match)
  qed
  ultimately have "first_some ?f [1..<Suc (length ?s)] = Some ([c # w, dropWhile ?b v], [])"
    by (intro first_some_ascending [of 1 "Suc (length w)"]) (auto simp: wb)
  then have "find_match (\<lambda>r. r = []) config_fmt ?s = Some ([c # w, dropWhile ?b v], [])"
    unfolding config_match_eq n .
  with wb blanks show ?thesis by blast
qed

lemma load_line_split:
  "load_line line args =
     (case config_split line of None \<Rightarrow> args | Some (k, v) \<Rightarrow> if args k = None then args(k \<mapsto> v) else args)"
proof (cases "config_split line")
  case None
  then show ?thesis using config_no_match [OF None] by (simp add: load_line_def regex_match_find)
next
  case (Some kv)
  then obtain c r where l: "line = c # r" and dots: "\<forall>d \<in> set (c # r). is_dot d" and r: "CHR ''='' \<in> set r"
    by (auto simp: config_split_def split: list.splits if_splits)
  obtain u v where uv: "r = u @ CHR ''='' # v" "CHR ''='' \<notin> set u" using split_list_first [OF r] by blast
  have sp: "takeWhile (\<lambda>d. d \<noteq> CHR ''='') r = u" "dropWhile (\<lambda>d. d \<noteq> CHR ''='') r = CHR ''='' # v"
    using uv by (auto simp: takeWhile_append dropWhile_append)
  obtain w b where wb: "u = w @ b" "\<forall>d \<in> set b. d = CHR '' ''"
    and m: "find_match (\<lambda>r. r = []) config_fmt (c # u @ CHR ''='' # v) = Some ([c # w, dropWhile (is_char CHR '' '') v], [])"
    using config_match [OF dots [unfolded uv(1)] uv(2)] by blast
  have "trim_set d" if "d \<in> set b" for d using bspec [OF wb(2) that] by (simp add: trim_space)
  then have "trim (c # w @ b) = trim (c # w)" using trim_ends [of "[]" b "c # w"] by simp
  moreover have "config_split line = Some (trim (c # u), trim v)" using dots r by (simp add: config_split_def l sp)
  ultimately have "kv = (trim (c # w), trim v)" using Some wb(1) by simp
  then show ?thesis using Some m l uv(1) by (simp add: load_line_def regex_match_find trim_dropWhile try_emplace_def)
qed

text \<open>C12. The regular expression of \<open>load_line\<close> means what a reader expects: a line is dropped when it contains a line
  terminator (a carriage return included) or no equals sign after its first character; otherwise the
  key and the value are the trimmed texts before and after the first such sign, and the line that sets
  a key first wins.\<close>

theorem load_line_is_split:
  "load_line line args =
     (case config_split line of None \<Rightarrow> args | Some (k, v) \<Rightarrow> if args k = None then args(k \<mapsto> v) else args)"
  by (rule load_line_split)

section \<open>Files\<close>

lemma getlines_print:
  assumes "\<And>l. l \<in> set ls \<Longrightarrow> CHR 0x0A \<notin> set l"
  shows "getlines (concat (map (\<lambda>l. l @ [CHR 0x0A]) ls)) = ls"
  using assms
proof (induction ls)
  case (Cons l ls)
  let ?s = "l @ CHR 0x0A # concat (map (\<lambda>l. l @ [CHR 0x0A]) ls)"
  have "CHR 0x0A \<notin> set l" using Cons.prems by simp
  then have "takeWhile (\<lambda>c. c \<noteq> CHR 0x0A) ?s = l" by (subst takeWhile_append2) auto
  moreover have "getlines (concat (map (\<lambda>l. l @ [CHR 0x0A]) ls)) = ls" using Cons by simp
  ultimately show ?case by (simp add: getlines.simps [of ?s])
qed (simp add: getlines.simps)

definition no_blank_ends :: "string \<Rightarrow> bool" where
  "no_blank_ends s \<longleftrightarrow> s = [] \<or> (\<not> trim_set (hd s) \<and> \<not> trim_set (last s))"

definition config_key_ok :: "string \<Rightarrow> bool" where
  "config_key_ok k \<longleftrightarrow> k \<noteq> [] \<and> no_blank_ends k \<and> CHR ''='' \<notin> set k \<and> (\<forall>c \<in> set k. is_dot c)"

definition config_value_ok :: "string \<Rightarrow> bool" where
  "config_value_ok v \<longleftrightarrow> no_blank_ends v \<and> (\<forall>c \<in> set v. is_dot c)"

definition config_line :: "string \<times> string \<Rightarrow> string" where
  "config_line kv = fst kv @ '' = '' @ snd kv"

lemma trim_no_blank_ends:
  assumes "no_blank_ends s" "\<And>c. c \<in> set a \<Longrightarrow> trim_set c" "\<And>c. c \<in> set b \<Longrightarrow> trim_set c"
  shows "trim (a @ s @ b) = s"
proof (cases "s = []")
  case True
  have "trim (a @ b) = []" by (rule trim_blank) (use assms in auto)
  then show ?thesis using True by simp
next
  case False
  then show ?thesis using assms by (intro trim_core) (auto simp: no_blank_ends_def)
qed

lemma config_split_line:
  assumes "config_key_ok k" "config_value_ok v"
  shows "config_split (config_line (k, v)) = Some (k, v)"
proof -
  obtain c k' where k: "k = c # k'" using assms(1) by (cases k) (auto simp: config_key_ok_def)
  let ?r = "k' @ '' = '' @ v"
  have ne: "CHR ''='' \<notin> set k'" using assms(1) by (auto simp: config_key_ok_def k)
  have "takeWhile (\<lambda>d. d \<noteq> CHR ''='') ?r = k' @ '' ''" "dropWhile (\<lambda>d. d \<noteq> CHR ''='') ?r = CHR ''='' # CHR '' '' # v"
    using ne by (subst takeWhile_append2 dropWhile_append2; auto)+
  moreover have "\<forall>d \<in> set (c # ?r). is_dot d"
    using assms by (auto simp: config_key_ok_def config_value_ok_def k is_dot_def)
  moreover have "trim (c # k' @ '' '') = k" "trim (CHR '' '' # v) = v"
    using trim_no_blank_ends [of k "[]" "'' ''"] trim_no_blank_ends [of v "'' ''" "[]"] assms
    by (auto simp: config_key_ok_def config_value_ok_def k trim_space)
  ultimately show ?thesis by (simp add: config_split_def config_line_def k)
qed

lemma fold_load_lines:
  assumes "\<forall>(k, v) \<in> set kvs. config_key_ok k \<and> config_value_ok v"
  shows "fold load_line (map config_line kvs) args = map_of kvs ++ args"
  using assms
proof (induction kvs arbitrary: args)
  case (Cons kv kvs)
  obtain k v where kv: "kv = (k, v)" by fastforce
  then have "load_line (config_line kv) args = (if args k = None then args(k \<mapsto> v) else args)"
    using Cons.prems config_split_line [of k v] load_line_split [of "config_line kv" args] by simp
  then show ?case using Cons by (auto simp: kv map_add_def fun_eq_iff split: option.split)
qed simp

text \<open>C35. Loading a file of \<open>key = value\<close> lines gives back the bindings that were written, the first of a key
  counting, under the bindings the parser already had; a file that cannot be opened changes
  nothing. Keys are not empty and contain no equals sign, and keys and values have no blanks at their
  ends and no line terminators.\<close>

theorem config_file_roundtrip:
  assumes "\<forall>(k, v) \<in> set kvs. config_key_ok k \<and> config_value_ok v"
  shows "load (Some (concat (map (\<lambda>kv. config_line kv @ [CHR 0x0A]) kvs))) args = (True, map_of kvs ++ args) \<and>
    load None args = (False, args)"
proof -
  have "CHR 0x0A \<notin> set (config_line kv)" if "kv \<in> set kvs" for kv
    using assms that by (fastforce simp: config_line_def config_key_ok_def config_value_ok_def is_dot_def)
  then have "getlines (concat (map (\<lambda>l. l @ [CHR 0x0A]) (map config_line kvs))) = map config_line kvs"
    by (intro getlines_print) auto
  then show ?thesis using fold_load_lines [OF assms, of args] by (simp add: load_def comp_def)
qed

theorem config_file_roundtrip_witness:
  "args_arg ''port'' (snd (load (Some (''port = 80'' @ [CHR 0x0A] @ ''host = a b'' @ [CHR 0x0A] @ ''port = 81'' @ [CHR 0x0A])) Map.empty)) =
     Some ''80''"
proof -
  let ?kvs = "[(''port'', ''80''), (''host'', ''a b''), (''port'', ''81'')]"
  have "\<forall>(k, v) \<in> set ?kvs. config_key_ok k \<and> config_value_ok v"
    by (simp add: config_key_ok_def config_value_ok_def no_blank_ends_def trim_set_def is_dot_def)
  from config_file_roundtrip [OF this, of Map.empty] show ?thesis by (simp add: config_line_def args_arg_def)
qed

end
