(* ===== verification/Bfc_Command.thy ===== *)
theory Bfc_Command
  imports Bfc_Config
begin

text \<open>
  The command manager of \<open>src/src/bfc/command_manager.hpp\<close>: a table of commands, and \<open>execute\<close>, which splits a
  command line with two regular expressions and calls the command with its arguments. Callbacks are
  named by numbers; what a call of one returns is an argument. The loop over the arguments may, as
  far as its text goes, run forever, so \<open>execute\<close> returns \<open>None\<close> when it does; it is shown to return always.
\<close>

section \<open>The table and the patterns\<close>

record command_manager =
  m_cmds :: "string \<rightharpoonup> nat"

definition cm_new :: command_manager where
  "cm_new = \<lparr>m_cmds = Map.empty\<rparr>"

text \<open>\<open>emplace\<close> keeps the command that is there.\<close>

definition cm_add :: "string \<Rightarrow> nat \<Rightarrow> command_manager \<Rightarrow> command_manager" where
  "cm_add p_cmd p_callback c =
     (if m_cmds c p_cmd = None then c\<lparr>m_cmds := (m_cmds c)(p_cmd \<mapsto> p_callback)\<rparr> else c)"

definition cm_remove :: "string \<Rightarrow> command_manager \<Rightarrow> command_manager" where
  "cm_remove p_cmd c = c\<lparr>m_cmds := (m_cmds c)(p_cmd := None)\<rparr>"

text \<open>\<open>^([\S]+)[\s]*(.*)$\<close> and \<open>([\S]+)[\s]*=[\s]*([\S]+)\<close>\<close>

definition cmd_pattern :: "item list" where
  "cmd_pattern = [Item not_space Plus True, Item is_space Star False, Item is_dot Star True]"

definition args_pattern :: "item list" where
  "args_pattern =
     [Item not_space Plus True, Item is_space Star False, Item (is_char CHR ''='') Once False,
      Item is_space Star False, Item not_space Plus True]"

section \<open>Execution\<close>

text \<open>The loop: the map of arguments, or the message for a match that does not have two captures.\<close>

partial_function (option) parse_args :: "string \<Rightarrow> args_map \<Rightarrow> (string + args_map) option" where
  "parse_args args m =
     (case regex_search args_pattern args of
        None \<Rightarrow> Some (Inr m)
      | Some (whole, caps, suffix) \<Rightarrow>
          (if 3 \<noteq> Suc (length caps) then Some (Inl (''invalid argument:'' @ whole))
           else parse_args suffix (try_emplace (caps ! 0) (caps ! 1) m)))"

definition cm_execute :: "(nat \<Rightarrow> args_map \<Rightarrow> string) \<Rightarrow> string \<Rightarrow> command_manager \<Rightarrow> string option" where
  "cm_execute call p_cmd c =
     (let (cmd, args) = (case regex_match cmd_pattern p_cmd of Some mt \<Rightarrow> (mt ! 0, mt ! 1) | None \<Rightarrow> ([], []))
      in case parse_args args Map.empty of
           None \<Rightarrow> None
         | Some (Inl msg) \<Rightarrow> Some msg
         | Some (Inr m) \<Rightarrow>
             (case m_cmds c cmd of
                None \<Rightarrow> Some (''command not found: '' @ [CHR 0x22] @ cmd @ [CHR 0x22])
              | Some cb \<Rightarrow> Some (call cb m)))"

section \<open>The loop ends\<close>

lemma find_SomeD: "find P xs = Some x \<Longrightarrow> x \<in> set xs \<and> P x"
  by (induction xs) (auto split: if_splits)

lemma find_match_suffix:
  assumes "find_match P (Item c Plus g # p) s = Some (cs, r)"
  shows "length r < length s"
proof -
  obtain k where k: "k \<in> set (counts Plus (length (takeWhile c s)))" and m: "\<exists>cs'. (cs', r) \<in> set (matches p (drop k s))"
    using find_SomeD [of _ "matches (Item c Plus g # p) s" "(cs, r)"] assms by (fastforce simp: find_match_def)
  have "0 < k" "k \<le> length s" using k length_takeWhile_le [of c s] by (auto simp: counts_def simp del: upt_Suc)
  moreover have "length r \<le> length (drop k s)" using m matches_suffix by blast
  ultimately show ?thesis by simp
qed

lemma args_caps:
  assumes "(cs, r) \<in> set (matches p s)"
  shows "length cs = length (filter (\<lambda>i. case i of Item _ _ g \<Rightarrow> g) p)"
  using assms by (induction p s arbitrary: cs r rule: matches.induct) auto

lemma regex_search_shrinks:
  assumes "regex_search (Item c Plus g # p) s = Some (w, cs, r)"
  shows "length r < length s \<and> length cs = length (filter (\<lambda>i. case i of Item _ _ g \<Rightarrow> g) (Item c Plus g # p))"
  using assms
proof (induction s)
  case Nil
  then show ?case by (subst (asm) regex_search_find) (auto split: option.splits dest: find_match_suffix)
next
  case (Cons d s)
  show ?case
  proof (cases "find_match (\<lambda>_. True) (Item c Plus g # p) (d # s)")
    case None
    then have "regex_search (Item c Plus g # p) s = Some (w, cs, r)"
      using Cons.prems by (subst (asm) regex_search_find) simp
    then show ?thesis using Cons.IH by simp
  next
    case (Some m)
    then have m: "m = (cs, r)" using Cons.prems by (subst (asm) regex_search_find) (simp split: prod.splits)
    then have "(cs, r) \<in> set (matches (Item c Plus g # p) (d # s))"
      using Some find_SomeD unfolding find_match_def by fast
    then show ?thesis using find_match_suffix [OF Some [unfolded m]] args_caps by blast
  qed
qed

lemma parse_args_returns: "\<exists>m'. parse_args args m = Some (Inr m')"
proof (induction "length args" arbitrary: args m rule: less_induct)
  case less
  show ?case
  proof (cases "regex_search args_pattern args")
    case None
    then show ?thesis by (simp add: parse_args.simps [of args])
  next
    case (Some x)
    then obtain w cs r where x: "x = (w, cs, r)" by (cases x) auto
    have "length r < length args" "length cs = 2"
      using regex_search_shrinks [of not_space True "tl args_pattern" args w cs r] Some x by (simp_all add: args_pattern_def)
    then show ?thesis using less Some x by (simp add: parse_args.simps [of args])
  qed
qed

section \<open>What a command line means\<close>

lemma greedy_dots:
  assumes "\<forall>c \<in> set s. is_dot c"
  shows "find_match (\<lambda>r. r = []) [Item is_dot Star True] s = Some ([s], [])"
proof -
  have n: "length (takeWhile is_dot s) = length s" using assms by (simp add: takeWhile_eq_all_conv [THEN iffD2])
  show ?thesis unfolding find_match_Cons counts_def quant.case n
    by (rule first_some_descending [of "length s"]) (simp_all add: find_match_Nil)
qed

lemma cmd_pattern_match:
  assumes cmd: "cmd \<noteq> []" "\<forall>c \<in> set cmd. not_space c" and t: "\<forall>c \<in> set t. is_dot c" "t = [] \<or> is_space (hd t)"
  shows "regex_match cmd_pattern (cmd @ t) = Some [cmd, dropWhile is_space t]"
proof -
  have "find_match (\<lambda>r. r = []) (tl cmd_pattern) t = Some ([dropWhile is_space t], [])"
  proof -
    let ?n = "length (takeWhile is_space t)"
    have "find_match (\<lambda>r. r = []) [Item is_dot Star True] (drop ?n t) = Some ([dropWhile is_space t], [])"
      unfolding dropWhile_eq_drop using t(1) by (intro greedy_dots) (auto dest: in_set_dropD)
    then show ?thesis unfolding cmd_pattern_def list.sel find_match_Cons [of _ is_space] counts_def quant.case
      by (intro first_some_descending [of ?n]) simp_all
  qed
  moreover have "takeWhile not_space (cmd @ t) = cmd"
    using cmd(2) t(2) by (cases t) (simp_all add: not_space_def)
  ultimately have "find_match (\<lambda>r. r = []) (Item not_space Plus True # tl cmd_pattern) (cmd @ t) = Some ([cmd, dropWhile is_space t], [])"
    unfolding find_match_Cons [of _ not_space] counts_def quant.case
    using cmd(1) by (intro first_some_descending [of "length cmd"]) (auto simp: Suc_le_eq)
  then show ?thesis by (simp add: regex_match_find cmd_pattern_def)
qed

text \<open>The part of the argument pattern after the key.\<close>

abbreviation eq_value :: "item list" where
  "eq_value \<equiv> drop 2 args_pattern"

lemma value_match:
  assumes "v \<noteq> []" "\<forall>c \<in> set v. not_space c" "rest = [] \<or> is_space (hd rest)"
  shows "find_match (\<lambda>_. True) [Item not_space Plus True] (v @ rest) = Some ([v], rest)"
proof -
  have "takeWhile not_space (v @ rest) = v" using assms(2,3) by (cases rest) (simp_all add: not_space_def)
  then show ?thesis unfolding find_match_Cons counts_def quant.case
    using assms(1) by (intro first_some_descending [of "length v"]) (auto simp: find_match_Nil Suc_le_eq)
qed

lemma value_space: "is_space c \<Longrightarrow> find_match P (Item not_space q g # p) (c # s) = None" if "q = Plus"
  using that by (simp add: find_match_Cons counts_def not_space_def)

lemma eq_value_match:
  assumes v: "v \<noteq> []" "\<forall>c \<in> set v. not_space c" "rest = [] \<or> is_space (hd rest)" and b: "\<forall>c \<in> set b. is_space c"
  shows "find_match (\<lambda>_. True) eq_value (CHR ''='' # b @ v @ rest) = Some ([v], rest)"
proof -
  have "dropWhile is_space (b @ v @ rest) = v @ rest" using b v(1,2) by (cases v) (simp_all add: dropWhile_append2 not_space_def)
  moreover have "find_match (\<lambda>_. True) [Item is_space Star False, Item not_space Plus True] (b @ v @ rest) =
      find_match (\<lambda>_. True) [Item not_space Plus True] (dropWhile is_space (b @ v @ rest))"
    by (rule find_match_skip) (simp add: value_space)
  ultimately show ?thesis using value_match [OF v] by (simp add: args_pattern_def find_match_char)
qed

lemma eq_value_other: "c \<noteq> CHR ''='' \<Longrightarrow> find_match P eq_value (c # s) = None" "find_match P eq_value [] = None"
  by (simp_all add: args_pattern_def find_match_char)

lemma blanks_eq_value: "find_match P (tl args_pattern) s = find_match P eq_value (dropWhile is_space s)"
proof -
  have "c \<noteq> CHR ''=''" if "is_space c" for c using that by (auto simp: is_space_def)
  then show ?thesis using find_match_skip [of is_space P eq_value s] by (simp add: args_pattern_def find_match_char)
qed

definition word_ok :: "string \<Rightarrow> bool" where
  "word_ok w \<longleftrightarrow> w \<noteq> [] \<and> (\<forall>c \<in> set w. not_space c \<and> c \<noteq> CHR ''='')"

definition blank :: "string \<Rightarrow> bool" where
  "blank s \<longleftrightarrow> (\<forall>c \<in> set s. is_space c \<and> is_dot c)"

text \<open>What may follow a value: nothing, or a blank and then no equals sign.\<close>

definition next_ok :: "string \<Rightarrow> bool" where
  "next_ok rest \<longleftrightarrow> rest = [] \<or> is_space (hd rest) \<and> (dropWhile is_space rest = [] \<or> hd (dropWhile is_space rest) \<noteq> CHR ''='')"

lemma eq_value_next: "next_ok rest \<Longrightarrow> find_match P eq_value (dropWhile is_space rest) = None"
proof (cases "dropWhile is_space rest")
  case Nil
  show ?thesis unfolding Nil by (rule eq_value_other)
next
  case (Cons c s)
  assume "next_ok rest"
  then have "c \<noteq> CHR ''=''" using Cons by (auto simp: next_ok_def)
  then show ?thesis unfolding Cons by (rule eq_value_other)
qed

text \<open>Inside the word that follows a key directly, the pattern does not go on.\<close>

lemma no_later_equals:
  assumes "\<forall>c \<in> set w. not_space c \<and> c \<noteq> CHR ''=''" "find_match P eq_value (dropWhile is_space r) = None" "j \<le> length w"
  shows "find_match P eq_value (dropWhile is_space (drop j w @ r)) = None"
proof (cases "drop j w")
  case (Cons c x)
  then have "c \<in> set w" by (metis in_set_dropD list.set_intros(1))
  then show ?thesis using assms(1) Cons by (simp add: not_space_def eq_value_other)
qed (use assms in simp)

lemma arg_match:
  assumes k: "word_ok k" and v: "word_ok v" and a: "blank a" and b: "blank b" and n: "next_ok rest"
  shows "find_match (\<lambda>_. True) args_pattern (k @ a @ CHR ''='' # b @ v @ rest) = Some ([k, v], rest)"
proof -
  let ?s = "k @ a @ CHR ''='' # b @ v @ rest"
  let ?f = "\<lambda>i. map_option (\<lambda>(cs, r). (take i ?s # cs, r)) (find_match (\<lambda>_. True) eq_value (dropWhile is_space (drop i ?s)))"
  have e: "find_match (\<lambda>_. True) args_pattern ?s = first_some ?f (rev [1..<Suc (length (takeWhile not_space ?s))])"
  proof -
    have "args_pattern = Item not_space Plus True # tl args_pattern" by (simp add: args_pattern_def)
    then show ?thesis using find_match_Cons [of "\<lambda>_. True" not_space Plus True "tl args_pattern" ?s]
      by (simp add: counts_def blanks_eq_value)
  qed
  have r: "rest = [] \<or> is_space (hd rest)" using n by (auto simp: next_ok_def)
  have eqs: "\<not> is_space CHR ''=''" by (simp add: is_space_def)
  have "dropWhile is_space (a @ CHR ''='' # b @ v @ rest) = CHR ''='' # b @ v @ rest"
    using a eqs by (simp add: blank_def dropWhile_append2)
  then have fk: "?f (length k) = Some ([k, v], rest)"
    using eq_value_match [of v rest b] v b r by (simp add: word_ok_def blank_def)
  have kn: "length k \<le> length (takeWhile not_space ?s)" "1 \<le> length k"
    using k by (auto simp: word_ok_def takeWhile_append Suc_le_eq)
  have "?f j = None" if j: "length k < j" "j \<le> length (takeWhile not_space ?s)" for j
  proof -
    have tk: "takeWhile not_space ?s = k @ takeWhile not_space (a @ CHR ''='' # b @ v @ rest)"
      using k by (intro takeWhile_append2) (auto simp: word_ok_def)
    have a0: "a = []" using j a tk by (cases a) (auto simp: blank_def not_space_def)
    define w r' where "w = (if b = [] then v else [])" and "r' = (if b = [] then rest else b @ v @ rest)"
    have s: "b @ v @ rest = w @ r'" by (simp add: w_def r'_def)
    have w: "\<forall>c \<in> set w. not_space c \<and> c \<noteq> CHR ''=''" using v by (simp add: w_def word_ok_def)
    have "r' = [] \<or> is_space (hd r')" using b r by (cases b) (auto simp: r'_def blank_def)
    then have "takeWhile not_space (w @ r') = w" using w by (cases r') (simp_all add: not_space_def)
    then have "j \<le> length k + Suc (length w)" using j(2) tk a0 eqs by (simp add: s not_space_def)
    moreover obtain i where i: "j = length k + Suc i" using j(1) less_iff_Suc_add by auto
    ultimately have iw: "i \<le> length w" by simp
    have "find_match (\<lambda>_. True) eq_value (dropWhile is_space r') = None"
    proof (cases "b = []")
      case False
      then have "dropWhile is_space r' = v @ rest" using b v by (cases v) (simp_all add: r'_def blank_def dropWhile_append2 word_ok_def not_space_def)
      then show ?thesis using v by (cases v) (simp_all add: word_ok_def eq_value_other)
    qed (use n in \<open>simp add: r'_def eq_value_next\<close>)
    then have "find_match (\<lambda>_. True) eq_value (dropWhile is_space (drop i w @ r')) = None"
      by (intro no_later_equals [OF w _ iw])
    then show ?thesis using iw by (simp add: i a0 s)
  qed
  then show ?thesis unfolding e using kn fk by (intro first_some_descending [of "length k"]) auto
qed

lemma search_arg:
  assumes "word_ok k" "word_ok v" "blank a" "blank b" "next_ok rest"
  shows "\<exists>w. regex_search args_pattern (k @ a @ CHR ''='' # b @ v @ rest) = Some (w, [k, v], rest)"
  by (subst regex_search_find) (simp add: arg_match [OF assms])

lemma search_blank: "is_space c \<Longrightarrow> regex_search args_pattern (c # s) = regex_search args_pattern s"
  by (subst regex_search_find) (simp add: args_pattern_def value_space)

lemma parse_args_blank: "\<forall>c \<in> set sp. is_space c \<Longrightarrow> parse_args (sp @ s) m = parse_args s m"
proof (induction sp)
  case (Cons c sp)
  then have "parse_args (c # sp @ s) m = parse_args (sp @ s) m"
    using search_blank [of c "sp @ s"] by (simp add: parse_args.simps [of "c # sp @ s"] parse_args.simps [of "sp @ s"])
  with Cons show ?case by simp
qed simp

text \<open>One argument of a command line: blanks, the key, blanks, the equals sign, blanks, the value.\<close>

definition arg_text :: "string \<times> string \<times> string \<times> string \<times> string \<Rightarrow> string" where
  "arg_text = (\<lambda>(sep, k, a, b, v). sep @ k @ a @ CHR ''='' # b @ v)"

definition arg_ok :: "string \<times> string \<times> string \<times> string \<times> string \<Rightarrow> bool" where
  "arg_ok = (\<lambda>(sep, k, a, b, v). sep \<noteq> [] \<and> blank sep \<and> blank a \<and> blank b \<and> word_ok k \<and> word_ok v)"

definition arg_binding :: "string \<times> string \<times> string \<times> string \<times> string \<Rightarrow> string \<times> string" where
  "arg_binding = (\<lambda>(sep, k, a, b, v). (k, v))"

lemma arg_simps:
  "arg_text (sep, k, a, b, v) = sep @ k @ a @ CHR ''='' # b @ v" "arg_binding (sep, k, a, b, v) = (k, v)"
  by (simp_all add: arg_text_def arg_binding_def)

lemma next_ok_args:
  assumes "\<forall>x \<in> set args. arg_ok x"
  shows "next_ok (concat (map arg_text args))"
proof (cases args)
  case (Cons x xs)
  obtain sep k a b v where x: "x = (sep, k, a, b, v)" by (cases x) auto
  then have ok: "sep \<noteq> []" "\<forall>c \<in> set sep. is_space c" "word_ok k" using assms Cons by (auto simp: arg_ok_def blank_def)
  then obtain d k' where k: "k = d # k'" "not_space d" "d \<noteq> CHR ''=''" by (cases k) (auto simp: word_ok_def)
  then show ?thesis using ok by (cases sep) (auto simp: Cons x next_ok_def arg_text_def dropWhile_append2 not_space_def)
qed (simp add: next_ok_def)

lemma parse_args_text:
  assumes "\<forall>x \<in> set args. arg_ok x"
  shows "parse_args (concat (map arg_text args)) m = Some (Inr (map_of (map arg_binding args) ++ m))"
  using assms
proof (induction args arbitrary: m)
  case Nil
  have "regex_search args_pattern [] = None"
    by (subst regex_search_find) (simp add: args_pattern_def find_match_Cons [of _ not_space] counts_def)
  then show ?case by (simp add: parse_args.simps)
next
  case (Cons x args)
  obtain sep k a b v where x: "x = (sep, k, a, b, v)" by (cases x) auto
  then have ok: "\<forall>c \<in> set sep. is_space c" "word_ok k" "word_ok v" "blank a" "blank b"
    using Cons.prems by (auto simp: arg_ok_def blank_def)
  let ?rest = "concat (map arg_text args)"
  have "next_ok ?rest" using Cons.prems by (intro next_ok_args) simp
  then obtain w where w: "regex_search args_pattern (k @ a @ CHR ''='' # b @ v @ ?rest) = Some (w, [k, v], ?rest)"
    using search_arg [OF ok(2-5)] by blast
  have "parse_args (concat (map arg_text (x # args))) m = parse_args ?rest (try_emplace k v m)"
    using parse_args_blank [OF ok(1), of "k @ a @ CHR ''='' # b @ v @ ?rest" m]
    by (simp add: x arg_simps parse_args.simps [of "k @ a @ _"] w)
  also have "\<dots> = Some (Inr (map_of (map arg_binding args) ++ try_emplace k v m))" using Cons by simp
  also have "map_of (map arg_binding args) ++ try_emplace k v m = map_of (map arg_binding (x # args)) ++ m"
    by (auto simp: x arg_simps try_emplace_def map_add_def fun_eq_iff split: option.split)
  finally show ?case .
qed

text \<open>C14. \<open>execute\<close> returns on every command line, whatever it contains, since each match of the argument
  pattern leaves a shorter text; and it never reports an invalid argument: the answer is that of the
  command or that there is no such command.\<close>

theorem execute_always_returns:
  "\<exists>m. cm_execute call p_cmd c =
     (let cmd = (case regex_match cmd_pattern p_cmd of Some mt \<Rightarrow> mt ! 0 | None \<Rightarrow> [])
      in case m_cmds c cmd of
           None \<Rightarrow> Some (''command not found: '' @ [CHR 0x22] @ cmd @ [CHR 0x22])
         | Some cb \<Rightarrow> Some (call cb m))"
proof -
  obtain cmd args where p: "(case regex_match cmd_pattern p_cmd of Some mt \<Rightarrow> (mt ! 0, mt ! 1) | None \<Rightarrow> ([], [])) = (cmd, args)"
    by fastforce
  then have "(case regex_match cmd_pattern p_cmd of Some mt \<Rightarrow> mt ! 0 | None \<Rightarrow> []) = cmd" by (auto split: option.splits)
  moreover obtain m where "parse_args args Map.empty = Some (Inr m)" using parse_args_returns by blast
  ultimately show ?thesis by (intro exI [of _ m]) (simp add: cm_execute_def p)
qed

text \<open>C36. A command line written as a command and arguments \<open>key = value\<close>, with any blanks around the equals
  signs, calls the command with exactly these arguments, the first of a key counting. Words contain
  neither blanks nor equals signs, blanks no line terminators.\<close>

theorem command_line_roundtrip:
  assumes "cmd \<noteq> []" "\<forall>ch \<in> set cmd. not_space ch" "\<forall>x \<in> set args. arg_ok x" "\<forall>ch \<in> set (concat (map arg_text args)). is_dot ch"
    and "m_cmds c cmd = Some cb"
  shows "cm_execute call (cmd @ concat (map arg_text args)) c = Some (call cb (map_of (map arg_binding args)))"
proof -
  let ?t = "concat (map arg_text args)"
  have "?t = [] \<or> is_space (hd ?t)" using next_ok_args [OF assms(3)] by (auto simp: next_ok_def)
  then have "regex_match cmd_pattern (cmd @ ?t) = Some [cmd, dropWhile is_space ?t]"
    by (intro cmd_pattern_match assms(1,2,4))
  moreover have "parse_args (dropWhile is_space ?t) Map.empty = parse_args ?t Map.empty"
  proof -
    have "\<forall>ch \<in> set (takeWhile is_space ?t). is_space ch" by (auto dest: set_takeWhileD)
    from parse_args_blank [OF this, of "dropWhile is_space ?t"] show ?thesis by simp
  qed
  ultimately show ?thesis using parse_args_text [OF assms(3), of Map.empty] assms(5) by (simp add: cm_execute_def)
qed

theorem command_line_roundtrip_witness:
  "cm_execute (\<lambda>cb m. the (args_arg ''trigger'' m)) ''window fd =1 trigger = manual size= 40'' (cm_add ''window'' 7 cm_new) = Some ''manual''"
proof -
  let ?args = "[('' '', ''fd'', '' '', [], ''1''), ('' '', ''trigger'', '' '', '' '', ''manual''), ('' '', ''size'', [], '' '', ''40'')]"
  have "\<forall>x \<in> set ?args. arg_ok x"
    by (simp add: arg_ok_def blank_def word_ok_def not_space_def is_space_def is_dot_def)
  moreover have "\<forall>ch \<in> set (concat (map arg_text ?args)). is_dot ch" by (simp add: arg_text_def is_dot_def)
  moreover have "\<forall>ch \<in> set ''window''. not_space ch" by (simp add: not_space_def is_space_def)
  ultimately show ?thesis
    using command_line_roundtrip [of "''window''" ?args "cm_add ''window'' 7 cm_new" 7 "\<lambda>cb m. the (args_arg ''trigger'' m)"]
    by (simp add: cm_add_def cm_new_def arg_text_def arg_binding_def args_arg_def)
qed


end
