(* ===== verification/Bfc_Metric.thy ===== *)
theory Bfc_Metric
  imports Bfc_Ordered_Map "HOL-Library.List_Lexorder" "HOL-Library.Char_ord"
begin

text \<open>
  The metrics of \<open>src/src/bfc/metric.hpp\<close>: a \<open>metric\<close> is an atomic \<open>double\<close>, a \<open>monitor\<close> a table of metrics that a
  thread writes to files.

  A \<open>double\<close> is modelled with the IEEE 754 binary64 addition, rounding to nearest, ties to even; all
  NaNs are one value. The threads that share a metric appear as a function that changes the value before
  each compare-exchange. The loop of \<open>fetch_add\<close> may run forever: it is a partial function.
\<close>

section \<open>Doubles\<close>

text \<open>\<open>Finite s m e\<close> is \<open>m * 2 ^ e\<close>, negated when \<open>s\<close>; the representation is unique.\<close>

datatype double = NaN | Infinity bool | Finite bool nat int

definition double_ok :: "double \<Rightarrow> bool" where
  "double_ok d =
     (case d of
        Finite s m e \<Rightarrow> m < 2 ^ 53 \<and> -1074 \<le> e \<and> e \<le> 971 \<and> (2 ^ 52 \<le> m \<or> e = -1074)
      | _ \<Rightarrow> True)"

definition dzero :: double where
  "dzero = Finite False 0 (-1074)"

fun bit_len :: "nat \<Rightarrow> nat" where
  "bit_len n = (if n = 0 then 0 else Suc (bit_len (n div 2)))"

declare bit_len.simps [simp del]

definition round_even :: "nat \<Rightarrow> nat \<Rightarrow> nat" where
  "round_even m k =
     (let q = m div 2 ^ k; r = m mod 2 ^ k
      in if 2 ^ k < 2 * r \<or> (2 ^ k = 2 * r \<and> odd q) then q + 1 else q)"

text \<open>The double nearest to \<open>m * 2 ^ e\<close>.\<close>

definition round_double :: "bool \<Rightarrow> nat \<Rightarrow> int \<Rightarrow> double" where
  "round_double s m e =
     (let E = max (e + int (bit_len m) - 53) (-1074);
          m' = (if E \<le> e then m * 2 ^ nat (e - E) else round_even m (nat (E - e)));
          (m', E) = (if m' = 2 ^ 53 then (2 ^ 52, E + 1) else (m', E))
      in if E > 971 then Infinity s else Finite s m' E)"

definition signed_int :: "bool \<Rightarrow> nat \<Rightarrow> int" where
  "signed_int s m = (if s then - int m else int m)"

fun fadd :: "double \<Rightarrow> double \<Rightarrow> double" where
  "fadd (Finite s1 m1 e1) (Finite s2 m2 e2) =
     (let e = min e1 e2;
          v = signed_int s1 m1 * 2 ^ nat (e1 - e) + signed_int s2 m2 * 2 ^ nat (e2 - e)
      in if v = 0 then Finite (s1 \<and> s2) 0 (-1074) else round_double (v < 0) (nat \<bar>v\<bar>) e)"
| "fadd (Infinity s1) (Infinity s2) = (if s1 = s2 then Infinity s1 else NaN)"
| "fadd (Infinity s) (Finite _ _ _) = Infinity s"
| "fadd (Finite _ _ _) (Infinity s) = Infinity s"
| "fadd _ _ = NaN"

fun fneg :: "double \<Rightarrow> double" where
  "fneg NaN = NaN"
| "fneg (Infinity s) = Infinity (\<not> s)"
| "fneg (Finite s m e) = Finite (\<not> s) m e"

definition fsub :: "double \<Rightarrow> double \<Rightarrow> double" where
  "fsub a b = fadd a (fneg b)"

text \<open>The operator \<open>==\<close>: a NaN equals nothing, the two zeros are equal.\<close>

fun feq :: "double \<Rightarrow> double \<Rightarrow> bool" where
  "feq NaN _ = False"
| "feq _ NaN = False"
| "feq (Finite s1 m1 e1) (Finite s2 m2 e2) = ((m1 = 0 \<and> m2 = 0) \<or> Finite s1 m1 e1 = Finite s2 m2 e2)"
| "feq a b = (a = b)"

section \<open>The metric\<close>

record metric =
  m_value :: double

definition metric_new :: metric where
  "metric_new = \<lparr>m_value = dzero\<rparr>"

definition metric_store :: "double \<Rightarrow> metric \<Rightarrow> metric" where
  "metric_store val m = m\<lparr>m_value := val\<rparr>"

definition metric_load :: "metric \<Rightarrow> double" where
  "metric_load m = m_value m"

text \<open>
  \<open>while (m_value.compare_exchange_strong(old, f old));\<close> Before the i-th attempt the other threads change the
  value by \<open>env i\<close>. An attempt that finds the representation of \<open>old\<close> stores \<open>f old\<close> and the loop goes on;
  one that fails loads the value and ends the loop.
\<close>

partial_function (option) cas_loop ::
    "(double \<Rightarrow> double) \<Rightarrow> (nat \<Rightarrow> double \<Rightarrow> double) \<Rightarrow> nat \<Rightarrow> double \<Rightarrow> metric \<Rightarrow> (double \<times> metric) option"
where
  "cas_loop f env i old m =
     (let v = env i (m_value m)
      in if v = old then cas_loop f env (Suc i) old (m\<lparr>m_value := f old\<rparr>)
         else Some (v, m\<lparr>m_value := v\<rparr>))"

definition metric_fetch_add :: "(nat \<Rightarrow> double \<Rightarrow> double) \<Rightarrow> double \<Rightarrow> metric \<Rightarrow> (double \<times> metric) option" where
  "metric_fetch_add env val m =
     (let old = m_value m
      in if feq old (fadd old val) then Some (old, m) else cas_loop (\<lambda>old. fadd old val) env 0 old m)"

definition metric_fetch_sub :: "(nat \<Rightarrow> double \<Rightarrow> double) \<Rightarrow> double \<Rightarrow> metric \<Rightarrow> (double \<times> metric) option" where
  "metric_fetch_sub env val m =
     (let old = m_value m
      in if feq old (fsub old val) then Some (old, m) else cas_loop (\<lambda>old. fsub old val) env 0 old m)"

section \<open>The monitor\<close>

text \<open>The files by name; a line of output formats a value with 20 digits, an argument.\<close>

record monitor =
  m_interval_ms :: u64
  m_path :: string
  m_last_update :: int
  m_monitor_running :: bool
  m_metrics :: "(string, metric) ordmap"
  files :: "string \<rightharpoonup> string"

definition newline :: char where "newline = CHR 0x0A"

definition monitor_new :: "u64 \<Rightarrow> string \<Rightarrow> (string \<rightharpoonup> string) \<Rightarrow> monitor" where
  "monitor_new interval_ms path fs =
     \<lparr>m_interval_ms = interval_ms, m_path = path, m_last_update = 0, m_monitor_running = True, m_metrics = [],
      files = fs(path @ ''.csv'' \<mapsto> [])\<rparr>"

definition get_metric :: "string \<Rightarrow> monitor \<Rightarrow> monitor" where
  "get_metric full_name mon =
     (if om_find full_name (m_metrics mon) \<noteq> None then mon
      else mon\<lparr>m_metrics := snd (om_emplace full_name metric_new (m_metrics mon))\<rparr>)"

text \<open>
  \<open>collect\<close>: the text for the new file and the text appended to the CSV file. The new file is renamed
  while its stream is open, so at that moment it holds only the \<open>flushed\<close> first characters; the rest
  follows when the stream is destroyed.
\<close>

definition collect_text :: "(double \<Rightarrow> string) \<Rightarrow> monitor \<Rightarrow> string" where
  "collect_text fmt mon = concat (map (\<lambda>(key, val). key @ '' '' @ fmt (metric_load val) @ [newline]) (m_metrics mon))"

definition collect_csv :: "(double \<Rightarrow> string) \<Rightarrow> string \<Rightarrow> monitor \<Rightarrow> string" where
  "collect_csv fmt now mon =
     now @ '','' @ concat (map (\<lambda>(key, val). fmt (metric_load val) @ '','') (m_metrics mon)) @ [newline]"

definition collect_renamed :: "(double \<Rightarrow> string) \<Rightarrow> nat \<Rightarrow> monitor \<Rightarrow> string \<rightharpoonup> string" where
  "collect_renamed fmt flushed mon =
     (files mon)(m_path mon @ ''_'' := None, m_path mon \<mapsto> take flushed (collect_text fmt mon))"

definition collect :: "(double \<Rightarrow> string) \<Rightarrow> nat \<Rightarrow> string \<Rightarrow> monitor \<Rightarrow> monitor" where
  "collect fmt flushed now mon =
     (let csv = m_path mon @ ''.csv'';
          old = (case files mon csv of None \<Rightarrow> [] | Some t \<Rightarrow> t);
          fs = collect_renamed fmt flushed mon
      in mon\<lparr>files := fs(csv \<mapsto> old @ collect_csv fmt now mon, m_path mon \<mapsto> collect_text fmt mon)\<rparr>)"

text \<open>One round of \<open>run_monitor\<close>: the comparison of the signed difference with the unsigned interval is unsigned.\<close>

definition monitor_round :: "(double \<Rightarrow> string) \<Rightarrow> nat \<Rightarrow> int \<Rightarrow> string \<Rightarrow> monitor \<Rightarrow> monitor" where
  "monitor_round fmt flushed now now_text mon =
     (let diff = now - m_last_update mon
      in if (word_of_int diff :: u64) > m_interval_ms mon
         then collect fmt flushed now_text (mon\<lparr>m_last_update := now\<rparr>) else mon)"

text \<open>
  The thread: one entry of the list for each round, with the clock, its text and what the other threads
  do to the monitor during the sleep (the destructor included); the flag tells whether it has returned.
\<close>

fun run_monitor :: "(double \<Rightarrow> string) \<Rightarrow> (nat \<times> int \<times> string \<times> (monitor \<Rightarrow> monitor)) list \<Rightarrow> monitor \<Rightarrow> bool \<times> monitor" where
  "run_monitor fmt rounds mon =
     (if \<not> m_monitor_running mon then (True, mon)
      else
        (case rounds of
           [] \<Rightarrow> (False, mon)
         | (flushed, now, now_text, others) # rounds \<Rightarrow>
             run_monitor fmt rounds (others (monitor_round fmt flushed now now_text mon))))"

declare run_monitor.simps [simp del]

definition monitor_dtor :: "monitor \<Rightarrow> monitor" where
  "monitor_dtor mon = mon\<lparr>m_monitor_running := False\<rparr>"

section \<open>Rounding gives doubles\<close>

lemma bit_len_bounds: "n < 2 ^ bit_len n" "0 < n \<Longrightarrow> 2 ^ (bit_len n - 1) \<le> n"
proof (induction n rule: bit_len.induct)
  case (1 n)
  { case 1
    show ?case using "1.IH"(1) by (cases "n = 0") (auto simp: bit_len.simps [of n])
  next
    case 2
    show ?case
    proof (cases "n div 2 = 0")
      case True
      then have "n = 1" using 2 by auto
      then show ?thesis by (simp add: bit_len.simps)
    next
      case False
      then have "2 ^ (bit_len (n div 2) - 1) \<le> n div 2" "0 < bit_len (n div 2)"
        using "1.IH"(2) 2 by (auto simp: bit_len.simps [of "n div 2"])
      then have "2 ^ bit_len (n div 2) \<le> 2 * (n div 2)" by (cases "bit_len (n div 2)") auto
      then show ?thesis using 2 by (simp add: bit_len.simps [of n])
    qed }
qed

lemma round_even_bounds: "m div 2 ^ k \<le> round_even m k" "round_even m k \<le> m div 2 ^ k + 1"
  by (simp_all add: round_even_def Let_def)

lemma mantissa_exact:
  assumes "0 < m" "E \<le> e" "e + int (bit_len m) - 53 \<le> E"
  shows "m * 2 ^ nat (e - E) < 2 ^ 53" "E = e + int (bit_len m) - 53 \<Longrightarrow> 2 ^ 52 \<le> m * 2 ^ nat (e - E)"
proof -
  have L: "0 < bit_len m" using assms(1) by (simp add: bit_len.simps [of m])
  have "bit_len m + nat (e - E) \<le> 53" using assms(2,3) by linarith
  then have "(2::nat) ^ (bit_len m + nat (e - E)) \<le> 2 ^ 53" by (intro power_increasing) simp_all
  moreover have "m * 2 ^ nat (e - E) < 2 ^ (bit_len m + nat (e - E))" using bit_len_bounds(1) [of m] by (simp add: power_add)
  ultimately show "m * 2 ^ nat (e - E) < 2 ^ 53" by (rule order_less_le_trans [rotated])
  assume "E = e + int (bit_len m) - 53"
  then have "bit_len m - 1 + nat (e - E) = 52" using L assms(2) by linarith
  then have "(2::nat) ^ 52 = 2 ^ (bit_len m - 1) * 2 ^ nat (e - E)" by (metis power_add)
  also have "\<dots> \<le> m * 2 ^ nat (e - E)" using bit_len_bounds(2) [OF assms(1)] by simp
  finally show "2 ^ 52 \<le> m * 2 ^ nat (e - E)" .
qed

lemma mantissa_rounded:
  assumes "0 < m" "bit_len m = k + 53"
  shows "2 ^ 52 \<le> round_even m k" "round_even m k \<le> 2 ^ 53"
proof -
  have "bit_len m - 1 = 52 + k" "bit_len m = 53 + k" using assms(2) by simp_all
  then have lo: "2 ^ 52 * 2 ^ k \<le> m" and hi: "m < 2 ^ 53 * 2 ^ k"
    using bit_len_bounds [of m] assms(1) by (simp_all only: power_add)
  have "2 ^ 52 \<le> m div 2 ^ k" using lo by (simp add: less_eq_div_iff_mult_less_eq)
  moreover have "m div 2 ^ k < 2 ^ 53" using hi by (simp only: less_mult_imp_div_less)
  ultimately show "2 ^ 52 \<le> round_even m k" "round_even m k \<le> 2 ^ 53"
    using round_even_bounds [of m k] by linarith+
qed

lemma round_double_ok:
  assumes "0 < m" "-1074 \<le> e"
  shows "double_ok (round_double s m e)"
proof -
  define E where "E = max (e + int (bit_len m) - 53) (-1074)"
  define m' where "m' = (if E \<le> e then m * 2 ^ nat (e - E) else round_even m (nat (E - e)))"
  have E: "e + int (bit_len m) - 53 \<le> E" "-1074 \<le> E" "E \<noteq> -1074 \<Longrightarrow> E = e + int (bit_len m) - 53"
    by (auto simp: E_def)
  have m': "m' \<le> 2 ^ 53 \<and> (2 ^ 52 \<le> m' \<or> E = -1074)"
  proof (cases "E \<le> e")
    case True
    then show ?thesis using mantissa_exact [OF assms(1) True E(1)] E(3) by (auto simp: m'_def)
  next
    case False
    then have "E = e + int (bit_len m) - 53" using E(3) assms(2) by linarith
    then have "bit_len m = nat (E - e) + 53" using False by linarith
    from mantissa_rounded [OF assms(1) this] False show ?thesis by (simp add: m'_def)
  qed
  have "round_double s m e = (let (m', E) = (if m' = 2 ^ 53 then (2 ^ 52, E + 1) else (m', E))
      in if E > 971 then Infinity s else Finite s m' E)"
    unfolding round_double_def Let_def E_def [symmetric] m'_def [symmetric] ..
  then show ?thesis using m' E(2) by (auto simp: double_ok_def)
qed

lemma fadd_ok: "double_ok a \<Longrightarrow> double_ok b \<Longrightarrow> double_ok (fadd a b)"
proof (induction a b rule: fadd.induct)
  case (1 s1 m1 e1 s2 m2 e2)
  let ?v = "signed_int s1 m1 * 2 ^ nat (e1 - min e1 e2) + signed_int s2 m2 * 2 ^ nat (e2 - min e1 e2)"
  have "-1074 \<le> min e1 e2" using 1 by (simp add: double_ok_def)
  then have "double_ok (round_double (?v < 0) (nat \<bar>?v\<bar>) (min e1 e2))" if "?v \<noteq> 0"
    using that by (intro round_double_ok) auto
  moreover have "double_ok (Finite s 0 (-1074))" for s by (simp add: double_ok_def)
  ultimately show ?case unfolding fadd.simps Let_def by (cases "?v = 0") (simp_all only: if_True if_False simp_thms)
qed (simp_all add: double_ok_def)

lemma feq_refl: "a \<noteq> NaN \<Longrightarrow> feq a a"
  by (cases a) simp_all

section \<open>What \<open>fetch_add\<close> does\<close>

lemma cas_loop_quiet:
  assumes "f old \<noteq> old" "m_value m = old"
  shows "cas_loop f (\<lambda>_ v. v) i old m = Some (f old, m\<lparr>m_value := f old\<rparr>)"
  using assms by (simp add: cas_loop.simps [of f _ i] cas_loop.simps [of f _ "Suc i"] Let_def)

lemma cas_loop_stuck:
  assumes "cas_loop f (\<lambda>_ v. v) i old m = Some r" "f old = old" "m_value m = old"
  shows False
proof -
  have "env = (\<lambda>_ v. v) \<longrightarrow> m_value m \<noteq> old \<or> f old \<noteq> old" if "cas_loop f env i old m = Some r" for f env i old m r
  proof (rule cas_loop.raw_induct [of "\<lambda>f env i old m r. env = (\<lambda>_ v. v) \<longrightarrow> m_value m \<noteq> old \<or> f old \<noteq> old", OF _ that])
    fix loop f env i old and m :: metric and r
    assume IH: "\<And>f env i old m r. loop f env i old m = Some r \<Longrightarrow> env = (\<lambda>_ v. v) \<longrightarrow> m_value m \<noteq> old \<or> f old \<noteq> old"
      and step: "(let v = env i (m_value m) in if v = old then loop f env (Suc i) old (m\<lparr>m_value := f old\<rparr>) else Some (v, m\<lparr>m_value := v\<rparr>)) = Some r"
    show "env = (\<lambda>_ v. v) \<longrightarrow> m_value m \<noteq> old \<or> f old \<noteq> old"
    proof (intro impI, rule ccontr)
      assume e: "env = (\<lambda>_ v. v)" and c: "\<not> (m_value m \<noteq> old \<or> f old \<noteq> old)"
      then have "loop f env (Suc i) old (m\<lparr>m_value := f old\<rparr>) = Some r" using step by (simp add: Let_def)
      from IH [OF this] show False using e c by simp
    qed
  qed
  then show False using assms by blast
qed

lemma fadd_NaN: "fadd NaN x = NaN" by (cases x) simp_all

text \<open>C37. \<open>fetch_add\<close> on a metric that no other thread touches adds exactly once and returns the new value, not the
  one before the addition (they differ unless the addition is absorbed); the value stays a double. When
  another thread changes the value between the load and the exchange, the addition is lost and the
  other value is returned. On a metric that holds NaN it never returns.\<close>

theorem fetch_add_behaviour:
  "(m_value m \<noteq> NaN \<longrightarrow>
     (\<exists>r. metric_fetch_add (\<lambda>_ v. v) val m = Some (r, m\<lparr>m_value := r\<rparr>) \<and>
       (if feq (m_value m) (fadd (m_value m) val) then r = m_value m else r = fadd (m_value m) val) \<and>
       (double_ok (m_value m) \<and> double_ok val \<longrightarrow> double_ok r))) \<and>
   (\<not> feq (m_value m) (fadd (m_value m) val) \<and> env 0 (m_value m) \<noteq> m_value m \<longrightarrow>
     metric_fetch_add env val m = Some (env 0 (m_value m), m\<lparr>m_value := env 0 (m_value m)\<rparr>)) \<and>
   (m_value m = NaN \<longrightarrow> metric_fetch_add (\<lambda>_ v. v) val m = None)"
proof (intro conjI impI)
  let ?old = "m_value m"
  assume n: "?old \<noteq> NaN"
  have "fadd ?old val \<noteq> ?old" if "\<not> feq ?old (fadd ?old val)" using that feq_refl [OF n] by auto
  then show "\<exists>r. metric_fetch_add (\<lambda>_ v. v) val m = Some (r, m\<lparr>m_value := r\<rparr>) \<and>
       (if feq ?old (fadd ?old val) then r = ?old else r = fadd ?old val) \<and> (double_ok ?old \<and> double_ok val \<longrightarrow> double_ok r)"
    using cas_loop_quiet [of "\<lambda>old. fadd old val" ?old m 0] fadd_ok [of ?old val]
    by (cases "feq ?old (fadd ?old val)") (simp_all add: metric_fetch_add_def Let_def)
next
  assume "\<not> feq (m_value m) (fadd (m_value m) val) \<and> env 0 (m_value m) \<noteq> m_value m"
  then show "metric_fetch_add env val m = Some (env 0 (m_value m), m\<lparr>m_value := env 0 (m_value m)\<rparr>)"
    by (simp add: metric_fetch_add_def cas_loop.simps [of _ env 0] Let_def)
next
  assume n: "m_value m = NaN"
  show "metric_fetch_add (\<lambda>_ v. v) val m = None"
  proof (cases "metric_fetch_add (\<lambda>_ v. v) val m")
    case (Some r)
    then have "cas_loop (\<lambda>old. fadd old val) (\<lambda>_ v. v) 0 NaN m = Some r" using n by (simp add: metric_fetch_add_def)
    then show ?thesis using cas_loop_stuck n fadd_NaN by blast
  qed
qed

text \<open>Ten and five; ten while another thread stores one; NaN.\<close>

theorem fetch_add_behaviour_witness:
  "(\<exists>m'. metric_fetch_add (\<lambda>_ v. v) (Finite False 5 (-1074)) \<lparr>m_value = Finite False 10 (-1074)\<rparr> = Some (Finite False 15 (-1074), m')) \<and>
   metric_fetch_add (\<lambda>_ _. dzero) (Finite False 5 (-1074)) \<lparr>m_value = Finite False 10 (-1074)\<rparr> = Some (dzero, \<lparr>m_value = dzero\<rparr>) \<and>
   metric_fetch_add (\<lambda>_ v. v) dzero \<lparr>m_value = NaN\<rparr> = None"
proof -
  let ?ten = "Finite False 10 (-1074)" and ?five = "Finite False 5 (-1074)"
  have "bit_len 15 = 4"
    by (simp add: bit_len.simps [of 15] bit_len.simps [of 7] bit_len.simps [of 3] bit_len.simps [of "Suc 0"] bit_len.simps [of 0])
  then have "round_double False 15 (-1074) = Finite False 15 (-1074)" by (simp add: round_double_def)
  then have "fadd ?ten ?five = Finite False 15 (-1074)" by (simp add: signed_int_def)
  then show ?thesis
    using fetch_add_behaviour [of "\<lparr>m_value = ?ten\<rparr>" ?five "\<lambda>_ _. dzero"]
      fetch_add_behaviour [of "\<lparr>m_value = NaN\<rparr>" dzero "\<lambda>_ v. v"]
    by (simp add: dzero_def)
qed

section \<open>The table of metrics\<close>

lemma get_metric_wf: "om_wf (m_metrics mon) \<Longrightarrow> om_wf (m_metrics (get_metric n mon))"
  by (simp add: get_metric_def om_emplace_wf)

lemma get_metric_stable:
  assumes "om_wf (m_metrics mon)"
  shows "om_find n (m_metrics (get_metric n mon)) \<noteq> None"
    and "om_find k (m_metrics mon) = Some x \<Longrightarrow> om_find k (m_metrics (get_metric n mon)) = Some x"
  using assms om.lookup_emplace [of "m_metrics mon"] by (auto simp: get_metric_def)

text \<open>The file under the final name is complete only when \<open>collect\<close> returns, not when it is renamed.\<close>

lemma collect_file: "files (collect fmt fl now mon) (m_path mon) = Some (collect_text fmt mon)"
  "collect_renamed fmt 0 mon (m_path mon) = Some []"
  by (simp_all add: collect_def collect_renamed_def Let_def)

lemma run_monitor_stops: "fst (run_monitor fmt rounds (monitor_dtor mon))"
  by (simp add: run_monitor.simps monitor_dtor_def)


end
