(* ===== verification/Bfc_Registry.thy ===== *)
theory Bfc_Registry
  imports Bfc_Ordered_Map
begin

text \<open>
  The registry of \<open>src/src/bfc/object_registry.hpp\<close>: named objects held by \<open>std::shared_ptr\<close>. Objects are numbers
  with their use counts; \<open>held\<close> counts the references of the rest of the program. Each operation is one
  critical section of the mutex. The registry of a tag is the one static instance of \<open>get_instance\<close>, so a
  state is the whole registry. Its table is a keyed store (the locale of ordered and unordered maps).
\<close>

section \<open>State and operations\<close>

record object_registry =
  m_objects :: "string \<rightharpoonup> nat"
  use_count :: "nat \<Rightarrow> nat"
  held :: "nat \<Rightarrow> nat"
  destroyed :: "nat list"
  made :: nat

definition get_instance :: object_registry where
  "get_instance = \<lparr>m_objects = Map.empty, use_count = (\<lambda>_. 0), held = (\<lambda>_. 0), destroyed = [], made = 0\<rparr>"

text \<open>Copying and destroying a \<open>shared_ptr\<close>; the last reference destroys the object.\<close>

definition ref_copy :: "nat \<Rightarrow> object_registry \<Rightarrow> object_registry" where
  "ref_copy ob r = r\<lparr>use_count := (use_count r)(ob := use_count r ob + 1)\<rparr>"

definition ref_drop :: "nat \<Rightarrow> object_registry \<Rightarrow> object_registry" where
  "ref_drop ob r =
     r\<lparr>use_count := (use_count r)(ob := use_count r ob - 1),
       destroyed := (if use_count r ob = 1 then destroyed r @ [ob] else destroyed r)\<rparr>"

text \<open>\<open>add\<close> takes its argument by value: a reference that ends in the table or is dropped on return.\<close>

definition reg_add :: "string \<Rightarrow> nat option \<Rightarrow> object_registry \<Rightarrow> bool \<times> object_registry" where
  "reg_add name object r =
     (case object of
        None \<Rightarrow> (False, r)
      | Some ob \<Rightarrow>
          (let r = ref_copy ob r
           in if um_find name (m_objects r) \<noteq> None then (False, ref_drop ob r)
              else (True, r\<lparr>m_objects := snd (um_emplace name ob (m_objects r))\<rparr>)))"

definition reg_rem :: "string \<Rightarrow> object_registry \<Rightarrow> bool \<times> object_registry" where
  "reg_rem name r =
     (let (removed, objs) = um_erase name (m_objects r)
      in case um_find name (m_objects r) of
           None \<Rightarrow> (removed, r\<lparr>m_objects := objs\<rparr>)
         | Some ob \<Rightarrow> (removed, ref_drop ob (r\<lparr>m_objects := objs\<rparr>)))"

text \<open>\<open>get\<close> returns a copy of the pointer, which the caller holds.\<close>

definition reg_get :: "string \<Rightarrow> object_registry \<Rightarrow> nat option \<times> object_registry" where
  "reg_get name r =
     (case um_find name (m_objects r) of
        None \<Rightarrow> (None, r)
      | Some ob \<Rightarrow> (Some ob, (ref_copy ob r)\<lparr>held := (held r)(ob := held r ob + 1)\<rparr>))"

section \<open>Programs\<close>

datatype reg_op = Reg_make | Reg_add string "nat option" | Reg_rem string | Reg_get string | Reg_drop nat

text \<open>
  What the program around the registry does: it makes objects, passes pointers it holds and drops them.
  Using a pointer it does not hold is undefined.
\<close>

fun reg_exec :: "reg_op \<Rightarrow> object_registry \<Rightarrow> (object_registry, unit) result" where
  "reg_exec Reg_make r =
     Ok () (r\<lparr>made := Suc (made r), use_count := (use_count r)(made r := 1), held := (held r)(made r := 1)\<rparr>)"
| "reg_exec (Reg_add n ob) r =
     (case ob of
        None \<Rightarrow> Ok () (snd (reg_add n None r))
      | Some x \<Rightarrow> if held r x = 0 then Throw Undefined_behaviour r else Ok () (snd (reg_add n (Some x) r)))"
| "reg_exec (Reg_rem n) r = Ok () (snd (reg_rem n r))"
| "reg_exec (Reg_get n) r = Ok () (snd (reg_get n r))"
| "reg_exec (Reg_drop x) r =
     (if held r x = 0 then Throw Undefined_behaviour r
      else Ok () ((ref_drop x r)\<lparr>held := (held r)(x := held r x - 1)\<rparr>))"

definition reg_run :: "reg_op list \<Rightarrow> object_registry \<Rightarrow> (object_registry, unit) result" where
  "reg_run = rfold reg_exec"

section \<open>Ownership\<close>

definition names_of :: "nat \<Rightarrow> (string \<rightharpoonup> nat) \<Rightarrow> string set" where
  "names_of ob m = {n. m n = Some ob}"

text \<open>
  The count of an object is the number of its names plus the references held; an object is destroyed
  exactly when it was made and its count is zero, and once.
\<close>

definition reg_inv :: "object_registry \<Rightarrow> bool" where
  "reg_inv r \<longleftrightarrow> finite (dom (m_objects r)) \<and> distinct (destroyed r) \<and>
     (\<forall>ob. use_count r ob = held r ob + card (names_of ob (m_objects r))) \<and>
     (\<forall>ob. ob \<in> set (destroyed r) \<longleftrightarrow> ob < made r \<and> use_count r ob = 0) \<and>
     (\<forall>ob \<ge> made r. use_count r ob = 0)"

lemma finite_names: "finite (dom m) \<Longrightarrow> finite (names_of ob m)"
  by (rule finite_subset [of _ "dom m"]) (auto simp: names_of_def)

lemma names_of_add:
  assumes "m n = None" "finite (dom m)"
  shows "card (names_of ob (m(n \<mapsto> x))) = card (names_of ob m) + (if ob = x then 1 else 0)"
proof -
  have "names_of ob (m(n \<mapsto> x)) = (if ob = x then insert n (names_of ob m) else names_of ob m)" "n \<notin> names_of ob m"
    using assms(1) by (auto simp: names_of_def)
  then show ?thesis using finite_names [OF assms(2), of ob] by (cases "ob = x") simp_all
qed

lemma names_of_rem:
  assumes "m n = Some x" "finite (dom m)"
  shows "card (names_of ob m) = card (names_of ob (m(n := None))) + (if ob = x then 1 else 0)"
proof -
  have "names_of ob m = (if ob = x then insert n (names_of ob (m(n := None))) else names_of ob (m(n := None)))"
    "n \<notin> names_of ob (m(n := None))" using assms(1) by (auto simp: names_of_def)
  moreover have "finite (names_of ob (m(n := None)))" using assms(2) by (intro finite_names) simp
  ultimately show ?thesis by (cases "ob = x") simp_all
qed

lemma reg_invI:
  assumes "finite (dom (m_objects r))" "distinct (destroyed r)"
    "\<And>ob. use_count r ob = held r ob + card (names_of ob (m_objects r))"
    "\<And>ob. ob \<in> set (destroyed r) \<longleftrightarrow> ob < made r \<and> use_count r ob = 0" "\<And>ob. made r \<le> ob \<Longrightarrow> use_count r ob = 0"
  shows "reg_inv r"
  using assms by (simp add: reg_inv_def)

lemma reg_invD:
  assumes "reg_inv r"
  shows "finite (dom (m_objects r))" "distinct (destroyed r)" "use_count r ob = held r ob + card (names_of ob (m_objects r))"
    "ob \<in> set (destroyed r) \<longleftrightarrow> ob < made r \<and> use_count r ob = 0" "made r \<le> ob \<Longrightarrow> use_count r ob = 0"
  using assms unfolding reg_inv_def by blast+

text \<open>Changing the count of one object by one while the references change alike.\<close>

lemma reg_inv_copy:
  assumes r: "reg_inv r" and x: "0 < use_count r x" and e: "use_count r' = (use_count r)(x := use_count r x + 1)"
    "destroyed r' = destroyed r" "made r' = made r" "finite (dom (m_objects r'))"
    and c: "\<And>ob. held r' ob + card (names_of ob (m_objects r')) = held r ob + card (names_of ob (m_objects r)) + (if ob = x then 1 else 0)"
  shows "reg_inv r'"
proof (rule reg_invI)
  have "x < made r" using reg_invD(5) [OF r, of x] x by (cases "made r \<le> x") auto
  then show "use_count r' ob = 0" if "made r' \<le> ob" for ob using that e reg_invD(5) [OF r, of ob] by auto
  show "use_count r' ob = held r' ob + card (names_of ob (m_objects r'))" for ob
    using c [of ob] reg_invD(3) [OF r, of ob] e(1) by auto
  show "ob \<in> set (destroyed r') \<longleftrightarrow> ob < made r' \<and> use_count r' ob = 0" for ob
    using reg_invD(4) [OF r, of ob] e x by auto
qed (use e r reg_invD(2) in simp_all)

lemma reg_inv_drop:
  assumes r: "reg_inv r" and x: "0 < use_count r x" and e: "use_count r' = (use_count r)(x := use_count r x - 1)"
    "destroyed r' = (if use_count r x = 1 then destroyed r @ [x] else destroyed r)" "made r' = made r" "finite (dom (m_objects r'))"
    and c: "\<And>ob. held r ob + card (names_of ob (m_objects r)) = held r' ob + card (names_of ob (m_objects r')) + (if ob = x then 1 else 0)"
  shows "reg_inv r'"
proof (rule reg_invI)
  have x': "x < made r" using reg_invD(5) [OF r, of x] x by (cases "made r \<le> x") auto
  show "use_count r' ob = 0" if "made r' \<le> ob" for ob using that e reg_invD(5) [OF r, of ob] by auto
  show "use_count r' ob = held r' ob + card (names_of ob (m_objects r'))" for ob
    using c [of ob] reg_invD(3) [OF r, of ob] e(1) by auto
  show "ob \<in> set (destroyed r') \<longleftrightarrow> ob < made r' \<and> use_count r' ob = 0" for ob
    using reg_invD(4) [OF r, of ob] e x x' by auto
  show "distinct (destroyed r')" using reg_invD(2) [OF r] reg_invD(4) [OF r, of x] x e(2) by auto
qed (use e in simp_all)

lemma reg_pos: "reg_inv r \<Longrightarrow> 0 < held r x \<Longrightarrow> use_count r x \<noteq> 0"
  using reg_invD(3) [of r x] by simp

lemma reg_inv_add:
  assumes r: "reg_inv r" and x: "0 < held r x"
  shows "reg_inv (snd (reg_add n (Some x) r))"
proof (cases "m_objects r n")
  case None
  have "0 < use_count r x" using reg_invD(3) [OF r, of x] x by simp
  then show ?thesis
    using None reg_invD(1) [OF r] names_of_add [OF None reg_invD(1) [OF r]]
    by (intro reg_inv_copy [OF r]) (auto simp: reg_add_def ref_copy_def um_find_def um_emplace_def Let_def)
next
  case (Some y)
  have "snd (reg_add n (Some x) r) = r"
    using Some x by (simp add: reg_add_def ref_copy_def ref_drop_def um_find_def Let_def reg_pos [OF r x])
  with r show ?thesis by simp
qed

lemma names_pos:
  assumes "reg_inv r" "m_objects r n = Some x"
  shows "0 < card (names_of x (m_objects r))"
proof -
  have "n \<in> names_of x (m_objects r)" using assms(2) by (simp add: names_of_def)
  then show ?thesis using finite_names [OF reg_invD(1) [OF assms(1)]] by (auto simp: card_gt_0_iff)
qed

lemma reg_inv_exec:
  assumes r: "reg_inv r"
  shows "reg_inv (the_state (reg_exec a r))"
proof (cases a)
  case Reg_make
  have z: "held r (made r) = 0" "card (names_of (made r) (m_objects r)) = 0" "use_count r (made r) = 0"
    using reg_invD(3,5) [OF r, of "made r"] by simp_all
  show ?thesis unfolding Reg_make reg_exec.simps result.sel
  proof (rule reg_invI)
    fix ob
    show "ob \<in> set (destroyed (r\<lparr>made := Suc (made r), use_count := (use_count r)(made r := 1), held := (held r)(made r := 1)\<rparr>)) \<longleftrightarrow>
        ob < made (r\<lparr>made := Suc (made r), use_count := (use_count r)(made r := 1), held := (held r)(made r := 1)\<rparr>) \<and>
        use_count (r\<lparr>made := Suc (made r), use_count := (use_count r)(made r := 1), held := (held r)(made r := 1)\<rparr>) ob = 0"
      using reg_invD(4) [OF r, of ob] by (auto simp: less_Suc_eq)
  qed (use z reg_invD(1-3,5) [OF r] in auto)
next
  case (Reg_add n ob)
  then show ?thesis using r reg_inv_add [OF r] by (auto simp: reg_add_def split: option.split)
next
  case (Reg_rem n)
  show ?thesis
  proof (cases "m_objects r n")
    case None
    then have "snd (reg_rem n r) = r" by (simp add: reg_rem_def um_find_def um_erase_def fun_upd_idem)
    then show ?thesis using r Reg_rem by simp
  next
    case (Some x)
    then have "0 < use_count r x" using names_pos [OF r Some] reg_invD(3) [OF r, of x] by simp
    then show ?thesis unfolding Reg_rem
      using Some reg_invD(1) [OF r] names_of_rem [OF Some reg_invD(1) [OF r]]
      by (intro reg_inv_drop [OF r, of x]) (auto simp: reg_rem_def ref_drop_def um_find_def um_erase_def)
  qed
next
  case (Reg_get n)
  show ?thesis
  proof (cases "m_objects r n")
    case None
    then show ?thesis using r Reg_get by (simp add: reg_get_def um_find_def)
  next
    case (Some x)
    then have "0 < use_count r x" using names_pos [OF r Some] reg_invD(3) [OF r, of x] by simp
    then show ?thesis unfolding Reg_get
      using Some reg_invD(1) [OF r] by (intro reg_inv_copy [OF r, of x]) (auto simp: reg_get_def ref_copy_def um_find_def)
  qed
next
  case (Reg_drop x)
  show ?thesis
  proof (cases "held r x = 0")
    case False
    then have "0 < use_count r x" using reg_invD(3) [OF r, of x] by simp
    then show ?thesis unfolding Reg_drop
      using False reg_invD(1) [OF r] by (intro reg_inv_drop [OF r, of x]) (auto simp: ref_drop_def)
  qed (use r Reg_drop in simp)
qed

lemma reg_exec_keeps_name:
  assumes "m_objects r n = Some x" "a \<noteq> Reg_rem n"
  shows "m_objects (the_state (reg_exec a r)) n = Some x"
proof (cases a)
  case (Reg_add k ob)
  then show ?thesis using assms(1) um.lookup_emplace [where m = "m_objects r" and k = k and k' = n]
    by (auto simp: reg_add_def ref_copy_def ref_drop_def um_find_def Let_def split: option.split)
next
  case (Reg_rem k)
  then show ?thesis using assms by (auto simp: reg_rem_def ref_drop_def um_find_def um_erase_def split: option.split)
qed (use assms in \<open>auto simp: reg_get_def ref_copy_def ref_drop_def split: option.split\<close>)

text \<open>C13. An object that was added under a name stays alive and is what \<open>get\<close> returns until the name is removed,
  whatever else the program does with the registry and its pointers; a second \<open>add\<close> of the name fails. In
  every state the use count of each object is its number of names plus the references held, and objects
  are destroyed once, exactly when their count reaches zero.\<close>

theorem registry_serves_live_objects:
  assumes "reg_run ops get_instance = Ok () r" "0 < held r x" "fst (reg_add n (Some x) r)"
    and "reg_run ops' (snd (reg_add n (Some x) r)) = res" "Reg_rem n \<notin> set ops'"
  shows "reg_inv (the_state res) \<and> fst (reg_get n (the_state res)) = Some x \<and> x \<notin> set (destroyed (the_state res)) \<and>
    \<not> fst (reg_add n (Some y) (the_state res))"
proof -
  have "reg_inv get_instance" by (simp add: reg_inv_def get_instance_def names_of_def)
  then have "reg_inv (the_state (reg_run ops get_instance))"
    unfolding reg_run_def by (rule rfold_inv [where I = reg_inv, rotated]) (rule reg_inv_exec)
  then have r: "reg_inv r" using assms(1) by simp
  let ?r = "snd (reg_add n (Some x) r)"
  have start: "reg_inv ?r \<and> m_objects ?r n = Some x"
    using reg_inv_add [OF r assms(2)] assms(3)
    by (auto simp: reg_add_def ref_copy_def um_find_def um_emplace_def Let_def split: if_splits option.splits)
  have "reg_inv (the_state (rfold reg_exec ops' s)) \<and> m_objects (the_state (rfold reg_exec ops' s)) n = Some x"
    if "reg_inv s" "m_objects s n = Some x" for s
    using assms(5) that
  proof (induction ops' arbitrary: s)
    case (Cons a ops')
    have "reg_inv (the_state (reg_exec a s))" "m_objects (the_state (reg_exec a s)) n = Some x"
      using Cons.prems reg_inv_exec reg_exec_keeps_name [of s n x a] by auto
    then show ?case using Cons by (cases "reg_exec a s") simp_all
  qed simp
  then have i: "reg_inv (the_state res)" and m: "m_objects (the_state res) n = Some x"
    using start assms(4) unfolding reg_run_def by blast+
  have "0 < use_count (the_state res) x" using names_pos [OF i m] reg_invD(3) [OF i, of x] by simp
  then have "x \<notin> set (destroyed (the_state res))" using reg_invD(4) [OF i, of x] by simp
  with i m show ?thesis by (simp add: reg_get_def reg_add_def ref_copy_def um_find_def Let_def)
qed

theorem registry_serves_live_objects_witness:
  "fst (reg_get ''io'' (the_state (reg_run [Reg_drop 0, Reg_rem ''x''] (snd (reg_add ''io'' (Some 0) (the_state (reg_run [Reg_make] get_instance))))))) = Some 0"
proof -
  let ?r = "the_state (reg_run [Reg_make] get_instance)"
  have "reg_run [Reg_make] get_instance = Ok () ?r" "0 < held ?r 0" "fst (reg_add ''io'' (Some 0) ?r)"
    by (simp_all add: reg_run_def get_instance_def reg_add_def ref_copy_def um_find_def Let_def)
  from registry_serves_live_objects [OF this refl, of "[Reg_drop 0, Reg_rem ''x'']"] show ?thesis by simp
qed

end
