(* ===== verification/Bfc_Thread_Pool.thy ===== *)
theory Bfc_Thread_Pool
  imports Bfc_Prelude "HOL-Library.Multiset"
begin

text \<open>
  The thread pool of \<open>src/src/bfc/thread_pool.hpp\<close> as a transition system: its workers, the callers of \<open>execute\<close> and
  the destructor take steps between the points where they lock, wait and notify. \<open>execute\<close> holds \<open>m_free_mtx\<close> from
  taking an index until it has placed its task, so it is two steps with the lock held between them; waiting
  for \<open>m_worker_available_cv\<close> is the guard that \<open>m_free\<close> is not empty, which each worker notifies after adding
  its index. The wait of a worker on its own condition variable is modelled in full, since the destructor
  notifies it without the mutex. A task is a number, an empty function is \<open>None\<close>; running a task appends it to \<open>ran\<close>.
  \<open>submitted\<close>, \<open>ran\<close> and \<open>lost\<close> are history: \<open>lost\<close> lists the workers that were given an empty function, which no
  worker picks up, so that their indices are never returned.
\<close>

section \<open>State\<close>

text \<open>
  Where a worker is: at the top of its loop, holding its mutex with nothing to do and about to wait, waiting,
  woken up and about to look at the predicate again, holding its mutex and about to call its task, about
  to return its index, or finished.
\<close>

datatype worker_pc = Start | Checked | Waiting | Woken | Running | Freeing | Exited

datatype dtor_pc = Alive | Notifying nat | Joining nat | Gone

record thread_pool =
  m_is_running :: bool
  functors :: "nat option list"
  pcs :: "worker_pc list"
  m_free :: "nat list"
  placing :: "(nat \<times> nat option) option"
  dtor :: dtor_pc
  submitted :: "nat option list"
  ran :: "nat list"
  lost :: "nat list"

definition thread_pool_new :: "nat \<Rightarrow> thread_pool" where
  "thread_pool_new p_max_size =
     \<lparr>m_is_running = True, functors = replicate p_max_size None, pcs = replicate p_max_size Start,
      m_free = [0..<p_max_size], placing = None, dtor = Alive, submitted = [], ran = [], lost = []\<rparr>"

definition pool_size :: "thread_pool \<Rightarrow> nat" where
  "pool_size s = length (functors s)"

definition count_active :: "thread_pool \<Rightarrow> nat" where
  "count_active s = pool_size s - length (m_free s)"

section \<open>Steps\<close>

definition set_pc :: "nat \<Rightarrow> worker_pc \<Rightarrow> thread_pool \<Rightarrow> thread_pool" where
  "set_pc i pc s = s\<lparr>pcs := (pcs s)[i := pc]\<rparr>"

text \<open>\<open>thread_cv.notify_one()\<close> of entry \<open>i\<close>: it wakes the worker only if it is waiting.\<close>

definition wake :: "nat \<Rightarrow> thread_pool \<Rightarrow> thread_pool" where
  "wake i s = (if pcs s ! i = Waiting then set_pc i Woken s else s)"

text \<open>The loop of a worker.\<close>

definition worker_lock :: "nat \<Rightarrow> thread_pool \<Rightarrow> thread_pool" where
  "worker_lock i s =
     (if functors s ! i \<noteq> None then set_pc i Running s
      else if \<not> m_is_running s then set_pc i Exited s
      else set_pc i Checked s)"

definition worker_run :: "nat \<Rightarrow> thread_pool \<Rightarrow> thread_pool" where
  "worker_run i s =
     set_pc i Freeing (s\<lparr>ran := ran s @ [the (functors s ! i)], functors := (functors s)[i := None]\<rparr>)"

definition worker_free :: "nat \<Rightarrow> thread_pool \<Rightarrow> thread_pool" where
  "worker_free i s = set_pc i Start (s\<lparr>m_free := m_free s @ [i]\<rparr>)"

definition worker_recheck :: "nat \<Rightarrow> thread_pool \<Rightarrow> thread_pool" where
  "worker_recheck i s = (if functors s ! i \<noteq> None \<or> \<not> m_is_running s then set_pc i Start s else set_pc i Checked s)"

text \<open>\<open>execute\<close>.\<close>

definition execute_take :: "nat option \<Rightarrow> thread_pool \<Rightarrow> thread_pool" where
  "execute_take t s =
     s\<lparr>placing := Some (last (m_free s), t), m_free := butlast (m_free s), submitted := submitted s @ [t]\<rparr>"

definition execute_place :: "nat \<Rightarrow> nat option \<Rightarrow> thread_pool \<Rightarrow> thread_pool" where
  "execute_place i t s =
     wake i (s\<lparr>functors := (functors s)[i := t], placing := None, lost := lost s @ (if t = None then [i] else [])\<rparr>)"

text \<open>The destructor: for each entry a notification and a join.\<close>

definition dtor_begin :: "thread_pool \<Rightarrow> thread_pool" where
  "dtor_begin s = s\<lparr>m_is_running := False, dtor := Notifying 0\<rparr>"

definition dtor_notify :: "nat \<Rightarrow> thread_pool \<Rightarrow> thread_pool" where
  "dtor_notify j s = (if j < pool_size s then (wake j s)\<lparr>dtor := Joining j\<rparr> else s\<lparr>dtor := Gone\<rparr>)"

datatype tp_action =
    Lock nat | Block nat | Run nat | Free nat | Spurious nat | Recheck nat
  | Submit "nat option" | Place | Shutdown | Notify | Join

text \<open>
  The enabled steps. A mutex a thread holds between two steps is a guard of the others: placing a task needs
  the mutex of the entry, returning an index needs \<open>m_free_mtx\<close>. The destructor runs when no call is in
  progress and none follows.
\<close>

fun tp_exec :: "tp_action \<Rightarrow> thread_pool \<Rightarrow> thread_pool option" where
  "tp_exec (Lock i) s = (if i < pool_size s \<and> pcs s ! i = Start then Some (worker_lock i s) else None)"
| "tp_exec (Block i) s = (if i < pool_size s \<and> pcs s ! i = Checked then Some (set_pc i Waiting s) else None)"
| "tp_exec (Run i) s = (if i < pool_size s \<and> pcs s ! i = Running then Some (worker_run i s) else None)"
| "tp_exec (Free i) s =
     (if i < pool_size s \<and> pcs s ! i = Freeing \<and> placing s = None then Some (worker_free i s) else None)"
| "tp_exec (Spurious i) s = (if i < pool_size s \<and> pcs s ! i = Waiting then Some (set_pc i Woken s) else None)"
| "tp_exec (Recheck i) s = (if i < pool_size s \<and> pcs s ! i = Woken then Some (worker_recheck i s) else None)"
| "tp_exec (Submit t) s =
     (if dtor s = Alive \<and> placing s = None \<and> m_free s \<noteq> [] then Some (execute_take t s) else None)"
| "tp_exec Place s =
     (case placing s of
        None \<Rightarrow> None
      | Some (i, t) \<Rightarrow> if pcs s ! i \<in> {Checked, Running} then None else Some (execute_place i t s))"
| "tp_exec Shutdown s = (if dtor s = Alive \<and> placing s = None then Some (dtor_begin s) else None)"
| "tp_exec Notify s = (case dtor s of Notifying j \<Rightarrow> Some (dtor_notify j s) | _ \<Rightarrow> None)"
| "tp_exec Join s =
     (case dtor s of
        Joining j \<Rightarrow> if pcs s ! j = Exited then Some (s\<lparr>dtor := Notifying (Suc j)\<rparr>) else None
      | _ \<Rightarrow> None)"

inductive tp_step :: "thread_pool \<Rightarrow> thread_pool \<Rightarrow> bool" where
  tp_step: "tp_exec a s = Some t \<Longrightarrow> tp_step s t"

inductive_cases tp_step_cases: "tp_step s t"

definition tp_initial :: "nat \<Rightarrow> thread_pool \<Rightarrow> bool" where
  "tp_initial n s \<longleftrightarrow> s = thread_pool_new n"

section \<open>Invariant\<close>

definition pending :: "nat option list \<Rightarrow> nat multiset" where
  "pending fs = image_mset the (filter_mset (\<lambda>x. x \<noteq> None) (mset fs))"

lemma pending_place: "i < length fs \<Longrightarrow> fs ! i = None \<Longrightarrow> pending (fs[i := Some t]) = add_mset t (pending fs)"
  by (simp add: pending_def mset_update)

lemma pending_place_empty: "i < length fs \<Longrightarrow> fs ! i = None \<Longrightarrow> pending (fs[i := None]) = pending fs"
  by (metis list_update_id)

lemma pending_append: "pending (fs @ [t]) = pending fs + (case t of None \<Rightarrow> {#} | Some x \<Rightarrow> {#x#})"
  by (cases t) (simp_all add: pending_def)

lemma pending_run:
  assumes "i < length fs" "fs ! i = Some t"
  shows "pending fs = add_mset t (pending (fs[i := None]))"
proof -
  have "pending ((fs[i := None])[i := Some t]) = add_mset t (pending (fs[i := None]))"
    using assms by (intro pending_place) simp_all
  moreover have "fs[i := Some t] = fs" using assms by (metis list_update_id)
  ultimately show ?thesis by simp
qed

text \<open>
  An index is free exactly when its worker has no task, is not returning the index, is not about to get
  a task and was not given an empty function; a worker that waits, has finished or returns its index has no task; the destructor has joined
  the workers before the one it is at.
\<close>

definition occupied :: "thread_pool \<Rightarrow> nat \<Rightarrow> bool" where
  "occupied s i \<longleftrightarrow> functors s ! i \<noteq> None \<or> pcs s ! i = Freeing \<or> (\<exists>t. placing s = Some (i, t)) \<or> i \<in> set (lost s)"

definition pc_ok :: "bool \<Rightarrow> nat option \<Rightarrow> worker_pc \<Rightarrow> bool" where
  "pc_ok running f pc =
     (case pc of
        Running \<Rightarrow> f \<noteq> None
      | Freeing \<Rightarrow> f = None | Checked \<Rightarrow> f = None | Waiting \<Rightarrow> f = None
      | Exited \<Rightarrow> f = None \<and> \<not> running
      | _ \<Rightarrow> True)"

definition tp_indices :: "thread_pool \<Rightarrow> bool" where
  "tp_indices s \<longleftrightarrow> length (pcs s) = length (functors s) \<and> distinct (m_free s) \<and>
     (\<forall>i. i \<in> set (m_free s) \<longleftrightarrow> i < pool_size s \<and> \<not> occupied s i) \<and>
     (\<forall>i t. placing s = Some (i, t) \<longrightarrow> i < pool_size s \<and> functors s ! i = None \<and> pcs s ! i \<noteq> Freeing \<and> i \<notin> set (lost s)) \<and>
     distinct (lost s) \<and> (\<forall>i \<in> set (lost s). i < pool_size s \<and> functors s ! i = None \<and> pcs s ! i \<noteq> Freeing)"

definition tp_tasks :: "thread_pool \<Rightarrow> bool" where
  "tp_tasks s \<longleftrightarrow>
     pending (submitted s) = mset (ran s) + pending (functors s) + (case placing s of Some (i, Some t) \<Rightarrow> {#t#} | _ \<Rightarrow> {#}) \<and>
     count (mset (submitted s)) None = length (lost s) + (case placing s of Some (i, None) \<Rightarrow> 1 | _ \<Rightarrow> 0)"

definition joined :: "dtor_pc \<Rightarrow> nat \<Rightarrow> nat" where
  "joined d n = (case d of Alive \<Rightarrow> 0 | Notifying j \<Rightarrow> j | Joining j \<Rightarrow> j | Gone \<Rightarrow> n)"

definition tp_threads :: "thread_pool \<Rightarrow> bool" where
  "tp_threads s \<longleftrightarrow> (\<forall>i < pool_size s. pc_ok (m_is_running s) (functors s ! i) (pcs s ! i)) \<and>
     (m_is_running s \<longleftrightarrow> dtor s = Alive) \<and> (dtor s \<noteq> Alive \<longrightarrow> placing s = None) \<and>
     (\<forall>j. dtor s = Joining j \<longrightarrow> j < pool_size s) \<and>
     (\<forall>i < joined (dtor s) (pool_size s). i < pool_size s \<longrightarrow> pcs s ! i = Exited)"

definition tp_inv :: "thread_pool \<Rightarrow> bool" where
  "tp_inv s \<longleftrightarrow> tp_indices s \<and> tp_tasks s \<and> tp_threads s"

section \<open>Every step keeps the invariant\<close>

lemma set_pc_sel [simp]:
  "m_is_running (set_pc i pc s) = m_is_running s" "functors (set_pc i pc s) = functors s" "m_free (set_pc i pc s) = m_free s"
  "placing (set_pc i pc s) = placing s" "dtor (set_pc i pc s) = dtor s" "submitted (set_pc i pc s) = submitted s"
  "ran (set_pc i pc s) = ran s" "lost (set_pc i pc s) = lost s" "pcs (set_pc i pc s) = (pcs s)[i := pc]" "pool_size (set_pc i pc s) = pool_size s"
  by (simp_all add: set_pc_def pool_size_def)

lemma tp_indicesD:
  assumes "tp_indices s"
  shows "length (pcs s) = pool_size s" "distinct (m_free s)" "i \<in> set (m_free s) \<longleftrightarrow> i < pool_size s \<and> \<not> occupied s i"
    "placing s = Some (i, t) \<Longrightarrow> i < pool_size s \<and> functors s ! i = None \<and> pcs s ! i \<noteq> Freeing \<and> i \<notin> set (lost s)"
    "distinct (lost s)" "i \<in> set (lost s) \<Longrightarrow> i < pool_size s \<and> functors s ! i = None \<and> pcs s ! i \<noteq> Freeing"
  using assms unfolding tp_indices_def pool_size_def by blast+

lemma tp_threadsD:
  assumes "tp_threads s"
  shows "i < pool_size s \<Longrightarrow> pc_ok (m_is_running s) (functors s ! i) (pcs s ! i)" "m_is_running s \<longleftrightarrow> dtor s = Alive"
    "dtor s \<noteq> Alive \<Longrightarrow> placing s = None" "dtor s = Joining j \<Longrightarrow> j < pool_size s"
    "i < joined (dtor s) (pool_size s) \<Longrightarrow> i < pool_size s \<Longrightarrow> pcs s ! i = Exited"
  using assms unfolding tp_threads_def by blast+

text \<open>A worker moves between points where it neither gets nor returns anything.\<close>

lemma set_pc_inv:
  assumes inv: "tp_inv s" and i: "i < pool_size s" and old: "pcs s ! i \<notin> {Freeing, Exited}"
    and new: "pc \<noteq> Freeing" "pc_ok (m_is_running s) (functors s ! i) pc"
  shows "tp_inv (set_pc i pc s)"
proof -
  have I: "tp_indices s" and T: "tp_tasks s" and Th: "tp_threads s" using inv by (simp_all add: tp_inv_def)
  have len: "i < length (pcs s)" using tp_indicesD(1) [OF I] i by simp
  have pc: "pcs (set_pc i pc s) ! k = (if k = i then pc else pcs s ! k)" for k using len by (simp add: nth_list_update)
  have "occupied (set_pc i pc s) k = occupied s k" for k using old new(1) by (auto simp: occupied_def pc simp del: set_pc_sel(9))
  then have "tp_indices (set_pc i pc s)"
    using I old new(1) unfolding tp_indices_def by (simp add: pc del: set_pc_sel(9)) (simp add: set_pc_def)
  moreover have "tp_tasks (set_pc i pc s)" using T by (simp add: tp_tasks_def)
  moreover have "tp_threads (set_pc i pc s)"
  proof -
    have "pcs (set_pc i pc s) ! k = Exited" if "k < joined (dtor s) (pool_size s)" "k < pool_size s" for k
      using tp_threadsD(5) [OF Th that] old by (cases "k = i") (auto simp: pc simp del: set_pc_sel(9))
    moreover have "pc_ok (m_is_running s) (functors s ! k) (pcs (set_pc i pc s) ! k)" if "k < pool_size s" for k
      using tp_threadsD(1) [OF Th that] new(2) by (simp add: pc del: set_pc_sel(9))
    ultimately show ?thesis using Th unfolding tp_threads_def by (simp del: set_pc_sel(9))
  qed
  ultimately show ?thesis by (simp add: tp_inv_def)
qed

lemma wake_inv: "tp_inv s \<Longrightarrow> i < pool_size s \<Longrightarrow> tp_inv (wake i s)"
  by (auto simp: wake_def pc_ok_def intro!: set_pc_inv)

lemma wake_sel [simp]:
  "m_is_running (wake i s) = m_is_running s" "functors (wake i s) = functors s" "m_free (wake i s) = m_free s"
  "placing (wake i s) = placing s" "dtor (wake i s) = dtor s" "submitted (wake i s) = submitted s"
  "ran (wake i s) = ran s" "lost (wake i s) = lost s" "pool_size (wake i s) = pool_size s"
  by (simp_all add: wake_def)

lemma tp_threads_upd:
  assumes Th: "tp_threads s" and i: "i < length (pcs s)" "pcs s ! i \<noteq> Exited"
    and e: "m_is_running t = m_is_running s" "dtor t = dtor s" "pool_size t = pool_size s" "pcs t = (pcs s)[i := pc]"
      "\<And>k. k \<noteq> i \<Longrightarrow> functors t ! k = functors s ! k"
    and ok: "pc_ok (m_is_running s) (functors t ! i) pc" "dtor s \<noteq> Alive \<Longrightarrow> placing t = None"
  shows "tp_threads t"
  unfolding tp_threads_def e(1-3)
proof (intro conjI allI impI)
  fix k assume k: "k < pool_size s"
  show "pc_ok (m_is_running s) (functors t ! k) (pcs t ! k)"
    using tp_threadsD(1) [OF Th k] ok(1) e(4,5) i(1) by (cases "k = i") simp_all
next
  fix k assume k: "k < joined (dtor s) (pool_size s)" "k < pool_size s"
  then show "pcs t ! k = Exited" using tp_threadsD(5) [OF Th k] i e(4) by (cases "k = i") auto
qed (use tp_threadsD(2-4) [OF Th] ok(2) in auto)

lemma run_inv:
  assumes inv: "tp_inv s" and i: "i < pool_size s" and pc: "pcs s ! i = Running"
  shows "tp_inv (worker_run i s)"
proof -
  have I: "tp_indices s" and T: "tp_tasks s" and Th: "tp_threads s" using inv by (simp_all add: tp_inv_def)
  let ?t = "worker_run i s"
  have len: "i < length (pcs s)" "i < length (functors s)" using tp_indicesD(1) [OF I] i by (simp_all add: pool_size_def)
  obtain t where t: "functors s ! i = Some t" using tp_threadsD(1) [OF Th i] pc by (auto simp: pc_ok_def)
  have f: "functors ?t = (functors s)[i := None]" "pcs ?t = (pcs s)[i := Freeing]" "pool_size ?t = pool_size s" "placing ?t = placing s"
    "m_free ?t = m_free s" "ran ?t = ran s @ [t]" "dtor ?t = dtor s" "m_is_running ?t = m_is_running s" "submitted ?t = submitted s" "lost ?t = lost s"
    by (simp_all add: worker_run_def pool_size_def t)
  have "occupied ?t k = occupied s k" if "k < pool_size s" for k
    using that len t by (cases "k = i") (auto simp: occupied_def f)
  then have "tp_indices ?t"
    using I len unfolding tp_indices_def by (auto simp: f nth_list_update t)
  moreover have "tp_tasks ?t" using T pending_run [OF len(2) t] by (simp add: tp_tasks_def f)
  moreover have "tp_threads ?t"
    using len pc tp_threadsD(3) [OF Th] by (intro tp_threads_upd [OF Th, of i _ Freeing]) (auto simp: f pc_ok_def)
  ultimately show ?thesis by (simp add: tp_inv_def)
qed

lemma free_inv:
  assumes inv: "tp_inv s" and i: "i < pool_size s" and pc: "pcs s ! i = Freeing" and p: "placing s = None"
  shows "tp_inv (worker_free i s)"
proof -
  have I: "tp_indices s" and T: "tp_tasks s" and Th: "tp_threads s" using inv by (simp_all add: tp_inv_def)
  let ?t = "worker_free i s"
  have len: "i < length (pcs s)" using tp_indicesD(1) [OF I] i by simp
  have n: "functors s ! i = None" using tp_threadsD(1) [OF Th i] pc by (auto simp: pc_ok_def)
  have f: "functors ?t = functors s" "pcs ?t = (pcs s)[i := Start]" "pool_size ?t = pool_size s" "placing ?t = None"
    "m_free ?t = m_free s @ [i]" "ran ?t = ran s" "dtor ?t = dtor s" "m_is_running ?t = m_is_running s" "submitted ?t = submitted s" "lost ?t = lost s"
    by (simp_all add: worker_free_def pool_size_def p)
  have nl: "i \<notin> set (lost s)" using tp_indicesD(6) [OF I, of i] pc by auto
  then have o: "occupied ?t k \<longleftrightarrow> k \<noteq> i \<and> occupied s k" if "k < pool_size s" for k
    using that len n p by (cases "k = i") (auto simp: occupied_def f)
  have "i \<notin> set (m_free s)" using tp_indicesD(3) [OF I, of i] pc by (simp add: occupied_def)
  then have "tp_indices ?t"
    using tp_indicesD(1-3,5,6) [OF I] o i nl unfolding tp_indices_def by (auto simp: f pool_size_def nth_list_update)
  moreover have "tp_tasks ?t" using T p by (simp add: tp_tasks_def f)
  moreover have "tp_threads ?t"
    using len pc by (intro tp_threads_upd [OF Th, of i _ Start]) (auto simp: f pc_ok_def)
  ultimately show ?thesis by (simp add: tp_inv_def)
qed

lemma set_butlast_distinct: "distinct xs \<Longrightarrow> xs \<noteq> [] \<Longrightarrow> set (butlast xs) = set xs - {last xs}"
  by (cases xs rule: rev_cases) auto

lemma take_inv:
  assumes inv: "tp_inv s" and a: "dtor s = Alive" "placing s = None" "m_free s \<noteq> []"
  shows "tp_inv (execute_take t s)"
proof -
  have I: "tp_indices s" and T: "tp_tasks s" and Th: "tp_threads s" using inv by (simp_all add: tp_inv_def)
  let ?t = "execute_take t s" and ?i = "last (m_free s)"
  have f: "functors ?t = functors s" "pcs ?t = pcs s" "pool_size ?t = pool_size s" "placing ?t = Some (?i, t)"
    "m_free ?t = butlast (m_free s)" "ran ?t = ran s" "dtor ?t = dtor s" "m_is_running ?t = m_is_running s" "submitted ?t = submitted s @ [t]" "lost ?t = lost s"
    by (simp_all add: execute_take_def pool_size_def)
  have "?i \<in> set (m_free s)" using a(3) by simp
  then have i: "?i < pool_size s" "\<not> occupied s ?i" using tp_indicesD(3) [OF I, of ?i] by simp_all
  have o: "occupied ?t k \<longleftrightarrow> k = ?i \<or> occupied s k" for k using a(2) by (auto simp: occupied_def f)
  have b: "set (butlast (m_free s)) = set (m_free s) - {?i}" using tp_indicesD(2) [OF I] a(3) by (rule set_butlast_distinct)
  have "tp_indices ?t"
    unfolding tp_indices_def f
  proof (intro conjI allI impI)
    show "k \<in> set (butlast (m_free s)) \<longleftrightarrow> k < pool_size s \<and> \<not> occupied ?t k" for k
      using tp_indicesD(3) [OF I, of k] by (auto simp: b o)
    show "distinct (butlast (m_free s))" using tp_indicesD(2) [OF I] by (rule distinct_butlast)
    show "length (pcs s) = length (functors s)" using tp_indicesD(1) [OF I] by (simp add: pool_size_def)
  qed (use i tp_indicesD(5,6) [OF I] in \<open>auto simp: occupied_def\<close>)
  moreover have "tp_tasks ?t" using T a(2) unfolding tp_tasks_def f by (cases t) (simp_all add: pending_append)
  moreover have "tp_threads ?t" unfolding tp_threads_def f using tp_threadsD [OF Th] a by auto
  ultimately show ?thesis by (simp add: tp_inv_def)
qed

lemma place_inv:
  assumes inv: "tp_inv s" and p: "placing s = Some (i, t)" and pc: "pcs s ! i \<notin> {Checked, Running}"
  shows "tp_inv (execute_place i t s)"
proof -
  have I: "tp_indices s" and T: "tp_tasks s" and Th: "tp_threads s" using inv by (simp_all add: tp_inv_def)
  have i: "i < pool_size s" "functors s ! i = None" "pcs s ! i \<noteq> Freeing" "i \<notin> set (lost s)"
    using tp_indicesD(4) [OF I p] by simp_all
  have alive: "dtor s = Alive" "m_is_running s" using tp_threadsD(2,3) [OF Th] p by auto
  have ex: "pcs s ! i \<noteq> Exited" using tp_threadsD(1) [OF Th i(1)] alive by (auto simp: pc_ok_def)
  have len: "i < length (pcs s)" "i < length (functors s)" using tp_indicesD(1) [OF I] i(1) by (simp_all add: pool_size_def)
  define pc' where "pc' = (if pcs s ! i = Waiting then Woken else pcs s ! i)"
  let ?t = "execute_place i t s"
  have f: "functors ?t = (functors s)[i := t]" "pcs ?t = (pcs s)[i := pc']" "pool_size ?t = pool_size s" "placing ?t = None"
    "m_free ?t = m_free s" "ran ?t = ran s" "dtor ?t = dtor s" "m_is_running ?t = m_is_running s" "submitted ?t = submitted s"
    "lost ?t = lost s @ (if t = None then [i] else [])"
    using len by (simp_all add: execute_place_def pool_size_def pc'_def wake_def)
  have pc': "pc' \<in> {Start, Woken}" using pc i(3) ex by (cases "pcs s ! i") (auto simp: pc'_def)
  have "occupied ?t k = occupied s k" if "k < pool_size s" for k
    using that len p i pc' by (cases "k = i") (auto simp: occupied_def f)
  moreover have "distinct (lost ?t)" "\<forall>k \<in> set (lost ?t). k < pool_size s \<and> functors ?t ! k = None \<and> pcs ?t ! k \<noteq> Freeing"
    using tp_indicesD(5,6) [OF I] i len pc' by (auto simp: f nth_list_update)
  ultimately have "tp_indices ?t" using tp_indicesD(1-3) [OF I] unfolding tp_indices_def by (auto simp: f pool_size_def)
  moreover have "tp_tasks ?t" using T p pending_place [OF len(2) i(2)] pending_place_empty [OF len(2) i(2)]
    unfolding tp_tasks_def f by (cases t) simp_all
  moreover have "tp_threads ?t"
    using len pc' ex by (intro tp_threads_upd [OF Th, of i _ pc']) (auto simp: f pc_ok_def)
  ultimately show ?thesis by (simp add: tp_inv_def)
qed

lemma dtor_inv:
  assumes inv: "tp_inv s"
  shows "dtor s = Alive \<Longrightarrow> placing s = None \<Longrightarrow> tp_inv (dtor_begin s)"
    and "dtor s = Notifying j \<Longrightarrow> tp_inv (dtor_notify j s)"
    and "dtor s = Joining j \<Longrightarrow> pcs s ! j = Exited \<Longrightarrow> tp_inv (s\<lparr>dtor := Notifying (Suc j)\<rparr>)"
proof -
  have frame: "tp_inv (s'\<lparr>dtor := d\<rparr>)"
    if "tp_inv s'" "dtor s' \<noteq> Alive" "d \<noteq> Alive" "\<And>j. d = Joining j \<Longrightarrow> j < pool_size s'"
      "\<And>i. i < joined d (pool_size s') \<Longrightarrow> i < pool_size s' \<Longrightarrow> pcs s' ! i = Exited" for s' d
  proof -
    let ?t = "s'\<lparr>dtor := d\<rparr>"
    have "tp_threads s'" using that(1) by (simp add: tp_inv_def)
    note Th = tp_threadsD [OF this]
    have "tp_indices ?t" "tp_tasks ?t"
      using that(1) by (simp_all add: tp_inv_def tp_indices_def tp_tasks_def pool_size_def occupied_def)
    moreover have sz: "pool_size ?t = pool_size s'" by (simp add: pool_size_def)
    have "tp_threads ?t" unfolding tp_threads_def sz using Th(1-3) that(2-5) by simp
    ultimately show ?thesis by (simp add: tp_inv_def)
  qed
  show "tp_inv (dtor_begin s)" if "dtor s = Alive" "placing s = None"
    using inv that unfolding tp_inv_def tp_indices_def tp_tasks_def tp_threads_def dtor_begin_def
    by (auto simp: pool_size_def occupied_def pc_ok_def joined_def split: worker_pc.splits)
  have Th: "tp_threads s" using inv by (simp add: tp_inv_def)
  show "tp_inv (dtor_notify j s)" if d: "dtor s = Notifying j"
  proof (cases "j < pool_size s")
    case True
    have w: "tp_inv (wake j s)" by (rule wake_inv [OF inv True])
    then have "tp_threads (wake j s)" by (simp add: tp_inv_def)
    then have "tp_inv ((wake j s)\<lparr>dtor := Joining j\<rparr>)"
      using True d tp_threadsD(5) [of "wake j s"] by (intro frame [OF w]) (auto simp: joined_def)
    then show ?thesis using True by (simp add: dtor_notify_def)
  next
    case False
    have "tp_inv (s\<lparr>dtor := Gone\<rparr>)"
      using False d tp_threadsD(5) [OF Th] by (intro frame [OF inv]) (auto simp: joined_def)
    then show ?thesis using False by (simp add: dtor_notify_def)
  qed
  show "tp_inv (s\<lparr>dtor := Notifying (Suc j)\<rparr>)" if d: "dtor s = Joining j" "pcs s ! j = Exited"
    using d tp_threadsD(5) [OF Th] by (intro frame [OF inv]) (auto simp: joined_def less_Suc_eq)
qed

lemma tp_inv_exec:
  assumes inv: "tp_inv s" and e: "tp_exec a s = Some t"
  shows "tp_inv t"
proof (cases a)
  case (Lock i)
  then show ?thesis using e inv by (auto simp: worker_lock_def pc_ok_def intro!: set_pc_inv split: if_splits)
next
  case (Block i)
  then have g: "i < pool_size s" "pcs s ! i = Checked" "t = set_pc i Waiting s" using e by (auto split: if_splits)
  moreover have "functors s ! i = None" using inv tp_threadsD(1) [of s i] g by (auto simp: tp_inv_def pc_ok_def)
  ultimately show ?thesis using inv by (auto simp: pc_ok_def intro!: set_pc_inv)
next
  case (Run i)
  then show ?thesis using e run_inv [OF inv] by (auto split: if_splits)
next
  case (Free i)
  then show ?thesis using e free_inv [OF inv] by (auto split: if_splits)
next
  case (Spurious i)
  then show ?thesis using e inv by (auto simp: pc_ok_def intro!: set_pc_inv split: if_splits)
next
  case (Recheck i)
  then show ?thesis using e inv by (auto simp: worker_recheck_def pc_ok_def intro!: set_pc_inv split: if_splits)
next
  case (Submit x)
  then show ?thesis using e take_inv [OF inv] by (auto split: if_splits)
next
  case Place
  then show ?thesis using e place_inv [OF inv] by (auto split: if_splits option.splits)
next
  case Shutdown
  then show ?thesis using e dtor_inv(1) [OF inv] by (auto split: if_splits)
next
  case Notify
  then show ?thesis using e dtor_inv(2) [OF inv] by (auto split: dtor_pc.splits)
next
  case Join
  then show ?thesis using e dtor_inv(3) [OF inv] by (auto split: dtor_pc.splits if_splits)
qed

lemma tp_inv_new: "tp_inv (thread_pool_new n)"
proof -
  have "pending (replicate n None) = {#}" "pending [] = {#}" by (simp_all add: pending_def)
  then show ?thesis
    by (auto simp: tp_inv_def tp_indices_def tp_tasks_def tp_threads_def thread_pool_new_def pool_size_def occupied_def
        pc_ok_def joined_def)
qed

interpretation tp: transition_invariant "tp_initial n" tp_step tp_inv
  by unfold_locales (auto simp: tp_initial_def tp_inv_new intro: tp_inv_exec elim!: tp_step_cases)

section \<open>Properties\<close>

lemma pending_empty: "(\<And>i. i < length fs \<Longrightarrow> fs ! i = None) \<Longrightarrow> pending fs = {#}"
  unfolding pending_def by (auto simp: filter_mset_eq_conv in_set_conv_nth)

lemma all_exited:
  assumes "tp_inv s" "dtor s = Gone"
  shows "mset (ran s) = pending (submitted s)"
proof -
  have Th: "tp_threads s" and T: "tp_tasks s" using assms(1) by (simp_all add: tp_inv_def)
  have "functors s ! i = None" if "i < pool_size s" for i
    using tp_threadsD(1) [OF Th that] tp_threadsD(5) [OF Th _ that] that assms(2) by (simp add: joined_def pc_ok_def)
  then have "pending (functors s) = {#}" by (intro pending_empty) (simp add: pool_size_def)
  moreover have "placing s = None" using tp_threadsD(3) [OF Th] assms(2) by simp
  ultimately show ?thesis using T by (simp add: tp_tasks_def)
qed

lemma count_active_eq:
  assumes "tp_inv s"
  shows "count_active s = card {i. i < pool_size s \<and> occupied s i}"
proof -
  have I: "tp_indices s" using assms by (simp add: tp_inv_def)
  have "set (m_free s) = {i. i < pool_size s \<and> \<not> occupied s i}" using tp_indicesD(3) [OF I] by auto
  then have l: "length (m_free s) = card {i. i < pool_size s \<and> \<not> occupied s i}" using tp_indicesD(2) [OF I] distinct_card by metis
  let ?A = "{i. i < pool_size s \<and> occupied s i}" and ?B = "{i. i < pool_size s \<and> \<not> occupied s i}"
  have "card (?A \<union> ?B) = card ?A + card ?B" by (rule card_Un_disjoint) auto
  moreover have "?A \<union> ?B = {..<pool_size s}" by auto
  ultimately have "pool_size s = card ?A + card ?B" by simp
  then show ?thesis using l by (simp add: count_active_def)
qed

lemma count_None: "count (mset xs) None = length (filter (\<lambda>t. t = None) xs)"
  by (induction xs) auto

lemma lost_workers:
  assumes "tp_inv s"
  shows "length (lost s) + length (m_free s) \<le> pool_size s"
proof -
  have I: "tp_indices s" using assms by (simp add: tp_inv_def)
  have "distinct (lost s @ m_free s)"
    using tp_indicesD(2,3,5) [OF I] by (auto simp: occupied_def)
  moreover have "set (lost s @ m_free s) \<subseteq> {..<pool_size s}" using tp_indicesD(3,6) [OF I] by auto
  ultimately show ?thesis by (metis card_lessThan card_mono distinct_card finite_lessThan length_append)
qed

text \<open>C10. The pool runs every task exactly once. In every reachable state, whatever the interleaving of workers,
  callers and the destructor, the tasks given to \<open>execute\<close> are those that ran, those placed with a worker and
  the one being placed; a task is placed only with a worker that has none; a placed task has a worker
  that is on its way to it, never one that waits or has finished; \<open>count_active\<close> counts the workers that
  are occupied; and when the destructor returns every task has run. An empty function is no task: each one
  given to \<open>execute\<close> takes one worker out of the pool for good, which stays counted as active.\<close>

theorem thread_pool_runs_each_task_once:
  assumes "reachable (tp_initial n) tp_step s"
  shows "pending (submitted s) = mset (ran s) + pending (functors s) + (case placing s of Some (i, Some t) \<Rightarrow> {#t#} | _ \<Rightarrow> {#}) \<and>
    (\<forall>i t. placing s = Some (i, t) \<longrightarrow> functors s ! i = None) \<and>
    (\<forall>i < pool_size s. functors s ! i \<noteq> None \<longrightarrow> pcs s ! i \<in> {Start, Woken, Running}) \<and>
    count_active s = card {i. i < pool_size s \<and> occupied s i} \<and>
    (dtor s = Gone \<longrightarrow> mset (ran s) = pending (submitted s)) \<and>
    (placing s = None \<longrightarrow> length (filter (\<lambda>t. t = None) (submitted s)) + length (m_free s) \<le> pool_size s)"
proof -
  have inv: "tp_inv s" using assms by (rule tp.inv_reachable)
  then have I: "tp_indices s" and T: "tp_tasks s" and Th: "tp_threads s" by (simp_all add: tp_inv_def)
  have "pcs s ! i \<in> {Start, Woken, Running}" if "i < pool_size s" "functors s ! i \<noteq> None" for i
    using tp_threadsD(1) [OF Th that(1)] that(2) by (cases "pcs s ! i") (auto simp: pc_ok_def)
  moreover have "length (filter (\<lambda>t. t = None) (submitted s)) + length (m_free s) \<le> pool_size s" if "placing s = None"
    using lost_workers [OF inv] T that by (simp add: tp_tasks_def count_None)
  ultimately show ?thesis using T tp_indicesD(4) [OF I] all_exited [OF inv] count_active_eq [OF inv] by (auto simp: tp_tasks_def)
qed

lemma reachable_exec: "reachable (tp_initial n) tp_step s \<Longrightarrow> tp_exec a s = Some t \<Longrightarrow> reachable (tp_initial n) tp_step t"
  by (rule reachable_step) (auto intro: tp_step)

lemma reachable_new: "reachable (tp_initial n) tp_step (thread_pool_new n)"
  by (rule reachable_init) (simp add: tp_initial_def)

text \<open>A task given to the only worker while it waits.\<close>

theorem thread_pool_runs_each_task_once_witness:
  "\<exists>s. reachable (tp_initial 1) tp_step s \<and> submitted s = [Some 7] \<and> functors s = [Some 7] \<and> pcs s ! 0 \<in> {Start, Woken, Running}"
proof -
  let ?s = "thread_pool_new 1"
  define t1 where "t1 = set_pc 0 Checked ?s"
  define t2 where "t2 = set_pc 0 Waiting t1"
  define t3 where "t3 = execute_take (Some 7) t2"
  define t4 where "t4 = execute_place 0 (Some 7) t3"
  note defs = t1_def t2_def t3_def t4_def thread_pool_new_def set_pc_def worker_lock_def pool_size_def execute_take_def execute_place_def wake_def
  have "tp_exec (Lock 0) ?s = Some t1" "tp_exec (Block 0) t1 = Some t2" "tp_exec (Submit (Some 7)) t2 = Some t3" "tp_exec Place t3 = Some t4"
    by (simp_all add: defs)
  then have r: "reachable (tp_initial 1) tp_step t4" using reachable_exec reachable_new by meson
  moreover have "submitted t4 = [Some 7]" "functors t4 = [Some 7]" by (simp_all add: defs)
  moreover have "pcs t4 ! 0 \<in> {Start, Woken, Running}"
    using thread_pool_runs_each_task_once [OF r] \<open>functors t4 = [Some 7]\<close> by (simp add: pool_size_def)
  ultimately show ?thesis by blast
qed

text \<open>C38. The destructor can wait forever: it sets \<open>m_is_running\<close> and notifies without the mutex of the entry, so
  a worker that has just seen the flag set and has not started to wait misses the notification. A state
  is reachable in which the destructor joins a waiting worker and nothing but a spurious wake-up can
  happen.\<close>

theorem thread_pool_destructor_can_hang:
  "\<exists>s. reachable (tp_initial 1) tp_step s \<and> dtor s = Joining 0 \<and> pcs s ! 0 = Waiting \<and>
     (\<forall>a. tp_exec a s = None \<or> a = Spurious 0)"
proof -
  let ?s = "thread_pool_new 1"
  define t1 where "t1 = set_pc 0 Checked ?s"
  define t2 where "t2 = dtor_begin t1"
  define t3 where "t3 = dtor_notify 0 t2"
  define t4 where "t4 = set_pc 0 Waiting t3"
  note defs = t1_def t2_def t3_def t4_def thread_pool_new_def set_pc_def worker_lock_def pool_size_def dtor_begin_def dtor_notify_def wake_def
  have "tp_exec (Lock 0) ?s = Some t1" "tp_exec Shutdown t1 = Some t2" "tp_exec Notify t2 = Some t3" "tp_exec (Block 0) t3 = Some t4"
    by (simp_all add: defs)
  then have "reachable (tp_initial 1) tp_step t4" using reachable_exec reachable_new by meson
  moreover have "dtor t4 = Joining 0" "pcs t4 ! 0 = Waiting" by (simp_all add: defs)
  moreover have "tp_exec a t4 = None \<or> a = Spurious 0" for a by (cases a) (simp_all add: defs nth_Cons')
  ultimately show ?thesis by blast
qed

end
