(* ===== verification/Spec2Isabelle.thy ===== *)
theory Spec2Isabelle
  imports Bfc_Event_Queue Bfc_Function Bfc_Timer Bfc_Reactor_Queues Bfc_Poll_Reactor Bfc_Wake_Protocol Bfc_Queue_Delivery
    Bfc_Default_Reactor Bfc_Cv_Reactor
    Bfc_Memory Bfc_Buffer_Views Bfc_Socket Bfc_Command Bfc_Metric Bfc_Registry Bfc_Thread_Pool
begin

text \<open>
  A verification of the \<open>bfc\<close> library, the C++ headers under \<open>src/src/bfc\<close>.

  \<^bold>\<open>The program.\<close> The library is a set of header-only building blocks for event-driven programs. Callbacks
  are \<open>function\<close> objects with fixed storage. Reactors (\<open>poll_reactor\<close>, \<open>epoll_reactor\<close>, \<open>cv_reactor\<close>) run a loop that
  waits for descriptors or for a condition variable, calls the callbacks that are ready, runs callbacks
  posted by \<open>wake_up\<close>, serves reactive queues and fires timers. Queues (\<open>event_queue.hpp\<close>) carry data between
  threads and wake the reactor they are bound to; \<open>reactor_queues\<close> is the table of queues a descriptor
  reactor serves. Beside them are buffers and memory pools, sockets, a thread pool, metrics, a registry of
  named objects, a configuration parser and a command manager.

  \<^bold>\<open>The theories\<close>, in the order in which they depend on each other:

  \<^item> \<open>Bfc_Prelude\<close>: faults and results, machine integers, rings, swap-removal, vectors indexed by key, and the
    locale of invariants of transition systems. \<open>Bfc_Ordered_Map\<close>: \<open>std::map\<close> and \<open>std::unordered_map\<close> and the
    locale \<open>keyed_store\<close> both interpret; the timer, the metrics and the registry are its clients.
  \<^item> \<open>Bfc_Event_Queue\<close> (\<open>event_queue.hpp\<close>): the binding to a reactor, the unbounded queue, the circular lossy
    ring at \<open>size_t\<close> width, and the blocking queue with its condition variable. The ring refines the list
    that keeps the newest elements; elements are conserved; a throwing \<open>set_capacity\<close> changes nothing; no
    consumer sleeps while there is data and no wake-up under way.
  \<^item> \<open>Bfc_Function\<close> (\<open>function.hpp\<close>): construction, copy, move, swap, reset and destruction on a heap with the
    lifetimes of the wrapped callables: each callable is destroyed exactly once; what moving and
    copy-assigning do to the address of a callable.
  \<^item> \<open>Bfc_Timer\<close> (\<open>timer.hpp\<close>): due timers fire once, in order of deadline and registration, and, measured by the
    clock they were armed with, less than a microsecond before their delay has passed; what \<open>cancel\<close> returns tells
    whether the timer can still fire, also while a pass is calling the timers it took out.
  \<^item> \<open>Bfc_Reactor_Queues\<close> (\<open>reactor_queues.hpp\<close>): the table of queues and one pass over it, and the locale
    \<open>queue_service\<close>, what a reactor has to promise for no queue to be left behind.
  \<^item> \<open>Bfc_Poll_Tables\<close>, \<open>Bfc_Poll_Reactor\<close> (\<open>poll_reactor.hpp\<close>): the vector of poll entries with its index tables
    and generations; the wake pipe, the run loop and the public class. An event reaches a callback only
    for the registration that is live (a refinement of an abstract registry), the tables agree in every
    state, descriptors are accounted for, posted callbacks run once and in order, wake-ups are not lost.
    \<open>Bfc_Wake_Protocol\<close> takes its wake-up apart into the accesses to the flag and the pipe: no interleaving of
    threads inside \<open>wake_up\<close>, \<open>stop\<close> and pushes with the loop loses a callback, data or a stop.
  \<^item> \<open>Bfc_Epoll_Reactor\<close> (\<open>epoll_reactor.hpp\<close>): the same interface over an epoll instance whose interest list
    holds pointers into the nodes of the entry map. No event leads to an erased node; wake-ups are not lost;
    the time-out is exact. \<open>Bfc_Default_Reactor\<close> (\<open>default_reactor.hpp\<close>): which of the two a build uses.
  \<^item> \<open>Bfc_Queue_Delivery\<close>: queues, table and reactor together. Both descriptor reactors interpret \<open>queue_service\<close>, so
    neither sleeps while a queue that is bound to it and registered with it holds data, unless a thread is still
    between the push and the signal, or the queue was registered and held data when it was bound.
  \<^item> \<open>Bfc_Cv_Reactor\<close> (\<open>cv_reactor.hpp\<close>): the reactor over a condition variable.
  \<^item> \<open>Bfc_Memory\<close> (\<open>buffer.hpp\<close>, \<open>sized_buffer.hpp\<close>, \<open>memory_pool.hpp\<close>): every live block has one owner, a buffer
    or the free list of a pool. \<open>Bfc_Shared_Buffer\<close> (\<open>shared_sized_buffer.hpp\<close>) and \<open>Bfc_Buffer_Views\<close> (the views of
    \<open>buffer.hpp\<close>): reference counts equal the number of views, for both kinds of handle through the locale
    \<open>shared_handles\<close>; the last handle destroys what is shared, and nothing else.
  \<^item> \<open>Bfc_Socket\<close> (\<open>socket.hpp\<close>): descriptors are closed once; IPv4 addresses survive printing and parsing.
  \<^item> \<open>Bfc_Regex\<close>, \<open>Bfc_Config\<close>, \<open>Bfc_Command\<close> (\<open>configuration_parser.hpp\<close>, \<open>command_manager.hpp\<close>): the backtracking
    matcher for the patterns in use; what a configuration line and a command line mean; the argument loop
    ends on every input.
  \<^item> \<open>Bfc_Metric\<close> (\<open>metric.hpp\<close>): binary64 addition and the compare-exchange loop of \<open>fetch_add\<close>; the monitor.
  \<^item> \<open>Bfc_Registry\<close> (\<open>object_registry.hpp\<close>): named objects stay alive while they are registered.
  \<^item> \<open>Bfc_Thread_Pool\<close> (\<open>thread_pool.hpp\<close>): every task runs exactly once in every interleaving of workers,
    callers and destructor; the destructor can hang; a call with an empty function costs a worker.

  \<^bold>\<open>How code becomes definitions.\<close> A class is a record of its members, an operation a function on it whose
  branches are those of the code. Exceptions and undefined behaviour are the outcome \<open>Throw\<close> with the state
  at that point. Callbacks are numbers; what a callback does is an argument, a program of calls of the
  interface that may depend on the state it finds, so that callbacks which add, remove, post and stop
  from inside the loop are covered. Critical sections are atomic steps: the reactors take the steps of
  other threads at the points of an iteration where they can be observed, and a list of booleans, over which the
  theorems quantify, says where a thread is preempted inside \<open>push\<close> and \<open>wake_up\<close>, to go on in a later step or never;
  the timer, the blocking queue, the thread pool and the wake-up protocol are transition systems. The operating system is part of the state or an argument: the
  results of system calls, the clock, the kernel's interest list, open descriptors.

  \<^bold>\<open>Loops and bounds.\<close> Structural loops are recursive functions. The run loops consume a list of environments,
  one for each iteration, and report whether they returned; the theorems hold for every list. The depth of
  callbacks nested in callbacks of the epoll reactor is bounded by an argument, the stack, and the
  theorems hold for every bound. The argument loop of the command manager and the compare-exchange loop of
  a metric are partial functions; the first is proved to return always, the second exactly unless the
  metric holds NaN.

  \<^bold>\<open>Not modelled.\<close> The memory model of C++ below atomic steps; exceptions from the allocation of small
  objects where the code does not handle them; the IPv6 text functions, the text of a double and the
  stream extraction of a value, which are arguments; \<open>get_timer\<close>, the registry aliases and other type names;
  the tests and the vendored copies of gtest and gmock under \<open>src/gtest\<close>.
\<close>

section \<open>The reactors agree on how long to wait\<close>

lemma div_bracket: "x div c * c \<le> x" "x < x div c * c + c" if "0 < c" for x c :: int
  using div_mult_mod_eq [of x c] pos_mod_sign [OF that, of x] pos_mod_bound [OF that, of x] by linarith+

lemma ms_floor_ceil:
  fixes d :: int
  assumes "0 < d"
  shows "d div 1000 \<le> d div 1000000 * 1000 + (d mod 1000000 * 1000 + 999999) div 1000000"
    and "d div 1000000 * 1000 + (d mod 1000000 * 1000 + 999999) div 1000000 \<le> d div 1000 + 1"
proof -
  have "k \<le> q * 1000 + r \<and> q * 1000 + r \<le> k + 1"
    if "d = q * 1000000 + m" "r * 1000000 \<le> m * 1000 + 999999" "m * 1000 + 999999 < r * 1000000 + 1000000"
      "k * 1000 \<le> d" "d < k * 1000 + 1000" for q m r k :: int
    using that by linarith
  moreover note div_bracket [of 1000000 "d mod 1000000 * 1000 + 999999", OF zero_less_numeral] div_bracket [of 1000 d, OF zero_less_numeral]
  moreover have "d = d div 1000000 * 1000000 + d mod 1000000" by simp
  ultimately show "d div 1000 \<le> d div 1000000 * 1000 + (d mod 1000000 * 1000 + 999999) div 1000000"
    "d div 1000000 * 1000 + (d mod 1000000 * 1000 + 999999) div 1000000 \<le> d div 1000 + 1" by blast+
qed

text \<open>
  With the same timers and the same backlog the two descriptor reactors wait for the same number of
  milliseconds, up to the one by which \<open>epoll_wait\<close> is rounded up and \<open>poll\<close> rounded down.
\<close>

lemma reactor_timeouts_agree:
  assumes same: "get_next_deadline_us (m_timer p) = get_next_deadline_us (e_timer e)" "m_queue_backlog p = e_queue_backlog e"
    and r: "poll_timeout now p = Ok tp p'" "ep_timeout now e = Ok te e'"
  shows "tp \<le> ep_timeout_ms te \<and> ep_timeout_ms te \<le> tp + 1"
proof (cases "e_queue_backlog e")
  case True
  then have "tp = 0" "te = Some (0, 0)"
    using r same by (auto simp: poll_timeout_def ep_timeout_def Let_def split: option.splits if_splits)
  then show ?thesis by (simp add: ep_timeout_ms_def INT_MAX_def)
next
  case False
  show ?thesis
  proof (cases "get_next_deadline_us (e_timer e)")
    case None
    then show ?thesis using r same False by (auto simp: poll_timeout_def ep_timeout_def ep_timeout_ms_def)
  next
    case (Some d)
    show ?thesis
    proof (cases "0 < d - now")
      case True
      have "tp = min INT_MAX ((d - now) div 1000)" "te = Some ((d - now) div 1000000, (d - now) mod 1000000 * 1000)"
        using r same False Some True by (auto simp: poll_timeout_def ep_timeout_def Let_def split: if_splits)
      then show ?thesis using ms_floor_ceil [OF True] by (auto simp: ep_timeout_ms_def Let_def)
    next
      case nonpos: False
      then have "tp = 0" "te = Some (0, 0)"
        using r same False Some by (auto simp: poll_timeout_def ep_timeout_def Let_def split: if_splits)
      then show ?thesis by (simp add: ep_timeout_ms_def INT_MAX_def)
    qed
  qed
qed

end
